(* ===== verification/Prelude.thy ===== *)
theory Prelude
  imports Main "HOL-Library.Word" "HOL-Library.List_Lexorder" "HOL-Library.Char_ord"
begin

text \<open>
  Shared vocabulary of the development: the machine integers of the C++ sources, the ways an
  operation can go wrong, byte strings, the ordered \<^verbatim>\<open>std::map\<close>, and transition systems with
  their reachable states.  Nothing here models one particular source file; the component
  theories build on it.
\<close>

unbundle bit_operations_syntax

section \<open>Machine integers\<close>

text \<open>
  A C \<^verbatim>\<open>int\<close> is kept as its 32 bits and read with \<^const>\<open>sint\<close> where the sign matters; an
  \<^verbatim>\<open>unsigned int\<close> is the same word read with \<^const>\<open>unat\<close>.
\<close>

type_synonym u8 = "8 word"
type_synonym u16 = "16 word"
type_synonym u32 = "32 word"
type_synonym u64 = "64 word"
type_synonym i32 = "32 word"

named_theorems byte_simps

lemma and_255 [byte_simps]: "x AND 0xff = take_bit 8 (x :: 'a::len word)"
proof -
  have "(0xff :: 'a word) = mask 8" by (simp add: mask_eq_exp_minus_1)
  then show ?thesis by (simp only: take_bit_eq_mask)
qed

lemma take_bit_scast_u8 [byte_simps]: "take_bit 8 (scast (b :: u8) :: u32) = ucast b"
proof (rule bit_word_eqI)
  fix n
  show "bit (take_bit 8 (scast b :: u32)) n \<longleftrightarrow> bit (ucast b :: u32) n"
  proof (cases "n < 8")
    case True
    then have "min 7 n = n" by simp
    with True show ?thesis by (simp add: bit_simps)
  next
    case False
    then have "\<not> bit b n" using bit_imp_le_length [of b n] by auto
    with False show ?thesis by (simp add: bit_simps)
  qed
qed

lemma ucast_u8_scast [byte_simps]: "(ucast (scast (b :: u8) :: u32) :: u8) = b"
proof (rule bit_word_eqI)
  fix n :: nat
  assume "n < LENGTH(8)"
  then have "min 7 n = n" by simp
  then show "bit (ucast (scast b :: u32) :: u8) n \<longleftrightarrow> bit b n"
    using \<open>n < LENGTH(8)\<close> by (simp add: bit_simps)
qed

lemma ucast_ucast_u8 [byte_simps]: "ucast (ucast x :: u8) = (take_bit 8 x :: u32)"
  by (rule bit_word_eqI) (auto simp: bit_simps)

lemma ucast_take_bit_8 [byte_simps]: "(ucast (take_bit 8 (x :: 'a::len word)) :: u8) = ucast x"
  by (rule bit_word_eqI) (auto simp: bit_simps)

lemma u32_of_bytes:
  "push_bit 24 (take_bit 8 (drop_bit 24 x)) OR push_bit 16 (take_bit 8 (drop_bit 16 x)) OR
   push_bit 8 (take_bit 8 (drop_bit 8 x)) OR take_bit 8 x = (x :: u32)"
proof (rule bit_word_eqI)
  fix n assume n: "n < LENGTH(32)"
  consider "n < 8" | "8 \<le> n" "n < 16" | "16 \<le> n" "n < 24" | "24 \<le> n" "n < 32"
    using n by fastforce
  then show "bit (push_bit 24 (take_bit 8 (drop_bit 24 x)) OR push_bit 16 (take_bit 8 (drop_bit 16 x)) OR
      push_bit 8 (take_bit 8 (drop_bit 8 x)) OR take_bit 8 x) n \<longleftrightarrow> bit x n"
    by cases (auto simp: bit_simps)
qed

lemma u16_of_bytes:
  "ucast (push_bit 8 (ucast (ucast (drop_bit 8 x) :: u8) :: u32) OR ucast (ucast x :: u8)) = (x :: u16)"
proof (rule bit_word_eqI)
  fix n assume n: "n < LENGTH(16)"
  consider "n < 8" | "8 \<le> n" "n < 16" using n by fastforce
  then show "bit (ucast (push_bit 8 (ucast (ucast (drop_bit 8 x) :: u8) :: u32) OR
      ucast (ucast x :: u8)) :: u16) n \<longleftrightarrow> bit x n"
    by cases (auto simp: bit_simps)
qed

lemma u64_of_halves:
  "(ucast (ucast (x :: u64) :: u32) :: u64) OR push_bit 32 (ucast (ucast (drop_bit 32 x) :: u32)) = x"
proof (rule bit_word_eqI)
  fix n assume n: "n < LENGTH(64)"
  consider "n < 32" | "32 \<le> n" "n < 64" using n by fastforce
  then show "bit ((ucast (ucast x :: u32) :: u64) OR push_bit 32 (ucast (ucast (drop_bit 32 x) :: u32))) n
      \<longleftrightarrow> bit x n"
    by cases (auto simp: bit_simps)
qed

lemma unat_of_nat_u32 [simp]: "n < 2 ^ 31 \<Longrightarrow> unat (of_nat n :: u32) = n"
  by (simp add: unat_of_nat)

section \<open>Faults\<close>

text \<open>
  The ways an operation of the sources can leave defined behaviour.  \<^verbatim>\<open>VERIFY(e)\<close> is
  \<^verbatim>\<open>assert(e)\<close>, which stops the process; the other faults are undefined behaviour in C++
  (\<open>Dangling\<close> is a use of an object that was deleted) or an explicit \<^verbatim>\<open>exit\<close>.  A fallible
  operation returns a value of type \<open>'a res\<close>.
\<close>

datatype fault =
    Verify_Failed
  | Out_Of_Bounds
  | Null_Deref
  | Uninitialised
  | Dangling
  | Exited

type_synonym 'a res = "fault + 'a"

definition res_bind :: "'a res \<Rightarrow> ('a \<Rightarrow> 'b res) \<Rightarrow> 'b res" where
  "res_bind r f = (case r of Inl e \<Rightarrow> Inl e | Inr x \<Rightarrow> f x)"

lemma res_bind_simps [simp]:
  "res_bind (Inl e) f = Inl e"
  "res_bind (Inr x) f = f x"
  by (simp_all add: res_bind_def)

lemma res_bind_eq_Inr_iff: "res_bind r f = Inr y \<longleftrightarrow> (\<exists>x. r = Inr x \<and> f x = Inr y)"
  by (cases r) auto

lemma res_bind_assoc: "res_bind (res_bind r f) g = res_bind r (\<lambda>x. res_bind (f x) g)"
  by (cases r) auto

section \<open>Byte strings\<close>

text \<open>
  A \<^verbatim>\<open>std::string\<close> is a list of characters; on the wire and in the socket buffers it is a list
  of bytes.  \<^typ>\<open>char\<close> has exactly the 256 values of a byte, ordered as unsigned values, which is
  how \<^verbatim>\<open>std::string\<close> compares.
\<close>

definition byte_of_char :: "char \<Rightarrow> u8" where
  "byte_of_char c = word_of_nat (of_char c)"

definition char_of_byte :: "u8 \<Rightarrow> char" where
  "char_of_byte b = char_of (unat b)"

abbreviation bytes_of :: "string \<Rightarrow> u8 list" where
  "bytes_of \<equiv> map byte_of_char"

abbreviation string_of :: "u8 list \<Rightarrow> string" where
  "string_of \<equiv> map char_of_byte"

lemma char_of_byte_of_char [simp]: "char_of_byte (byte_of_char c) = c"
  by (simp add: char_of_byte_def byte_of_char_def unat_of_nat)

lemma byte_of_char_of_byte [simp]: "byte_of_char (char_of_byte b) = b"
proof -
  have "unat b < 256" using unsigned_less [of b, where ?'a = nat] by simp
  then show ?thesis by (simp add: char_of_byte_def byte_of_char_def)
qed

lemma char_byte_comp [simp]:
  "char_of_byte \<circ> byte_of_char = id" "byte_of_char \<circ> char_of_byte = id"
  by (simp_all add: fun_eq_iff)

section \<open>Ordered maps\<close>

text \<open>
  \<^verbatim>\<open>std::map\<close> keeps its entries in key order and is iterated in that order.  It is modelled by
  the association list an iteration from \<^verbatim>\<open>begin()\<close> to \<^verbatim>\<open>end()\<close> visits; \<^const>\<open>map_of\<close> is
  \<^verbatim>\<open>find\<close>.
\<close>

type_synonym ('k, 'v) smap = "('k \<times> 'v) list"

fun smap_set :: "'k::linorder \<Rightarrow> 'v \<Rightarrow> ('k, 'v) smap \<Rightarrow> ('k, 'v) smap" where
  "smap_set k v [] = [(k, v)]"
| "smap_set k v ((k', v') # m) =
     (if k < k' then (k, v) # (k', v') # m
      else if k = k' then (k, v) # m
      else (k', v') # smap_set k v m)"

definition smap_del :: "'k \<Rightarrow> ('k, 'v) smap \<Rightarrow> ('k, 'v) smap" where
  "smap_del k m = filter (\<lambda>kv. fst kv \<noteq> k) m"

definition smap_ok :: "('k::linorder, 'v) smap \<Rightarrow> bool" where
  "smap_ok m \<longleftrightarrow> sorted_wrt (<) (map fst m)"

lemma map_of_smap_set [simp]: "map_of (smap_set k v m) = (map_of m)(k \<mapsto> v)"
  by (induction k v m rule: smap_set.induct) auto

lemma map_of_smap_del [simp]: "map_of (smap_del k m) = (map_of m)(k := None)"
  by (induction m) (auto simp: smap_del_def)

lemma fst_set_smap_set: "fst ` set (smap_set k v m) = insert k (fst ` set m)"
  by (induction k v m rule: smap_set.induct) auto

lemma smap_ok_Nil [simp]: "smap_ok []"
  by (simp add: smap_ok_def)

lemma smap_ok_set [simp]: "smap_ok m \<Longrightarrow> smap_ok (smap_set k v m)"
proof (induction k v m rule: smap_set.induct)
  case (2 k v k' v' m)
  then show ?case
    using fst_set_smap_set [of k v m] by (fastforce simp: smap_ok_def)
qed (simp add: smap_ok_def)

lemma smap_ok_del [simp]: "smap_ok m \<Longrightarrow> smap_ok (smap_del k m)"
  by (induction m) (auto simp: smap_ok_def smap_del_def)

lemma smap_ok_distinct: "smap_ok m \<Longrightarrow> distinct (map fst m)"
  by (simp add: smap_ok_def strict_sorted_iff flip: strict_sorted_simps)

section \<open>Transition systems\<close>

text \<open>
  A component with concurrency is a predicate for its initial states and a step relation.
  \<open>reach\<close> is the least set of states closed under both, and a property that holds initially
  and is kept by every step holds in all of it.
\<close>

inductive reach :: "('s \<Rightarrow> bool) \<Rightarrow> ('s \<Rightarrow> 's \<Rightarrow> bool) \<Rightarrow> 's \<Rightarrow> bool"
  for init :: "'s \<Rightarrow> bool" and step :: "'s \<Rightarrow> 's \<Rightarrow> bool" where
  reach_init: "init s \<Longrightarrow> reach init step s"
| reach_step: "reach init step s \<Longrightarrow> step s t \<Longrightarrow> reach init step t"

locale invariant_system =
  fixes init :: "'s \<Rightarrow> bool" and step :: "'s \<Rightarrow> 's \<Rightarrow> bool" and inv :: "'s \<Rightarrow> bool"
  assumes inv_init: "init s \<Longrightarrow> inv s"
    and inv_step: "inv s \<Longrightarrow> step s t \<Longrightarrow> inv t"
begin

lemma reach_inv: "reach init step s \<Longrightarrow> inv s"
  by (induction rule: reach.induct) (auto intro: inv_init inv_step)

lemma steps_inv: "step\<^sup>*\<^sup>* s t \<Longrightarrow> inv s \<Longrightarrow> inv t"
  by (induction rule: rtranclp_induct) (auto intro: inv_step)

end

section \<open>Lists\<close>

lemma take_Suc_update: "i < length xs \<Longrightarrow> take (Suc i) (xs[i := y]) = take i xs @ [y]"
  by (simp add: take_Suc_conv_app_nth)

lemma take_append_exact: "length xs = n \<Longrightarrow> take n (xs @ ys) = xs"
  by simp

end
