(* ===== verification/Marshall.thy ===== *)
theory Marshall
  imports Prelude
begin

text \<open>
  The wire format: classes \<^verbatim>\<open>marshall\<close> and \<^verbatim>\<open>unmarshall\<close> of \<^verbatim>\<open>rpc/marshall.h\<close> and their
  operators in \<^verbatim>\<open>rpc/rpc.cc\<close>.  A \<^verbatim>\<open>marshall\<close> owns a heap buffer that grows; a cell that was
  allocated but never written is \<^const>\<open>None\<close>.  An \<^verbatim>\<open>unmarshall\<close> reads a buffer with a cursor
  and a sticky \<^verbatim>\<open>_ok\<close> flag.  The locale \<open>codec\<close> is the contract between an \<^verbatim>\<open>operator<<\<close>
  and its \<^verbatim>\<open>operator>>\<close>; every base type, vectors and maps satisfy it.
\<close>

section \<open>Layout constants\<close>

definition static_max :: "nat \<Rightarrow> nat \<Rightarrow> nat" where
  "static_max a b = (if a > b then a else b)"

text \<open>
  Five 4-byte fields in a request header, two in a reply header, and the 4-byte size that the
  channel fills in (\<^verbatim>\<open>RPC_CHECKSUMMING\<close> is not defined by the build).
\<close>

definition RPC_HEADER_SZ :: nat where
  "RPC_HEADER_SZ = static_max 20 8 + 4"

definition DEFAULT_RPC_SZ :: nat where
  "DEFAULT_RPC_SZ = 1024"

lemma RPC_HEADER_SZ_eq [simp]: "RPC_HEADER_SZ = 24"
  by (simp add: RPC_HEADER_SZ_def static_max_def)

section \<open>Writing: class marshall\<close>

record marshall =
  m_buf :: "u8 option list"
  m_capa :: nat
  m_ind :: nat

definition mem_realloc :: "'a option list \<Rightarrow> nat \<Rightarrow> 'a option list" where
  "mem_realloc b n = take n b @ replicate (n - length b) None"

definition marshall_new :: marshall where
  "marshall_new = \<lparr>m_buf = replicate DEFAULT_RPC_SZ None, m_capa = DEFAULT_RPC_SZ, m_ind = RPC_HEADER_SZ\<rparr>"

definition m_rawbyte :: "u8 \<Rightarrow> marshall \<Rightarrow> marshall" where
  "m_rawbyte x m =
     (let m1 = (if m_ind m \<ge> m_capa m
                then m\<lparr>m_capa := m_capa m * 2, m_buf := mem_realloc (m_buf m) (m_capa m * 2)\<rparr>
                else m)
      in m1\<lparr>m_buf := (m_buf m1)[m_ind m1 := Some x], m_ind := m_ind m1 + 1\<rparr>)"

definition m_rawbytes :: "u8 list \<Rightarrow> marshall \<Rightarrow> marshall" where
  "m_rawbytes p m =
     (let n = length p;
          capa = (if m_capa m > n then 2 * m_capa m else m_capa m + n);
          m1 = (if m_ind m + n > m_capa m
                then m\<lparr>m_capa := capa, m_buf := mem_realloc (m_buf m) capa\<rparr>
                else m)
      in m1\<lparr>m_buf := take (m_ind m1) (m_buf m1) @ map Some p @ drop (m_ind m1 + n) (m_buf m1),
            m_ind := m_ind m1 + n\<rparr>)"

definition get_content :: "marshall \<Rightarrow> u8 list option" where
  "get_content m = those (drop RPC_HEADER_SZ (take (m_ind m) (m_buf m)))"

definition put_bool :: "bool \<Rightarrow> marshall \<Rightarrow> marshall" where
  "put_bool x = m_rawbyte (if x then 1 else 0)"

definition put_uchar :: "u8 \<Rightarrow> marshall \<Rightarrow> marshall" where
  "put_uchar x = m_rawbyte x"

definition put_char :: "char \<Rightarrow> marshall \<Rightarrow> marshall" where
  "put_char x = put_uchar (byte_of_char x)"

definition put_ushort :: "u16 \<Rightarrow> marshall \<Rightarrow> marshall" where
  "put_ushort x m =
     m_rawbyte (ucast (x AND 0xff)) (m_rawbyte (ucast (drop_bit 8 x AND 0xff)) m)"

definition put_short :: "u16 \<Rightarrow> marshall \<Rightarrow> marshall" where
  "put_short x = put_ushort x"

definition put_uint :: "u32 \<Rightarrow> marshall \<Rightarrow> marshall" where
  "put_uint x m =
     m_rawbyte (ucast (x AND 0xff)) (m_rawbyte (ucast (drop_bit 8 x AND 0xff))
       (m_rawbyte (ucast (drop_bit 16 x AND 0xff)) (m_rawbyte (ucast (drop_bit 24 x AND 0xff)) m)))"

definition put_int :: "i32 \<Rightarrow> marshall \<Rightarrow> marshall" where
  "put_int x = put_uint x"

definition put_string :: "string \<Rightarrow> marshall \<Rightarrow> marshall" where
  "put_string s m = m_rawbytes (bytes_of s) (put_uint (word_of_nat (length s)) m)"

definition put_ull :: "u64 \<Rightarrow> marshall \<Rightarrow> marshall" where
  "put_ull x m = put_uint (ucast x) (put_uint (ucast (drop_bit 32 x)) m)"

definition put_vector :: "('a \<Rightarrow> marshall \<Rightarrow> marshall) \<Rightarrow> 'a list \<Rightarrow> marshall \<Rightarrow> marshall" where
  "put_vector p v m = fold p v (put_uint (word_of_nat (length v)) m)"

definition put_map ::
  "('a \<Rightarrow> marshall \<Rightarrow> marshall) \<Rightarrow> ('b \<Rightarrow> marshall \<Rightarrow> marshall) \<Rightarrow> ('a, 'b) smap \<Rightarrow> marshall \<Rightarrow> marshall" where
  "put_map pa pb d m = fold (\<lambda>(a, b) m. pb b (pa a m)) d (put_uint (word_of_nat (length d)) m)"

text \<open>
  \<^verbatim>\<open>pack\<close> takes an \<^verbatim>\<open>int\<close>, so its \<^verbatim>\<open>>>\<close> is arithmetic; the mask keeps the same bits.
\<close>

definition m_pack :: "i32 \<Rightarrow> marshall \<Rightarrow> marshall" where
  "m_pack x m =
     m_rawbyte (ucast (x AND 0xff)) (m_rawbyte (ucast (signed_drop_bit 8 x AND 0xff))
       (m_rawbyte (ucast (signed_drop_bit 16 x AND 0xff)) (m_rawbyte (ucast (signed_drop_bit 24 x AND 0xff)) m)))"

record req_header =
  rq_xid :: i32
  rq_proc :: i32
  rq_clt_nonce :: u32
  rq_srv_nonce :: u32
  rq_xid_rep :: i32

record reply_header =
  rp_xid :: i32
  rp_ret :: i32

definition pack_req_header :: "req_header \<Rightarrow> marshall \<Rightarrow> marshall" where
  "pack_req_header h m =
     (let saved_sz = m_ind m;
          m1 = m_pack (rq_xid_rep h) (m_pack (rq_srv_nonce h) (m_pack (rq_clt_nonce h)
                 (m_pack (rq_proc h) (m_pack (rq_xid h) (m\<lparr>m_ind := 4\<rparr>)))))
      in m1\<lparr>m_ind := saved_sz\<rparr>)"

definition pack_reply_header :: "reply_header \<Rightarrow> marshall \<Rightarrow> marshall" where
  "pack_reply_header h m =
     (let saved_sz = m_ind m;
          m1 = m_pack (rp_ret h) (m_pack (rp_xid h) (m\<lparr>m_ind := 4\<rparr>))
      in m1\<lparr>m_ind := saved_sz\<rparr>)"

definition m_take_buf :: "marshall \<Rightarrow> (u8 option list \<times> nat) \<times> marshall" where
  "m_take_buf m = ((take (m_ind m) (m_buf m), m_ind m), m\<lparr>m_buf := [], m_ind := 0\<rparr>)"

section \<open>Reading: class unmarshall\<close>

record unmarshall =
  u_buf :: "u8 list"
  u_sz :: nat
  u_ind :: nat
  u_ok :: bool

type_synonym 'a getter = "unmarshall \<Rightarrow> ('a \<times> unmarshall) res"

definition unmarshall_new :: unmarshall where
  "unmarshall_new = \<lparr>u_buf = [], u_sz = 0, u_ind = 0, u_ok = False\<rparr>"

definition unmarshall_of_buf :: "u8 list \<Rightarrow> nat \<Rightarrow> unmarshall" where
  "unmarshall_of_buf b sz = \<lparr>u_buf = b, u_sz = sz, u_ind = 0, u_ok = True\<rparr>"

text \<open>
  \<^verbatim>\<open>take_content\<close> leaves the header bytes of the new buffer unwritten; \<open>junk\<close> is what the
  allocator had there.
\<close>

definition take_content :: "u8 list \<Rightarrow> u8 list \<Rightarrow> unmarshall \<Rightarrow> unmarshall" where
  "take_content junk s u =
     u\<lparr>u_sz := length s + RPC_HEADER_SZ, u_buf := junk @ s, u_ind := RPC_HEADER_SZ, u_ok := True\<rparr>"

definition u_take_buf :: "unmarshall \<Rightarrow> (u8 list \<times> nat) \<times> unmarshall" where
  "u_take_buf u = ((u_buf u, u_sz u), u\<lparr>u_sz := 0, u_ind := 0, u_buf := []\<rparr>)"

definition take_in :: "unmarshall \<Rightarrow> unmarshall \<Rightarrow> unmarshall \<times> unmarshall" where
  "take_in u another =
     (let ((b, sz), another') = u_take_buf another
      in (u\<lparr>u_buf := b, u_sz := sz, u_ind := RPC_HEADER_SZ, u_ok := (sz \<ge> RPC_HEADER_SZ)\<rparr>, another'))"

definition okdone :: "unmarshall \<Rightarrow> bool" where
  "okdone u \<longleftrightarrow> u_ok u \<and> u_ind u = u_sz u"

text \<open>
  \<^verbatim>\<open>rawbyte\<close> returns a \<^verbatim>\<open>char\<close> converted to \<^verbatim>\<open>unsigned int\<close>, so the byte is sign-extended.
\<close>

definition u_rawbyte :: "unmarshall \<Rightarrow> u32 \<times> unmarshall" where
  "u_rawbyte u =
     (if u_ind u \<ge> u_sz u then (0, u\<lparr>u_ok := False\<rparr>)
      else (scast (u_buf u ! u_ind u), u\<lparr>u_ind := u_ind u + 1\<rparr>))"

definition get_bool :: "unmarshall \<Rightarrow> bool \<times> unmarshall" where
  "get_bool u = (let (b, u) = u_rawbyte u in (b \<noteq> 0, u))"

definition get_uchar :: "unmarshall \<Rightarrow> u8 \<times> unmarshall" where
  "get_uchar u = (let (b, u) = u_rawbyte u in (ucast b, u))"

definition get_char :: "unmarshall \<Rightarrow> char \<times> unmarshall" where
  "get_char u = (let (b, u) = u_rawbyte u in (char_of_byte (ucast b), u))"

definition get_ushort :: "unmarshall \<Rightarrow> u16 \<times> unmarshall" where
  "get_ushort u =
     (let (b1, u) = u_rawbyte u; (b0, u) = u_rawbyte u
      in (ucast (push_bit 8 (b1 AND 0xff) OR (b0 AND 0xff)), u))"

definition get_short :: "unmarshall \<Rightarrow> u16 \<times> unmarshall" where
  "get_short u =
     (let (b1, u) = u_rawbyte u; (b0, u) = u_rawbyte u
      in (ucast (push_bit 8 (b1 AND 0xff) OR (b0 AND 0xff)), u))"

definition get_uint :: "unmarshall \<Rightarrow> u32 \<times> unmarshall" where
  "get_uint u =
     (let (b3, u) = u_rawbyte u; (b2, u) = u_rawbyte u; (b1, u) = u_rawbyte u; (b0, u) = u_rawbyte u
      in (push_bit 24 (b3 AND 0xff) OR push_bit 16 (b2 AND 0xff) OR push_bit 8 (b1 AND 0xff) OR (b0 AND 0xff), u))"

definition get_int :: "unmarshall \<Rightarrow> i32 \<times> unmarshall" where
  "get_int u =
     (let (b3, u) = u_rawbyte u; (b2, u) = u_rawbyte u; (b1, u) = u_rawbyte u; (b0, u) = u_rawbyte u
      in (push_bit 24 (b3 AND 0xff) OR push_bit 16 (b2 AND 0xff) OR push_bit 8 (b1 AND 0xff) OR (b0 AND 0xff), u))"

definition get_ull :: "unmarshall \<Rightarrow> u64 \<times> unmarshall" where
  "get_ull u =
     (let (h, u) = get_uint u; (l, u) = get_uint u
      in (ucast l OR push_bit 32 (ucast h), u))"

text \<open>
  \<^verbatim>\<open>rawbytes\<close> compares \<^verbatim>\<open>_ind+n\<close> with \<^verbatim>\<open>_sz\<close> in \<^verbatim>\<open>unsigned int\<close> arithmetic, which wraps; when
  the test passes it copies \<open>n\<close> bytes whether or not the buffer holds them.  A failed read
  leaves the (freshly constructed) target string empty.
\<close>

definition u_rawbytes :: "u32 \<Rightarrow> string getter" where
  "u_rawbytes n u =
     (if word_of_nat (u_ind u) + n > (word_of_nat (u_sz u) :: u32) then Inr ([], u\<lparr>u_ok := False\<rparr>)
      else if u_ind u + unat n > length (u_buf u) then Inl Out_Of_Bounds
      else Inr (string_of (take (unat n) (drop (u_ind u) (u_buf u))), u\<lparr>u_ind := u_ind u + unat n\<rparr>))"

definition get_string :: "string getter" where
  "get_string u = (let (sz, u) = get_uint u in if u_ok u then u_rawbytes sz u else Inr ([], u))"

fun get_times :: "'a getter \<Rightarrow> nat \<Rightarrow> 'a list getter" where
  "get_times g 0 u = Inr ([], u)"
| "get_times g (Suc n) u =
     res_bind (g u) (\<lambda>(z, u). res_bind (get_times g n u) (\<lambda>(zs, u). Inr (z # zs, u)))"

definition get_vector :: "'a getter \<Rightarrow> 'a list getter" where
  "get_vector g u = (let (n, u) = get_uint u in get_times g (unat n) u)"

definition get_pair :: "'a getter \<Rightarrow> 'b getter \<Rightarrow> ('a \<times> 'b) getter" where
  "get_pair ga gb u = res_bind (ga u) (\<lambda>(a, u). res_bind (gb u) (\<lambda>(b, u). Inr ((a, b), u)))"

definition get_map :: "'a::linorder getter \<Rightarrow> 'b getter \<Rightarrow> ('a, 'b) smap getter" where
  "get_map ga gb u =
     (let (n, u) = get_uint u
      in res_bind (get_times (get_pair ga gb) (unat n) u)
           (\<lambda>(kvs, u). Inr (fold (\<lambda>(a, b) d. smap_set a b d) kvs [], u)))"

definition u_unpack :: "unmarshall \<Rightarrow> i32 \<times> unmarshall" where
  "u_unpack u =
     (let (b3, u) = u_rawbyte u; (b2, u) = u_rawbyte u; (b1, u) = u_rawbyte u; (b0, u) = u_rawbyte u
      in (push_bit 24 (b3 AND 0xff) OR push_bit 16 (b2 AND 0xff) OR push_bit 8 (b1 AND 0xff) OR (b0 AND 0xff), u))"

definition unpack_req_header :: "unmarshall \<Rightarrow> req_header \<times> unmarshall" where
  "unpack_req_header u =
     (let u = u\<lparr>u_ind := 4\<rparr>;
          (xid, u) = u_unpack u; (proc, u) = u_unpack u; (clt, u) = u_unpack u;
          (srv, u) = u_unpack u; (rep, u) = u_unpack u
      in (\<lparr>rq_xid = xid, rq_proc = proc, rq_clt_nonce = clt, rq_srv_nonce = srv, rq_xid_rep = rep\<rparr>,
          u\<lparr>u_ind := RPC_HEADER_SZ\<rparr>))"

definition unpack_reply_header :: "unmarshall \<Rightarrow> reply_header \<times> unmarshall" where
  "unpack_reply_header u =
     (let u = u\<lparr>u_ind := 4\<rparr>; (xid, u) = u_unpack u; (ret, u) = u_unpack u
      in (\<lparr>rp_xid = xid, rp_ret = ret\<rparr>, u\<lparr>u_ind := RPC_HEADER_SZ\<rparr>))"

section \<open>Buffers and cursors as byte sequences\<close>

text \<open>
  \<open>holds m hdr bs\<close>: the first 24 cells of the buffer are \<open>hdr\<close>, then come the written bytes
  \<open>bs\<close> up to the write position, and the buffer really has the capacity it claims.
  \<open>reads u bs\<close>: the cursor has not failed and the bytes left to read are \<open>bs\<close>.
\<close>

definition holds :: "marshall \<Rightarrow> u8 option list \<Rightarrow> u8 list \<Rightarrow> bool" where
  "holds m hdr bs \<longleftrightarrow>
     length hdr = 24 \<and> m_ind m = 24 + length bs \<and> m_capa m = length (m_buf m) \<and>
     (\<exists>rest. m_buf m = hdr @ map Some bs @ rest)"

definition capa_bound :: "marshall \<Rightarrow> bool" where
  "capa_bound m \<longleftrightarrow> m_capa m \<le> max DEFAULT_RPC_SZ (2 * m_ind m)"

definition reads :: "unmarshall \<Rightarrow> u8 list \<Rightarrow> bool" where
  "reads u bs \<longleftrightarrow>
     u_ok u \<and> u_sz u < 2 ^ 31 \<and> u_sz u = u_ind u + length bs \<and>
     (\<exists>pre post. u_buf u = pre @ bs @ post \<and> length pre = u_ind u)"

lemma readsI:
  "u_ok u \<Longrightarrow> u_sz u < 2 ^ 31 \<Longrightarrow> u_sz u = u_ind u + length bs \<Longrightarrow>
   u_buf u = pre @ bs @ post \<Longrightarrow> length pre = u_ind u \<Longrightarrow> reads u bs"
  by (auto simp: reads_def)

lemma holds_new: "holds marshall_new (replicate 24 None) []"
proof -
  have "replicate DEFAULT_RPC_SZ None = replicate 24 None @ replicate 1000 (None :: u8 option)"
    by (simp add: DEFAULT_RPC_SZ_def flip: replicate_add)
  then show ?thesis by (auto simp: holds_def marshall_new_def DEFAULT_RPC_SZ_def)
qed

lemma those_map_Some: "those (map Some bs) = Some bs"
  by (induction bs) auto

lemma holds_content: "holds m hdr bs \<Longrightarrow> get_content m = Some bs"
  by (auto simp: holds_def get_content_def those_map_Some)

lemma mem_realloc_grow: "length b \<le> n \<Longrightarrow> mem_realloc b n = b @ replicate (n - length b) None"
  by (simp add: mem_realloc_def)

lemma holds_realloc:
  "holds m hdr bs \<Longrightarrow> m_capa m \<le> n \<Longrightarrow> holds (m\<lparr>m_capa := n, m_buf := mem_realloc (m_buf m) n\<rparr>) hdr bs"
  by (auto simp: holds_def mem_realloc_grow)

lemma holds_room: "holds m hdr bs \<Longrightarrow> m_ind m \<le> m_capa m"
  by (auto simp: holds_def)

lemma holds_write:
  assumes "holds m hdr bs" and "m_ind m + length p \<le> m_capa m"
  shows "holds (m\<lparr>m_buf := take (m_ind m) (m_buf m) @ map Some p @ drop (m_ind m + length p) (m_buf m),
                  m_ind := m_ind m + length p\<rparr>) hdr (bs @ p)"
  using assms by (auto simp: holds_def)

lemma list_update_split: "i < length xs \<Longrightarrow> xs[i := y] = take i xs @ [y] @ drop (i + 1) xs"
  by (simp add: upd_conv_take_nth_drop)

lemma holds_rawbyte: "holds m hdr bs \<Longrightarrow> holds (m_rawbyte x m) hdr (bs @ [x])"
proof -
  assume h: "holds m hdr bs"
  define m1 where "m1 = (if m_ind m \<ge> m_capa m
      then m\<lparr>m_capa := m_capa m * 2, m_buf := mem_realloc (m_buf m) (m_capa m * 2)\<rparr> else m)"
  have h1: "holds m1 hdr bs" using h by (simp add: m1_def holds_realloc)
  have room: "m_ind m1 < m_capa m1" using h holds_room [OF h] by (auto simp: m1_def holds_def)
  then have "m_ind m1 < length (m_buf m1)" using h1 by (simp add: holds_def)
  then show ?thesis
    using holds_write [OF h1, of "[x]"] room
    by (simp add: m_rawbyte_def m1_def [symmetric] Let_def list_update_split)
qed

lemma holds_rawbytes: "holds m hdr bs \<Longrightarrow> holds (m_rawbytes p m) hdr (bs @ p)"
proof -
  assume h: "holds m hdr bs"
  define capa where "capa = (if m_capa m > length p then 2 * m_capa m else m_capa m + length p)"
  define m1 where "m1 = (if m_ind m + length p > m_capa m
      then m\<lparr>m_capa := capa, m_buf := mem_realloc (m_buf m) capa\<rparr> else m)"
  have h1: "holds m1 hdr bs" using h by (simp add: m1_def holds_realloc capa_def)
  have "m_ind m1 + length p \<le> m_capa m1"
    using holds_room [OF h] by (auto simp: m1_def capa_def)
  moreover have "m_rawbytes p m = m1\<lparr>
      m_buf := take (m_ind m1) (m_buf m1) @ map Some p @ drop (m_ind m1 + length p) (m_buf m1),
      m_ind := m_ind m1 + length p\<rparr>"
    by (simp add: m_rawbytes_def m1_def capa_def Let_def)
  ultimately show ?thesis using holds_write [OF h1] by simp
qed

lemma capa_bound_rawbyte: "holds m hdr bs \<Longrightarrow> capa_bound m \<Longrightarrow> capa_bound (m_rawbyte x m)"
  by (drule holds_room) (auto simp: capa_bound_def m_rawbyte_def Let_def)

lemma capa_bound_rawbytes: "holds m hdr bs \<Longrightarrow> capa_bound m \<Longrightarrow> capa_bound (m_rawbytes p m)"
  by (drule holds_room) (auto simp: capa_bound_def m_rawbytes_def Let_def)

text \<open>Reading never moves the cursor backwards; \<open>skip\<close> is the cursor after \<open>n\<close> more bytes.\<close>

definition skip :: "nat \<Rightarrow> unmarshall \<Rightarrow> unmarshall" where
  "skip n u = u\<lparr>u_ind := u_ind u + n\<rparr>"

lemma skip_skip [simp]: "skip n (skip k u) = skip (k + n) u"
  by (simp add: skip_def add.assoc)

lemma reads_skip: "reads u (xs @ bs) \<Longrightarrow> reads (skip (length xs) u) bs"
proof -
  assume r: "reads u (xs @ bs)"
  then obtain pre post where "u_buf u = (pre @ xs) @ bs @ post" "length pre = u_ind u"
    by (auto simp: reads_def)
  with r show ?thesis
    by (intro readsI [where pre = "pre @ xs" and post = post]) (auto simp: reads_def skip_def)
qed

lemma reads_byte:
  assumes "reads u (b # bs)"
  shows "u_rawbyte u = (scast b, skip 1 u)" and "reads (skip 1 u) bs"
proof -
  show "u_rawbyte u = (scast b, skip 1 u)"
    using assms by (auto simp: reads_def u_rawbyte_def nth_append skip_def)
  show "reads (skip 1 u) bs"
    using assms reads_skip [of u "[b]" bs] by simp
qed

lemma reads_length: "reads u bs \<Longrightarrow> length bs < 2 ^ 31"
  by (auto simp: reads_def)

lemma reads_ok: "reads u bs \<Longrightarrow> u_ok u"
  by (simp add: reads_def)

lemma reads_okdone: "reads u [] \<Longrightarrow> okdone u"
  by (auto simp: reads_def okdone_def)

lemma reads_take_content:
  "length junk = 24 \<Longrightarrow> length s + 24 < 2 ^ 31 \<Longrightarrow> reads (take_content junk s u) s"
  by (rule readsI [where pre = junk and post = "[]"]) (auto simp: take_content_def)

lemma reads_rawbytes:
  assumes "reads u (bytes_of s @ bs)"
  shows "u_rawbytes (word_of_nat (length s)) u = Inr (s, skip (length s) u)"
proof -
  from assms obtain pre post where buf: "u_buf u = (pre @ bytes_of s) @ bs @ post"
    and pre: "length pre = u_ind u"
    by (auto simp: reads_def)
  have len: "u_sz u = u_ind u + length s + length bs" "u_sz u < 2 ^ 31"
    using assms by (auto simp: reads_def)
  have n: "unat (word_of_nat (length s) :: u32) = length s"
    using len by (intro unat_of_nat_u32) linarith
  have "unat (word_of_nat (u_ind u) + word_of_nat (length s) :: u32) = u_ind u + length s"
    using len unat_of_nat_u32 [of "u_ind u + length s"] by simp
  moreover have "unat (word_of_nat (u_sz u) :: u32) = u_sz u"
    using len by (intro unat_of_nat_u32) simp
  ultimately have "\<not> word_of_nat (u_ind u) + word_of_nat (length s) > (word_of_nat (u_sz u) :: u32)"
    using len(1) by (simp only: not_less word_le_nat_alt)
  then show ?thesis
    using buf pre n by (simp add: u_rawbytes_def skip_def)
qed

section \<open>The contract between an \<open>operator<<\<close> and its \<open>operator>>\<close>\<close>

locale codec =
  fixes put :: "'a \<Rightarrow> marshall \<Rightarrow> marshall" and get :: "'a getter" and enc :: "'a \<Rightarrow> u8 list"
  assumes put_holds: "holds m hdr bs \<Longrightarrow> holds (put x m) hdr (bs @ enc x)"
    and put_capa: "holds m hdr bs \<Longrightarrow> capa_bound m \<Longrightarrow> capa_bound (put x m)"
    and get_reads: "reads u (enc x @ bs) \<Longrightarrow> get u = Inr (x, skip (length (enc x)) u)"
    and enc_nonempty: "enc x \<noteq> []"
begin

lemma roundtrip:
  assumes "length junk = 24" and "length (enc x) + 24 < 2 ^ 31"
  shows "get_content (put x marshall_new) = Some (enc x)"
    and "\<exists>u'. get (take_content junk (enc x) u) = Inr (x, u') \<and> okdone u'"
proof -
  from put_holds [OF holds_new, of x] show "get_content (put x marshall_new) = Some (enc x)"
    by (simp add: holds_content)
  have r: "reads (take_content junk (enc x) u) (enc x @ [])"
    using reads_take_content [OF assms, of u] by simp
  from get_reads [OF r] reads_okdone [OF reads_skip [OF r]]
  show "\<exists>u'. get (take_content junk (enc x) u) = Inr (x, u') \<and> okdone u'" by blast
qed

lemma fold_put_holds:
  "holds m hdr bs \<Longrightarrow> holds (fold put xs m) hdr (bs @ concat (map enc xs))"
proof (induction xs arbitrary: m bs)
  case (Cons x xs)
  from Cons.IH [OF put_holds [OF Cons.prems, of x]] show ?case by simp
qed simp

lemma fold_put_capa:
  "holds m hdr bs \<Longrightarrow> capa_bound m \<Longrightarrow> capa_bound (fold put xs m)"
  by (induction xs arbitrary: m bs) (auto intro: put_capa dest: put_holds)

lemma get_times_reads:
  "reads u (concat (map enc xs) @ bs) \<Longrightarrow>
   get_times get (length xs) u = Inr (xs, skip (length (concat (map enc xs))) u)"
proof (induction xs arbitrary: u)
  case Nil
  then show ?case by (simp add: skip_def)
next
  case (Cons x xs)
  then have r: "reads u (enc x @ concat (map enc xs) @ bs)" by simp
  show ?case
    using get_reads [OF r] Cons.IH [OF reads_skip [OF r]] by simp
qed

lemma length_le_enc: "length xs \<le> length (concat (map enc xs))"
proof (induction xs)
  case (Cons x xs)
  then show ?case using enc_nonempty [of x] by (cases "enc x") auto
qed simp

end

definition enc_uint :: "u32 \<Rightarrow> u8 list" where
  "enc_uint x = [ucast (drop_bit 24 x), ucast (drop_bit 16 x), ucast (drop_bit 8 x), ucast x]"

lemma length_enc_uint [simp]: "length (enc_uint x) = 4"
  by (simp add: enc_uint_def)

lemma bytes4_reads:
  assumes "reads u (enc_uint x @ bs)"
  shows "(let (b3, u) = u_rawbyte u; (b2, u) = u_rawbyte u; (b1, u) = u_rawbyte u; (b0, u) = u_rawbyte u
      in (push_bit 24 (b3 AND 0xff) OR push_bit 16 (b2 AND 0xff) OR push_bit 8 (b1 AND 0xff) OR (b0 AND 0xff), u))
      = (x, skip 4 u)"
proof -
  have r3: "reads u (ucast (drop_bit 24 x) # ucast (drop_bit 16 x) # ucast (drop_bit 8 x) # ucast x # bs)"
    using assms by (simp add: enc_uint_def)
  note r2 = reads_byte [OF r3] and r1 = reads_byte [OF reads_byte(2) [OF r3]]
  note r0 = reads_byte [OF r1(2)]
  note r = reads_byte [OF r0(2)]
  have "skip (Suc (Suc (Suc (Suc 0)))) u = skip 4 u"
    by (simp add: eval_nat_numeral)
  then show ?thesis
    using r2(1) r1(1) r0(1) r(1) by (simp add: byte_simps u32_of_bytes)
qed

lemma put_uint_holds: "holds m hdr bs \<Longrightarrow> holds (put_uint x m) hdr (bs @ enc_uint x)"
  unfolding put_uint_def enc_uint_def
  by (drule holds_rawbyte, drule holds_rawbyte, drule holds_rawbyte, drule holds_rawbyte)
     (simp add: byte_simps)

lemma put_uint_capa: "holds m hdr bs \<Longrightarrow> capa_bound m \<Longrightarrow> capa_bound (put_uint x m)"
  unfolding put_uint_def by (blast intro: capa_bound_rawbyte holds_rawbyte)

section \<open>The base types satisfy the contract\<close>

interpretation bool_codec: codec put_bool "\<lambda>u. Inr (get_bool u)" "\<lambda>x. [if x then 1 else 0]"
proof unfold_locales
  fix u x bs
  assume "reads u ([if x then 1 else 0] @ bs)"
  then show "Inr (get_bool u) = Inr (x, skip (length [if x then 1 else (0 :: u8)]) u)"
    by (cases x) (auto simp: get_bool_def dest: reads_byte)
qed (auto simp: put_bool_def intro: holds_rawbyte capa_bound_rawbyte)

interpretation uchar_codec: codec put_uchar "\<lambda>u. Inr (get_uchar u)" "\<lambda>x. [x]"
proof unfold_locales
  fix u x bs
  assume "reads u ([x] @ bs)"
  then show "Inr (get_uchar u) = Inr (x, skip (length [x]) u)"
    by (auto simp: get_uchar_def byte_simps dest: reads_byte)
qed (auto simp: put_uchar_def intro: holds_rawbyte capa_bound_rawbyte)

interpretation char_codec: codec put_char "\<lambda>u. Inr (get_char u)" "\<lambda>x. [byte_of_char x]"
proof unfold_locales
  fix u x bs
  assume "reads u ([byte_of_char x] @ bs)"
  then show "Inr (get_char u) = Inr (x, skip (length [byte_of_char x]) u)"
    by (auto simp: get_char_def byte_simps dest: reads_byte)
qed (auto simp: put_char_def put_uchar_def intro: holds_rawbyte capa_bound_rawbyte)

definition enc_ushort :: "u16 \<Rightarrow> u8 list" where
  "enc_ushort x = [ucast (drop_bit 8 x), ucast x]"

lemma bytes2_reads:
  assumes "reads u (enc_ushort x @ bs)"
  shows "(let (b1, u) = u_rawbyte u; (b0, u) = u_rawbyte u
      in (ucast (push_bit 8 (b1 AND 0xff) OR (b0 AND 0xff)), u)) = (x, skip 2 u)"
proof -
  have r1: "reads u (ucast (drop_bit 8 x) # ucast x # bs)"
    using assms by (simp add: enc_ushort_def)
  note r0 = reads_byte [OF reads_byte(2) [OF r1]]
  have "skip (Suc (Suc 0)) u = skip 2 u" by (simp add: eval_nat_numeral)
  then show ?thesis
    using reads_byte(1) [OF r1] r0(1) by (simp add: byte_simps u16_of_bytes)
qed

lemma put_ushort_holds: "holds m hdr bs \<Longrightarrow> holds (put_ushort x m) hdr (bs @ enc_ushort x)"
  unfolding put_ushort_def enc_ushort_def
  by (drule holds_rawbyte, drule holds_rawbyte) (simp add: byte_simps)

interpretation ushort_codec: codec put_ushort "\<lambda>u. Inr (get_ushort u)" enc_ushort
proof unfold_locales
  fix m hdr bs x
  assume "holds m hdr bs"
  then show "holds (put_ushort x m) hdr (bs @ enc_ushort x)" by (rule put_ushort_holds)
  assume "capa_bound m"
  with \<open>holds m hdr bs\<close> show "capa_bound (put_ushort x m)"
    unfolding put_ushort_def by (blast intro: capa_bound_rawbyte holds_rawbyte)
next
  fix u x bs
  assume "reads u (enc_ushort x @ bs)"
  from bytes2_reads [OF this] show "Inr (get_ushort u) = Inr (x, skip (length (enc_ushort x)) u)"
    by (simp add: get_ushort_def enc_ushort_def eval_nat_numeral)
qed (simp add: enc_ushort_def)

interpretation short_codec: codec put_short "\<lambda>u. Inr (get_short u)" enc_ushort
proof unfold_locales
  fix m hdr bs x
  assume "holds m hdr bs"
  then show "holds (put_short x m) hdr (bs @ enc_ushort x)"
    unfolding put_short_def by (rule ushort_codec.put_holds)
  assume "capa_bound m"
  with \<open>holds m hdr bs\<close> show "capa_bound (put_short x m)"
    unfolding put_short_def by (rule ushort_codec.put_capa)
next
  fix u x bs
  assume "reads u (enc_ushort x @ bs)"
  from bytes2_reads [OF this] show "Inr (get_short u) = Inr (x, skip (length (enc_ushort x)) u)"
    by (simp add: get_short_def enc_ushort_def eval_nat_numeral)
qed (simp add: enc_ushort_def)

interpretation uint_codec: codec put_uint "\<lambda>u. Inr (get_uint u)" enc_uint
proof unfold_locales
  fix u x bs
  assume "reads u (enc_uint x @ bs)"
  from bytes4_reads [OF this] show "Inr (get_uint u) = Inr (x, skip (length (enc_uint x)) u)"
    by (simp add: get_uint_def)
qed (auto simp: enc_uint_def intro: put_uint_holds [unfolded enc_uint_def] put_uint_capa)

interpretation int_codec: codec put_int "\<lambda>u. Inr (get_int u)" enc_uint
proof unfold_locales
  fix u x bs
  assume "reads u (enc_uint x @ bs)"
  from bytes4_reads [OF this] show "Inr (get_int u) = Inr (x, skip (length (enc_uint x)) u)"
    by (simp add: get_int_def)
qed (auto simp: put_int_def enc_uint_def intro: put_uint_holds [unfolded enc_uint_def] put_uint_capa)

end
