(* ===== verification/Wire.thy ===== *)
theory Wire
  imports Marshall
begin

text \<open>
  Composite values on the wire: 64-bit integers, strings, vectors, pairs and maps satisfy the
  contract of \<^theory_text>\<open>codec\<close>, and the request and reply headers that every message starts with can
  be read back.
\<close>

section \<open>64-bit integers and strings\<close>

definition enc_ull :: "u64 \<Rightarrow> u8 list" where
  "enc_ull x = enc_uint (ucast (drop_bit 32 x)) @ enc_uint (ucast x)"

lemma length_enc_ull [simp]: "length (enc_ull x) = 8"
  by (simp add: enc_ull_def)

interpretation ull_codec: codec put_ull "\<lambda>u. Inr (get_ull u)" enc_ull
proof unfold_locales
  fix m hdr bs x
  assume h: "holds m hdr bs"
  show "holds (put_ull x m) hdr (bs @ enc_ull x)"
    using put_uint_holds [OF put_uint_holds [OF h]] by (simp add: put_ull_def enc_ull_def)
  assume "capa_bound m"
  with h show "capa_bound (put_ull x m)"
    unfolding put_ull_def by (blast intro: put_uint_capa put_uint_holds)
next
  fix u x bs
  assume "reads u (enc_ull x @ bs)"
  then have r: "reads u (enc_uint (ucast (drop_bit 32 x)) @ enc_uint (ucast x) @ bs)"
    by (simp add: enc_ull_def)
  from uint_codec.get_reads [OF r] uint_codec.get_reads [OF reads_skip [OF r]]
  show "Inr (get_ull u) = Inr (x, skip (length (enc_ull x)) u)"
    by (simp add: get_ull_def u64_of_halves)
qed (simp add: enc_ull_def enc_uint_def)

definition enc_string :: "string \<Rightarrow> u8 list" where
  "enc_string s = enc_uint (word_of_nat (length s)) @ bytes_of s"

lemma length_enc_string [simp]: "length (enc_string s) = 4 + length s"
  by (simp add: enc_string_def)

interpretation string_codec: codec put_string get_string enc_string
proof unfold_locales
  fix m hdr bs x
  assume h: "holds m hdr bs"
  show "holds (put_string x m) hdr (bs @ enc_string x)"
    using holds_rawbytes [OF put_uint_holds [OF h]] by (simp add: put_string_def enc_string_def)
  assume "capa_bound m"
  with h show "capa_bound (put_string x m)"
    unfolding put_string_def by (blast intro: capa_bound_rawbytes put_uint_capa put_uint_holds)
next
  fix u x bs
  assume "reads u (enc_string x @ bs)"
  then have r: "reads u (enc_uint (word_of_nat (length x)) @ bytes_of x @ bs)"
    by (simp add: enc_string_def)
  from uint_codec.get_reads [OF r] reads_rawbytes [OF reads_skip [OF r]] reads_ok [OF reads_skip [OF r]]
  show "get_string u = Inr (x, skip (length (enc_string x)) u)"
    by (simp add: get_string_def)
qed (simp add: enc_string_def enc_uint_def)

section \<open>Vectors, pairs and maps\<close>

definition enc_vector :: "('a \<Rightarrow> u8 list) \<Rightarrow> 'a list \<Rightarrow> u8 list" where
  "enc_vector enc v = enc_uint (word_of_nat (length v)) @ concat (map enc v)"

context codec
begin

lemma counted_reads:
  assumes "reads u (enc_vector enc xs @ bs)"
  shows "get_uint u = (word_of_nat (length xs), skip 4 u)"
    and "get_times get (unat (word_of_nat (length xs) :: u32)) (skip 4 u) =
         Inr (xs, skip (length (enc_vector enc xs)) u)"
proof -
  have r: "reads u (enc_uint (word_of_nat (length xs)) @ concat (map enc xs) @ bs)"
    using assms by (simp add: enc_vector_def)
  show "get_uint u = (word_of_nat (length xs), skip 4 u)"
    using uint_codec.get_reads [OF r] by simp
  have "length xs < 2 ^ 31"
    using reads_length [OF r] length_le_enc [of xs] by simp
  then have "unat (word_of_nat (length xs) :: u32) = length xs" by simp
  then show "get_times get (unat (word_of_nat (length xs) :: u32)) (skip 4 u) =
      Inr (xs, skip (length (enc_vector enc xs)) u)"
    using get_times_reads [OF reads_skip [OF r]] by (simp add: enc_vector_def)
qed

lemma vector_codec: "codec (put_vector put) (get_vector get) (enc_vector enc)"
proof unfold_locales
  fix m hdr bs xs
  assume h: "holds m hdr bs"
  show "holds (put_vector put xs m) hdr (bs @ enc_vector enc xs)"
    using fold_put_holds [OF put_uint_holds [OF h]] by (simp add: put_vector_def enc_vector_def)
  assume "capa_bound m"
  with h show "capa_bound (put_vector put xs m)"
    unfolding put_vector_def by (blast intro: fold_put_capa put_uint_capa put_uint_holds)
next
  fix u xs bs
  assume "reads u (enc_vector enc xs @ bs)"
  from counted_reads [OF this] show "get_vector get u = Inr (xs, skip (length (enc_vector enc xs)) u)"
    by (simp add: get_vector_def)
qed (simp add: enc_vector_def enc_uint_def)

end

locale codec_pair =
  a: codec pa ga ea + b: codec pb gb eb
  for pa :: "'a \<Rightarrow> marshall \<Rightarrow> marshall" and ga ea
    and pb :: "'b \<Rightarrow> marshall \<Rightarrow> marshall" and gb eb
begin

lemma pair_codec: "codec (\<lambda>(a, b) m. pb b (pa a m)) (get_pair ga gb) (\<lambda>(a, b). ea a @ eb b)"
proof (unfold_locales, goal_cases)
  case (1 m hdr bs x)
  then show ?case
    using b.put_holds [OF a.put_holds [OF 1]] by (cases x) simp
next
  case (2 m hdr bs x)
  then show ?case
    by (cases x) (simp, blast intro: b.put_capa a.put_capa a.put_holds)
next
  case (3 u x bs)
  obtain y z where x: "x = (y, z)" by (cases x)
  with 3 have r: "reads u (ea y @ eb z @ bs)" by simp
  then show ?case
    using a.get_reads [OF r] b.get_reads [OF reads_skip [OF r]] by (simp add: get_pair_def x)
next
  case (4 x)
  then show ?case using a.enc_nonempty by (cases x) simp
qed

end

locale codec_map = codec_pair pa ga ea pb gb eb
  for pa :: "'a::linorder \<Rightarrow> marshall \<Rightarrow> marshall" and ga ea
    and pb :: "'b \<Rightarrow> marshall \<Rightarrow> marshall" and gb eb
begin

lemma fold_set_sorted:
  "sorted_wrt (<) (map fst (d @ kvs)) \<Longrightarrow> fold (\<lambda>(a, b) d. smap_set a b d) kvs d = d @ (kvs :: ('a, 'b) smap)"
proof (induction kvs arbitrary: d)
  case (Cons kv kvs)
  obtain k v where kv: "kv = (k, v)" by (cases kv)
  have "smap_set k v d = d @ [(k, v)]"
    using Cons.prems unfolding kv by (induction d) (auto simp: sorted_wrt_append)
  then show ?case using Cons.IH [of "d @ [(k, v)]"] Cons.prems by (simp add: kv)
qed simp

lemma map_reads:
  assumes "reads u (enc_vector (\<lambda>(a, b). ea a @ eb b) d @ bs)" and "smap_ok d"
  shows "get_map ga gb u = Inr (d, skip (length (enc_vector (\<lambda>(a, b). ea a @ eb b) d)) u)"
  using codec.counted_reads [OF pair_codec assms(1)] fold_set_sorted [of "[]" d] assms(2)
  by (simp add: get_map_def smap_ok_def)

lemma map_holds:
  assumes "holds m hdr bs"
  shows "holds (put_map pa pb d m) hdr (bs @ enc_vector (\<lambda>(a, b). ea a @ eb b) d)"
  using codec.put_holds [OF codec.vector_codec [OF pair_codec] assms]
  by (simp add: put_map_def put_vector_def)

end

interpretation string_map: codec_map put_string get_string enc_string put_string get_string enc_string ..

interpretation string_ull_map: codec_map put_string get_string enc_string put_ull "\<lambda>u. Inr (get_ull u)" enc_ull ..

section \<open>Message headers\<close>

text \<open>
  \<open>cells m pre post\<close>: the write position of \<open>m\<close> is just after \<open>pre\<close>; writing overwrites the
  cells of \<open>post\<close>.
\<close>

definition cells :: "marshall \<Rightarrow> u8 option list \<Rightarrow> u8 option list \<Rightarrow> bool" where
  "cells m pre post \<longleftrightarrow> m_buf m = pre @ post \<and> m_ind m = length pre \<and> m_capa m = length (m_buf m)"

lemma cells_rawbyte: "cells m pre (c # post) \<Longrightarrow> cells (m_rawbyte x m) (pre @ [Some x]) post"
  by (auto simp: cells_def m_rawbyte_def Let_def list_update_append)

lemma ucast_signed_drop_bit:
  "n + 8 \<le> 32 \<Longrightarrow> (ucast (take_bit 8 (signed_drop_bit n (x :: i32))) :: u8) = ucast (drop_bit n x)"
  by (rule bit_word_eqI) (auto simp: bit_simps min_def)

lemma cells_pack:
  assumes "cells m pre (c3 # c2 # c1 # c0 # post)"
  shows "cells (m_pack x m) (pre @ map Some (enc_uint x)) post"
  using cells_rawbyte [OF cells_rawbyte [OF cells_rawbyte [OF cells_rawbyte [OF assms]]]]
  by (simp add: m_pack_def enc_uint_def ucast_signed_drop_bit and_255)
     (simp add: byte_simps)

lemma u_unpack_reads: "reads u (enc_uint x @ bs) \<Longrightarrow> u_unpack u = (x, skip 4 u)"
  unfolding u_unpack_def by (rule bytes4_reads)

definition enc_req_header :: "req_header \<Rightarrow> u8 list" where
  "enc_req_header h = enc_uint (rq_xid h) @ enc_uint (rq_proc h) @ enc_uint (rq_clt_nonce h) @
     enc_uint (rq_srv_nonce h) @ enc_uint (rq_xid_rep h)"

definition enc_reply_header :: "reply_header \<Rightarrow> u8 list" where
  "enc_reply_header h = enc_uint (rp_xid h) @ enc_uint (rp_ret h)"

lemma length_24: "length xs = 24 \<Longrightarrow> \<exists>a b c d e f g h i j k l m n p q r s t u v w x y.
    xs = [a, b, c, d, e, f, g, h, i, j, k, l, m, n, p, q, r, s, t, u, v, w, x, y]"
  by (auto simp: length_Suc_conv numeral_eq_Suc)

lemma holds_pack_req:
  assumes "holds m hdr bs"
  shows "holds (pack_req_header h m) (take 4 hdr @ map Some (enc_req_header h)) bs"
proof -
  obtain a b c d e f g i j k l n p q r s t u v w x y z z' where
    hdr: "hdr = [a, b, c, d, e, f, g, i, j, k, l, n, p, q, r, s, t, u, v, w, x, y, z, z']"
    using assms length_24 [of hdr] by (auto simp: holds_def)
  obtain rest where rest: "m_buf m = hdr @ map Some bs @ rest" using assms by (auto simp: holds_def)
  have "cells (m\<lparr>m_ind := 4\<rparr>) (take 4 hdr) (drop 4 hdr @ map Some bs @ rest)"
    using assms rest by (simp add: cells_def holds_def hdr)
  then have c: "cells (m\<lparr>m_ind := 4\<rparr>) (take 4 hdr)
      (e # f # g # i # j # k # l # n # p # q # r # s # t # u # v # w # x # y # z # z' # map Some bs @ rest)"
    by (simp add: hdr)
  from cells_pack [OF cells_pack [OF cells_pack [OF cells_pack [OF cells_pack [OF c]]]]]
  show ?thesis
    using assms rest
    by (auto simp: cells_def holds_def pack_req_header_def enc_req_header_def Let_def hdr)
qed

lemma holds_pack_reply:
  assumes "holds m hdr bs"
  shows "holds (pack_reply_header h m) (take 4 hdr @ map Some (enc_reply_header h) @ drop 12 hdr) bs"
proof -
  obtain a b c d e f g i j k l n p q r s t u v w x y z z' where
    hdr: "hdr = [a, b, c, d, e, f, g, i, j, k, l, n, p, q, r, s, t, u, v, w, x, y, z, z']"
    using assms length_24 [of hdr] by (auto simp: holds_def)
  obtain rest where rest: "m_buf m = hdr @ map Some bs @ rest" using assms by (auto simp: holds_def)
  have c: "cells (m\<lparr>m_ind := 4\<rparr>) (take 4 hdr)
      (e # f # g # i # j # k # l # n # drop 12 hdr @ map Some bs @ rest)"
    using assms rest by (simp add: cells_def holds_def hdr)
  from cells_pack [OF cells_pack [OF c]]
  show ?thesis
    using assms rest
    by (auto simp: cells_def holds_def pack_reply_header_def enc_reply_header_def Let_def hdr)
qed


lemma reads_of_buf:
  "length pre = k \<Longrightarrow> k + length bs < 2 ^ 31 \<Longrightarrow>
   reads ((unmarshall_of_buf (pre @ bs) (k + length bs))\<lparr>u_ind := k\<rparr>) bs"
  by (rule readsI [where pre = pre and post = "[]"]) (simp_all add: unmarshall_of_buf_def)

lemma unpack_req_reads:
  assumes "reads (u\<lparr>u_ind := 4\<rparr>) (enc_req_header h @ bs)"
  shows "unpack_req_header u = (h, u\<lparr>u_ind := 24\<rparr>)" and "reads (u\<lparr>u_ind := 24\<rparr>) bs"
proof -
  have r: "reads (u\<lparr>u_ind := 4\<rparr>) (enc_uint (rq_xid h) @ enc_uint (rq_proc h) @ enc_uint (rq_clt_nonce h) @
      enc_uint (rq_srv_nonce h) @ enc_uint (rq_xid_rep h) @ bs)"
    using assms by (simp add: enc_req_header_def)
  note r1 = reads_skip [OF r, unfolded length_enc_uint] note r2 = reads_skip [OF r1, unfolded length_enc_uint]
  note r3 = reads_skip [OF r2, unfolded length_enc_uint] note r4 = reads_skip [OF r3, unfolded length_enc_uint]
  show "unpack_req_header u = (h, u\<lparr>u_ind := 24\<rparr>)"
    using u_unpack_reads [OF r] u_unpack_reads [OF r1] u_unpack_reads [OF r2]
      u_unpack_reads [OF r3] u_unpack_reads [OF r4]
    by (simp add: unpack_req_header_def skip_def)
  show "reads (u\<lparr>u_ind := 24\<rparr>) bs"
    using reads_skip [OF r4] by (simp add: skip_def)
qed

lemma unpack_reply_reads:
  assumes "reads (u\<lparr>u_ind := 4\<rparr>) (enc_reply_header h @ pad @ bs)" and "length pad = 12"
  shows "unpack_reply_header u = (h, u\<lparr>u_ind := 24\<rparr>)" and "reads (u\<lparr>u_ind := 24\<rparr>) bs"
proof -
  have r: "reads (u\<lparr>u_ind := 4\<rparr>) (enc_uint (rp_xid h) @ enc_uint (rp_ret h) @ pad @ bs)"
    using assms by (simp add: enc_reply_header_def)
  note r1 = reads_skip [OF r, unfolded length_enc_uint]
  show "unpack_reply_header u = (h, u\<lparr>u_ind := 24\<rparr>)"
    using u_unpack_reads [OF r] u_unpack_reads [OF r1] by (simp add: unpack_reply_header_def skip_def)
  show "reads (u\<lparr>u_ind := 24\<rparr>) bs"
    using reads_skip [OF reads_skip [OF r1]] assms(2) by (simp add: skip_def)
qed

section \<open>Properties\<close>

text \<open>
  C31: the server reads back the request header the client packed, whatever the argument bytes
  \<open>bs\<close> are and whatever the channel puts in the four size bytes, and is then positioned on the
  arguments.
\<close>

theorem request_header_roundtrip:
  assumes "holds m hdr bs" and "length sz = 4" and "24 + length bs < 2 ^ 31"
  shows "\<exists>raw u. take (m_ind m) (m_buf (pack_req_header h m)) = take 4 hdr @ map Some raw \<and>
     unpack_req_header (unmarshall_of_buf (sz @ raw) (4 + length raw)) = (h, u) \<and> reads u bs"
proof -
  let ?u = "unmarshall_of_buf (sz @ enc_req_header h @ bs) (4 + length (enc_req_header h @ bs))"
  have "take (m_ind m) (m_buf (pack_req_header h m)) = take 4 hdr @ map Some (enc_req_header h @ bs)"
    using holds_pack_req [OF assms(1), of h] assms(1) by (auto simp: holds_def enc_req_header_def)
  moreover have "reads (?u\<lparr>u_ind := 4\<rparr>) (enc_req_header h @ bs)"
    using assms by (intro reads_of_buf) (simp_all add: enc_req_header_def)
  ultimately show ?thesis using unpack_req_reads [of ?u h bs] by blast
qed

theorem request_header_roundtrip_witness:
  "\<exists>raw u. take (m_ind marshall_new) (m_buf (pack_req_header
        \<lparr>rq_xid = 7, rq_proc = 2, rq_clt_nonce = 5, rq_srv_nonce = 9, rq_xid_rep = - 1\<rparr> marshall_new))
      = take 4 (replicate 24 None) @ map Some raw \<and>
     unpack_req_header (unmarshall_of_buf ([0, 0, 0, 24] @ raw) (4 + length raw)) =
       (\<lparr>rq_xid = 7, rq_proc = 2, rq_clt_nonce = 5, rq_srv_nonce = 9, rq_xid_rep = - 1\<rparr>, u) \<and> reads u []"
  by (rule request_header_roundtrip [OF holds_new]) simp_all

text \<open>
  A reply header is read back too, but \<^verbatim>\<open>pack_reply_header\<close> writes 8 of the 20 header bytes
  that follow the size: in a reply built from a fresh \<^verbatim>\<open>marshall\<close> the last 12 header cells are
  never written, so the peer receives whatever \<^verbatim>\<open>malloc\<close> left there (\<open>pad\<close>).
\<close>

theorem reply_header_roundtrip:
  assumes "length sz = 4" and "length pad = 12" and "28 + length s < 2 ^ 31"
  shows "take 20 (drop 4 (m_buf (pack_reply_header h (put_string s marshall_new)))) =
           map Some (enc_reply_header h) @ replicate 12 None \<and>
         (\<exists>u. unpack_reply_header (unmarshall_of_buf (sz @ enc_reply_header h @ pad @ enc_string s)
                  (4 + length (enc_reply_header h @ pad @ enc_string s))) = (h, u) \<and>
          get_string u = Inr (s, skip (length (enc_string s)) u))"
proof
  show "take 20 (drop 4 (m_buf (pack_reply_header h (put_string s marshall_new)))) =
      map Some (enc_reply_header h) @ replicate 12 None"
    using holds_pack_reply [OF string_codec.put_holds [OF holds_new], of h s]
    by (auto simp: holds_def enc_reply_header_def)
  let ?u = "unmarshall_of_buf (sz @ enc_reply_header h @ pad @ enc_string s)
      (4 + length (enc_reply_header h @ pad @ enc_string s))"
  have "reads (?u\<lparr>u_ind := 4\<rparr>) (enc_reply_header h @ pad @ enc_string s)"
    using assms by (intro reads_of_buf) (simp_all add: enc_reply_header_def)
  note r = unpack_reply_reads [OF this assms(2)]
  from r(1) string_codec.get_reads [of _ _ "[]"] r(2)
  show "\<exists>u. unpack_reply_header ?u = (h, u) \<and> get_string u = Inr (s, skip (length (enc_string s)) u)"
    by auto
qed

theorem reply_header_roundtrip_witness:
  "take 20 (drop 4 (m_buf (pack_reply_header \<lparr>rp_xid = 3, rp_ret = - 1\<rparr> (put_string ''ok'' marshall_new)))) =
     map Some (enc_reply_header \<lparr>rp_xid = 3, rp_ret = - 1\<rparr>) @ replicate 12 None"
  using reply_header_roundtrip [of "[0, 0, 0, 0]" "replicate 12 0" "''ok''" "\<lparr>rp_xid = 3, rp_ret = - 1\<rparr>"]
  by simp

text \<open>
  C32: a vector of strings (the view members, the argument of \<^verbatim>\<open>preparereq\<close>) written with
  \<^verbatim>\<open>operator<<\<close> into a fresh \<^verbatim>\<open>marshall\<close> is read back by \<^verbatim>\<open>operator>>\<close>, which consumes exactly the
  bytes written (\<^verbatim>\<open>okdone\<close>), and the buffer never grows past twice what was written.
\<close>

theorem string_vector_roundtrip:
  assumes "length junk = 24" and "length (enc_vector enc_string v) + 24 < 2 ^ 31"
  shows "\<exists>bs u'. get_content (put_vector put_string v marshall_new) = Some bs \<and>
     get_vector get_string (take_content junk bs u) = Inr (v, u') \<and> okdone u' \<and>
     m_capa (put_vector put_string v marshall_new) \<le> max 1024 (2 * (24 + length bs))"
proof -
  note c = string_codec.vector_codec
  have h: "holds (put_vector put_string v marshall_new) (replicate 24 None) (enc_vector enc_string v)"
    using codec.put_holds [OF c holds_new] by simp
  have "capa_bound (put_vector put_string v marshall_new)"
    by (rule codec.put_capa [OF c holds_new]) (simp add: capa_bound_def marshall_new_def)
  with h have "m_capa (put_vector put_string v marshall_new) \<le> max 1024 (2 * (24 + length (enc_vector enc_string v)))"
    by (simp add: capa_bound_def holds_def DEFAULT_RPC_SZ_def)
  with codec.roundtrip [OF c assms] show ?thesis by blast
qed

theorem string_vector_roundtrip_witness:
  "\<exists>bs u'. get_content (put_vector put_string [''a'', ''bc''] marshall_new) = Some bs \<and>
     get_vector get_string (take_content (replicate 24 0) bs unmarshall_new) = Inr ([''a'', ''bc''], u') \<and> okdone u' \<and>
     m_capa (put_vector put_string [''a'', ''bc''] marshall_new) \<le> max 1024 (2 * (24 + length bs))"
  by (rule string_vector_roundtrip) (simp_all add: enc_vector_def)

text \<open>
  A \<^verbatim>\<open>std::map\<close> from strings to 64-bit integers (the marshalled state of a replica) survives a
  round trip through the wire format entry by entry, in key order.
\<close>

theorem map_roundtrip:
  assumes "smap_ok d" and "length junk = 24"
    and "length (enc_vector (\<lambda>(a, b). enc_string a @ enc_ull b) d) + 24 < 2 ^ 31"
  shows "\<exists>bs u'. get_content (put_map put_string put_ull d marshall_new) = Some bs \<and>
     get_map get_string (\<lambda>u. Inr (get_ull u)) (take_content junk bs u) = Inr (d, u') \<and> okdone u'"
proof -
  let ?bs = "enc_vector (\<lambda>(a, b). enc_string a @ enc_ull b) d"
  have "get_content (put_map put_string put_ull d marshall_new) = Some ?bs"
    using string_ull_map.map_holds [OF holds_new, of d] by (simp add: holds_content)
  moreover have r: "reads (take_content junk ?bs u) (?bs @ [])"
    using reads_take_content [OF assms(2,3)] by simp
  ultimately show ?thesis
    using string_ull_map.map_reads [OF r assms(1)] reads_okdone [OF reads_skip [OF r]] by blast
qed

theorem map_roundtrip_witness:
  "\<exists>bs u'. get_content (put_map put_string put_ull [(''a'', 5), (''b'', 2)] marshall_new) = Some bs \<and>
     get_map get_string (\<lambda>u. Inr (get_ull u)) (take_content (replicate 24 0) bs unmarshall_new) =
       Inr ([(''a'', 5), (''b'', 2)], u') \<and> okdone u'"
  by (rule map_roundtrip) (simp_all add: smap_ok_def enc_vector_def)

lemma get_uint_cursor:
  "snd (get_uint u) = snd (u_rawbyte (snd (u_rawbyte (snd (u_rawbyte (snd (u_rawbyte u)))))))"
  by (simp add: get_uint_def Let_def split_beta)

lemma rawbytes_short:
  assumes "reads u bs" and "length bs < length s" and "length s < 2 ^ 31"
  shows "u_rawbytes (word_of_nat (length s)) u = Inr ([], u\<lparr>u_ok := False\<rparr>)"
proof -
  have len: "u_sz u = u_ind u + length bs" "u_sz u < 2 ^ 31" using assms(1) by (auto simp: reads_def)
  have "unat (word_of_nat (u_ind u) + word_of_nat (length s) :: u32) = u_ind u + length s"
    using len assms(3) by (simp add: unat_of_nat flip: of_nat_add)
  moreover have "unat (word_of_nat (u_sz u) :: u32) = u_sz u" using len(2) by simp
  ultimately have "word_of_nat (u_ind u) + word_of_nat (length s) > (word_of_nat (u_sz u) :: u32)"
    using len assms(2) by (simp only: word_less_nat_alt)
  then show ?thesis by (simp add: u_rawbytes_def)
qed

lemma get_uint_short: "u_sz u < u_ind u + 4 \<Longrightarrow> \<not> u_ok (snd (get_uint u))"
  by (auto simp: get_uint_cursor u_rawbyte_def)

text \<open>
  C37: a truncated string is rejected and never faults: reading any proper prefix of an encoded
  string gives the empty string and a cursor whose \<^verbatim>\<open>ok()\<close> is false.
\<close>

theorem truncated_string_rejected:
  assumes "reads u bs" and "enc_string s = bs @ b # lost" and "length s < 2 ^ 31"
  shows "\<exists>u'. get_string u = Inr ([], u') \<and> \<not> u_ok u'"
proof (cases "length bs < 4")
  case True
  then have "\<not> u_ok (snd (get_uint u))"
    using assms(1) by (intro get_uint_short) (simp add: reads_def)
  then show ?thesis by (auto simp: get_string_def split_beta)
next
  case False
  then have "take 4 bs = enc_uint (word_of_nat (length s))" and s: "bytes_of s = drop 4 bs @ b # lost"
    using arg_cong [OF assms(2), of "take 4"] arg_cong [OF assms(2), of "drop 4"]
    by (simp_all add: enc_string_def)
  then obtain rest where bs: "bs = enc_uint (word_of_nat (length s)) @ rest" and rest: "rest = drop 4 bs"
    by (metis append_take_drop_id)
  have "length rest < length s" using arg_cong [OF s, of length] rest by simp
  note r = assms(1) [unfolded bs]
  from rawbytes_short [OF reads_skip [OF r] \<open>length rest < length s\<close> assms(3)]
    uint_codec.get_reads [OF r] reads_ok [OF reads_skip [OF r]]
  show ?thesis by (simp add: get_string_def)
qed

theorem truncated_string_rejected_witness:
  "\<exists>u'. get_string (take_content (replicate 24 0) (enc_uint 2 @ [104]) unmarshall_new) = Inr ([], u') \<and> \<not> u_ok u'"
  by (rule truncated_string_rejected [where s = "''hi''" and b = "105" and lost = "[]"])
     (auto simp: enc_string_def byte_of_char_def of_char_def intro!: reads_take_content)

text \<open>
  C38: the length check of \<^verbatim>\<open>unmarshall::rawbytes\<close> adds in 32 bits, so it can be defeated: a message
  whose string length \<open>n\<close> makes \<^verbatim>\<open>_ind+n\<close> wrap passes the check and the copy runs past the end
  of the receive buffer.
\<close>

theorem string_length_check_wraps:
  assumes "length junk = 24" and "length tail + 28 < 2 ^ 31" and "2 ^ 32 - 28 \<le> unat n"
  shows "get_string (take_content junk (enc_uint n @ tail) u) = Inl Out_Of_Bounds"
proof -
  let ?u = "take_content junk (enc_uint n @ tail) u"
  have r: "reads ?u (enc_uint n @ tail)"
    using assms by (intro reads_take_content) simp_all
  have "unat (28 + n) = 28 + unat n - 2 ^ 32"
    using assms(3) unsigned_less [of n, where ?'a = nat] by (simp add: unat_word_ariths mod_if)
  moreover have "unat (word_of_nat (length tail + 28) :: u32) = length tail + 28"
    using assms(2) by (intro unat_of_nat_u32) simp
  moreover have "28 + unat n - 2 ^ 32 \<le> length tail + 28"
    using unsigned_less [of n, where ?'a = nat] by simp
  ultimately have "\<not> 28 + n > (word_of_nat (length tail + 28) :: u32)"
    by (simp only: not_less word_le_nat_alt)
  then have "u_rawbytes n (skip 4 ?u) = Inl Out_Of_Bounds"
    using assms by (simp add: u_rawbytes_def skip_def take_content_def algebra_simps)
  then show ?thesis
    using uint_codec.get_reads [OF r] reads_ok [OF reads_skip [OF r]] by (simp add: get_string_def)
qed

theorem string_length_check_wraps_witness:
  "get_string (take_content (replicate 24 0) (enc_uint 0xFFFFFFFF @ [1, 2]) unmarshall_new) = Inl Out_Of_Bounds"
  by (rule string_length_check_wraps) simp_all

end
