(* ===== verification/Rpc_Server.thy ===== *)
theory Rpc_Server
  imports Wire
begin

text \<open>
  The RPC server endpoint \<^verbatim>\<open>rpcs\<close> of \<^verbatim>\<open>rpc/rpc.cc\<close> and \<^verbatim>\<open>rpc/rpc.h\<close>: handler registration, the
  per-client window of replies behind at-most-once execution, and \<^verbatim>\<open>dispatch\<close>.  \<^verbatim>\<open>dispatch\<close> holds no
  lock while a handler runs, so it is modelled as the part before the handler
  (\<open>dispatch_enter\<close>) and the part after it (\<open>dispatch_leave\<close>), and as their composition.
\<close>

section \<open>Constants and state\<close>

definition rpc_bind :: u32 where "rpc_bind = 1"
definition timeout_failure :: i32 where "timeout_failure = - 1"
definition unmarshal_args_failure :: i32 where "unmarshal_args_failure = - 2"
definition unmarshal_reply_failure :: i32 where "unmarshal_reply_failure = - 3"
definition atmostonce_failure :: i32 where "atmostonce_failure = - 4"
definition oldsrv_failure :: i32 where "oldsrv_failure = - 5"
definition bind_failure :: i32 where "bind_failure = - 6"
definition cancel_failure :: i32 where "cancel_failure = - 7"

datatype rpcstate_t = NEW | INPROGRESS | DONE | FORGOTTEN

record reply_t =
  rt_xid :: u32
  rt_cb_present :: bool
  rt_buf :: "u8 option list"
  rt_sz :: nat

definition reply_t_new :: "u32 \<Rightarrow> reply_t" where
  "reply_t_new x = \<lparr>rt_xid = x, rt_cb_present = False, rt_buf = [], rt_sz = 0\<rparr>"

text \<open>
  A connection as the server sees it: its identity and its creation time.
\<close>

record conn =
  cn_id :: nat
  cn_sec :: int
  cn_usec :: int

definition conn_compare :: "conn \<Rightarrow> conn \<Rightarrow> int" where
  "conn_compare a b =
     (if cn_sec a > cn_sec b then 1 else if cn_sec a < cn_sec b then - 1
      else if cn_usec a > cn_usec b then 1 else if cn_usec a < cn_usec b then - 1 else 0)"

text \<open>
  A handler is \<^verbatim>\<open>handler::fn\<close>: it reads the arguments, writes the reply and changes the state
  \<open>'s\<close> of the service it belongs to.
\<close>

type_synonym 's handler = "unmarshall \<Rightarrow> marshall \<Rightarrow> 's \<Rightarrow> (i32 \<times> marshall \<times> 's) res"

record 's rpcs =
  rs_nonce :: u32
  rs_reply_window :: "(u32, reply_t list) smap"
  rs_conns :: "(u32, conn) smap"
  rs_counting :: i32
  rs_curr_counts :: i32
  rs_counts :: "(i32, i32) smap"
  rs_lossytest :: i32
  rs_reachable :: bool
  rs_procs :: "(i32, 's handler) smap"

section \<open>Registration\<close>

definition reg1 :: "i32 \<Rightarrow> 's handler \<Rightarrow> 's rpcs \<Rightarrow> 's rpcs res" where
  "reg1 proc h s =
     (if map_of (rs_procs s) proc \<noteq> None then Inl Verify_Failed
      else Inr (s\<lparr>rs_procs := smap_set proc h (rs_procs s)\<rparr>))"

text \<open>
  The handler object that \<^verbatim>\<open>rpcs::reg\<close> builds around a method: read the arguments, check that
  they were all there and nothing else, call the method, write its result.
\<close>

definition reg_fn1 ::
  "'a getter \<Rightarrow> ('r \<Rightarrow> marshall \<Rightarrow> marshall) \<Rightarrow> ('a \<Rightarrow> 's \<Rightarrow> (i32 \<times> 'r \<times> 's) res) \<Rightarrow> 's handler" where
  "reg_fn1 g1 pr meth args ret s =
     res_bind (g1 args) (\<lambda>(a1, args).
       if \<not> okdone args then Inr (unmarshal_args_failure, ret, s)
       else res_bind (meth a1 s) (\<lambda>(b, r, s). Inr (b, pr r ret, s)))"

definition reg_fn2 ::
  "'a getter \<Rightarrow> 'b getter \<Rightarrow> ('r \<Rightarrow> marshall \<Rightarrow> marshall) \<Rightarrow>
   ('a \<Rightarrow> 'b \<Rightarrow> 's \<Rightarrow> (i32 \<times> 'r \<times> 's) res) \<Rightarrow> 's handler" where
  "reg_fn2 g1 g2 pr meth args ret s =
     res_bind (g1 args) (\<lambda>(a1, args). res_bind (g2 args) (\<lambda>(a2, args).
       if \<not> okdone args then Inr (unmarshal_args_failure, ret, s)
       else res_bind (meth a1 a2 s) (\<lambda>(b, r, s). Inr (b, pr r ret, s))))"

definition reg_fn3 ::
  "'a getter \<Rightarrow> 'b getter \<Rightarrow> 'c getter \<Rightarrow> ('r \<Rightarrow> marshall \<Rightarrow> marshall) \<Rightarrow>
   ('a \<Rightarrow> 'b \<Rightarrow> 'c \<Rightarrow> 's \<Rightarrow> (i32 \<times> 'r \<times> 's) res) \<Rightarrow> 's handler" where
  "reg_fn3 g1 g2 g3 pr meth args ret s =
     res_bind (g1 args) (\<lambda>(a1, args). res_bind (g2 args) (\<lambda>(a2, args). res_bind (g3 args) (\<lambda>(a3, args).
       if \<not> okdone args then Inr (unmarshal_args_failure, ret, s)
       else res_bind (meth a1 a2 a3 s) (\<lambda>(b, r, s). Inr (b, pr r ret, s)))))"

definition reg_fn4 ::
  "'a getter \<Rightarrow> 'b getter \<Rightarrow> 'c getter \<Rightarrow> 'd getter \<Rightarrow> ('r \<Rightarrow> marshall \<Rightarrow> marshall) \<Rightarrow>
   ('a \<Rightarrow> 'b \<Rightarrow> 'c \<Rightarrow> 'd \<Rightarrow> 's \<Rightarrow> (i32 \<times> 'r \<times> 's) res) \<Rightarrow> 's handler" where
  "reg_fn4 g1 g2 g3 g4 pr meth args ret s =
     res_bind (g1 args) (\<lambda>(a1, args). res_bind (g2 args) (\<lambda>(a2, args).
     res_bind (g3 args) (\<lambda>(a3, args). res_bind (g4 args) (\<lambda>(a4, args).
       if \<not> okdone args then Inr (unmarshal_args_failure, ret, s)
       else res_bind (meth a1 a2 a3 a4 s) (\<lambda>(b, r, s). Inr (b, pr r ret, s))))))"

definition reg_fn5 ::
  "'a getter \<Rightarrow> 'b getter \<Rightarrow> 'c getter \<Rightarrow> 'd getter \<Rightarrow> 'e getter \<Rightarrow> ('r \<Rightarrow> marshall \<Rightarrow> marshall) \<Rightarrow>
   ('a \<Rightarrow> 'b \<Rightarrow> 'c \<Rightarrow> 'd \<Rightarrow> 'e \<Rightarrow> 's \<Rightarrow> (i32 \<times> 'r \<times> 's) res) \<Rightarrow> 's handler" where
  "reg_fn5 g1 g2 g3 g4 g5 pr meth args ret s =
     res_bind (g1 args) (\<lambda>(a1, args). res_bind (g2 args) (\<lambda>(a2, args).
     res_bind (g3 args) (\<lambda>(a3, args). res_bind (g4 args) (\<lambda>(a4, args). res_bind (g5 args) (\<lambda>(a5, args).
       if \<not> okdone args then Inr (unmarshal_args_failure, ret, s)
       else res_bind (meth a1 a2 a3 a4 a5 s) (\<lambda>(b, r, s). Inr (b, pr r ret, s)))))))"

definition reg_fn6 ::
  "'a getter \<Rightarrow> 'b getter \<Rightarrow> 'c getter \<Rightarrow> 'd getter \<Rightarrow> 'e getter \<Rightarrow> 'f getter \<Rightarrow> ('r \<Rightarrow> marshall \<Rightarrow> marshall) \<Rightarrow>
   ('a \<Rightarrow> 'b \<Rightarrow> 'c \<Rightarrow> 'd \<Rightarrow> 'e \<Rightarrow> 'f \<Rightarrow> 's \<Rightarrow> (i32 \<times> 'r \<times> 's) res) \<Rightarrow> 's handler" where
  "reg_fn6 g1 g2 g3 g4 g5 g6 pr meth args ret s =
     res_bind (g1 args) (\<lambda>(a1, args). res_bind (g2 args) (\<lambda>(a2, args).
     res_bind (g3 args) (\<lambda>(a3, args). res_bind (g4 args) (\<lambda>(a4, args).
     res_bind (g5 args) (\<lambda>(a5, args). res_bind (g6 args) (\<lambda>(a6, args).
       if \<not> okdone args then Inr (unmarshal_args_failure, ret, s)
       else res_bind (meth a1 a2 a3 a4 a5 a6 s) (\<lambda>(b, r, s). Inr (b, pr r ret, s))))))))"

definition reg_fn7 ::
  "'a getter \<Rightarrow> 'b getter \<Rightarrow> 'c getter \<Rightarrow> 'd getter \<Rightarrow> 'e getter \<Rightarrow> 'f getter \<Rightarrow> 'g getter \<Rightarrow>
   ('r \<Rightarrow> marshall \<Rightarrow> marshall) \<Rightarrow>
   ('a \<Rightarrow> 'b \<Rightarrow> 'c \<Rightarrow> 'd \<Rightarrow> 'e \<Rightarrow> 'f \<Rightarrow> 'g \<Rightarrow> 's \<Rightarrow> (i32 \<times> 'r \<times> 's) res) \<Rightarrow> 's handler" where
  "reg_fn7 g1 g2 g3 g4 g5 g6 g7 pr meth args ret s =
     res_bind (g1 args) (\<lambda>(a1, args). res_bind (g2 args) (\<lambda>(a2, args).
     res_bind (g3 args) (\<lambda>(a3, args). res_bind (g4 args) (\<lambda>(a4, args).
     res_bind (g5 args) (\<lambda>(a5, args). res_bind (g6 args) (\<lambda>(a6, args). res_bind (g7 args) (\<lambda>(a7, args).
       if \<not> okdone args then Inr (unmarshal_args_failure, ret, s)
       else res_bind (meth a1 a2 a3 a4 a5 a6 a7 s) (\<lambda>(b, r, s). Inr (b, pr r ret, s)))))))))"

definition rpcbind :: "u32 \<Rightarrow> i32 \<Rightarrow> 's \<Rightarrow> (i32 \<times> i32 \<times> 's) res" where
  "rpcbind nonce a s = Inr (0, nonce, s)"

definition rpcs_new :: "u32 \<Rightarrow> i32 \<Rightarrow> i32 \<Rightarrow> 's rpcs res" where
  "rpcs_new nonce count lossy =
     reg1 rpc_bind (reg_fn1 (\<lambda>u. Inr (get_int u)) put_int (rpcbind nonce))
       \<lparr>rs_nonce = nonce, rs_reply_window = [], rs_conns = [], rs_counting = count,
        rs_curr_counts = count, rs_counts = [], rs_lossytest = lossy, rs_reachable = True, rs_procs = []\<rparr>"

definition updatestat :: "i32 \<Rightarrow> 's rpcs \<Rightarrow> 's rpcs" where
  "updatestat proc s =
     (let n = (case map_of (rs_counts s) proc of None \<Rightarrow> 0 | Some n \<Rightarrow> n);
          s1 = s\<lparr>rs_counts := smap_set proc (n + 1) (rs_counts s), rs_curr_counts := rs_curr_counts s - 1\<rparr>
      in if rs_curr_counts s1 = 0 then s1\<lparr>rs_curr_counts := rs_counting s1\<rparr> else s1)"

section \<open>The reply window\<close>

text \<open>
  The loop that is meant to compute the least remembered xid: when it meets a smaller entry it
  stores the xid of the request.
\<close>

definition min_xid :: "u32 \<Rightarrow> reply_t list \<Rightarrow> u32" where
  "min_xid xid w = fold (\<lambda>e m. if rt_xid e < m then xid else m) w (rt_xid (hd w))"

definition clean_replies :: "u32 \<Rightarrow> reply_t list \<Rightarrow> reply_t list" where
  "clean_replies xid_rep w = filter (\<lambda>e. \<not> rt_xid e < xid_rep) w"

fun scan_replies :: "u32 \<Rightarrow> reply_t list \<Rightarrow> rpcstate_t \<Rightarrow> rpcstate_t \<times> (u8 option list \<times> nat) option" where
  "scan_replies xid [] st = (st, None)"
| "scan_replies xid (e # w) st =
     (if rt_xid e = xid
      then if rt_cb_present e then (DONE, Some (rt_buf e, rt_sz e)) else scan_replies xid w INPROGRESS
      else scan_replies xid w st)"

definition check_window ::
  "u32 \<Rightarrow> u32 \<Rightarrow> reply_t list \<Rightarrow> (rpcstate_t \<times> (u8 option list \<times> nat) option) \<times> reply_t list" where
  "check_window xid xid_rep w =
     (if w = [] then ((NEW, None), [reply_t_new 0])
      else if xid < min_xid xid w then ((FORGOTTEN, None), w)
      else let w1 = clean_replies xid_rep w; r = scan_replies xid w1 NEW
           in (r, if fst r = NEW then w1 @ [reply_t_new xid] else w1))"

definition checkduplicate_and_update ::
  "u32 \<Rightarrow> u32 \<Rightarrow> u32 \<Rightarrow> 's rpcs \<Rightarrow> ((rpcstate_t \<times> (u8 option list \<times> nat) option) \<times> 's rpcs) res" where
  "checkduplicate_and_update clt_nonce xid xid_rep s =
     (case map_of (rs_reply_window s) clt_nonce of
        None \<Rightarrow> Inl Null_Deref
      | Some w \<Rightarrow> let (r, w') = check_window xid xid_rep w
                  in Inr (r, s\<lparr>rs_reply_window := smap_set clt_nonce w' (rs_reply_window s)\<rparr>))"

definition done_reply :: "u32 \<Rightarrow> u8 option list \<Rightarrow> nat \<Rightarrow> reply_t" where
  "done_reply xid b sz = (reply_t_new xid)\<lparr>rt_cb_present := True, rt_buf := b, rt_sz := sz\<rparr>"

definition add_reply :: "u32 \<Rightarrow> u32 \<Rightarrow> u8 option list \<Rightarrow> nat \<Rightarrow> 's rpcs \<Rightarrow> 's rpcs res" where
  "add_reply clt_nonce xid b sz s =
     (case map_of (rs_reply_window s) clt_nonce of
        None \<Rightarrow> Inl Null_Deref
      | Some w \<Rightarrow> Inr (s\<lparr>rs_reply_window := smap_set clt_nonce (w @ [done_reply xid b sz]) (rs_reply_window s)\<rparr>))"

definition free_reply_window :: "'s rpcs \<Rightarrow> 's rpcs" where
  "free_reply_window s = s\<lparr>rs_reply_window := []\<rparr>"

section \<open>Dispatch\<close>

text \<open>
  The state a dispatching thread touches: the endpoint, the service state, the reference counts
  of the connections, and the messages handed to \<^verbatim>\<open>connection::send\<close>.
\<close>

record 's world =
  w_srv :: "'s rpcs"
  w_app :: 's
  w_refs :: "nat \<Rightarrow> int"
  w_sent :: "(nat \<times> u8 option list) list"

definition incref :: "conn \<Rightarrow> 's world \<Rightarrow> 's world" where
  "incref c w = w\<lparr>w_refs := (w_refs w)(cn_id c := w_refs w (cn_id c) + 1)\<rparr>"

definition decref :: "conn \<Rightarrow> 's world \<Rightarrow> 's world" where
  "decref c w = w\<lparr>w_refs := (w_refs w)(cn_id c := w_refs w (cn_id c) - 1)\<rparr>"

definition send_pdu :: "conn \<Rightarrow> u8 option list \<Rightarrow> nat \<Rightarrow> 's world \<Rightarrow> 's world" where
  "send_pdu c b sz w = w\<lparr>w_sent := w_sent w @ [(cn_id c, take sz b)]\<rparr>"

definition send_error :: "conn \<Rightarrow> i32 \<Rightarrow> i32 \<Rightarrow> 's world \<Rightarrow> 's world" where
  "send_error c xid ret w =
     (let rep = pack_reply_header \<lparr>rp_xid = xid, rp_ret = ret\<rparr> marshall_new
      in send_pdu c (m_buf rep) (m_ind rep) w)"

definition know_client :: "u32 \<Rightarrow> 's rpcs \<Rightarrow> 's rpcs" where
  "know_client n s =
     (if map_of (rs_reply_window s) n = None
      then s\<lparr>rs_reply_window := smap_set n [] (rs_reply_window s)\<rparr> else s)"

definition save_conn :: "conn \<Rightarrow> u32 \<Rightarrow> 's world \<Rightarrow> 's world" where
  "save_conn c n w =
     (let put = (\<lambda>w. w\<lparr>w_srv := (w_srv w)\<lparr>rs_conns := smap_set n c (rs_conns (w_srv w))\<rparr>\<rparr>)
      in case map_of (rs_conns (w_srv w)) n of
           None \<Rightarrow> put (incref c w)
         | Some old \<Rightarrow> if conn_compare old c < 0 then put (incref c (decref old w)) else w)"

datatype 's entered = Finished | Run "'s handler" req_header unmarshall

definition dispatch_stat ::
  "conn \<Rightarrow> req_header \<Rightarrow> 's world \<Rightarrow> ((rpcstate_t \<times> (u8 option list \<times> nat) option) \<times> 's world) res" where
  "dispatch_stat c h w =
     (if rq_clt_nonce h \<noteq> 0
      then let w = w\<lparr>w_srv := know_client (rq_clt_nonce h) (w_srv w)\<rparr>;
               w = save_conn c (rq_clt_nonce h) w
           in res_bind (checkduplicate_and_update (rq_clt_nonce h) (rq_xid h) (rq_xid_rep h) (w_srv w))
                (\<lambda>(r, s). Inr (r, w\<lparr>w_srv := s\<rparr>))
      else Inr ((NEW, None), w))"

definition dispatch_enter :: "conn \<Rightarrow> u8 list \<Rightarrow> nat \<Rightarrow> 's world \<Rightarrow> ('s entered \<times> 's world) res" where
  "dispatch_enter c buf sz w =
     (let (h, req) = unpack_req_header (unmarshall_of_buf buf sz)
      in if \<not> u_ok req then Inr (Finished, decref c w)
         else if rq_srv_nonce h \<noteq> 0 \<and> rq_srv_nonce h \<noteq> rs_nonce (w_srv w)
         then Inr (Finished, send_error c (rq_xid h) oldsrv_failure w)
         else case map_of (rs_procs (w_srv w)) (rq_proc h) of
           None \<Rightarrow> Inl Verify_Failed
         | Some f \<Rightarrow> res_bind (dispatch_stat c h w) (\<lambda>(r, w).
             case r of
               (NEW, _) \<Rightarrow>
                 Inr (Run f h req, if rs_counting (w_srv w) \<noteq> 0
                                   then w\<lparr>w_srv := updatestat (rq_proc h) (w_srv w)\<rparr> else w)
             | (INPROGRESS, _) \<Rightarrow> Inr (Finished, decref c w)
             | (DONE, Some (b, sz)) \<Rightarrow> Inr (Finished, decref c (send_pdu c b sz w))
             | (DONE, None) \<Rightarrow> Inl Uninitialised
             | (FORGOTTEN, _) \<Rightarrow>
                 Inr (Finished, decref c (send_error c (rq_xid h) atmostonce_failure w))))"

text \<open>
  After the handler: \<open>isdead\<close> tells which connections have died meanwhile.  For a client with
  nonce 0 nothing is in \<^verbatim>\<open>conns_\<close>, and \<^verbatim>\<open>conns_[0]\<close> is a null pointer.
\<close>

definition pick_conn :: "(nat \<Rightarrow> bool) \<Rightarrow> conn \<Rightarrow> u32 \<Rightarrow> 's world \<Rightarrow> (conn \<times> 's world) res" where
  "pick_conn isdead c n w =
     (if isdead (cn_id c)
      then case map_of (rs_conns (w_srv w)) n of
             None \<Rightarrow> Inl Null_Deref
           | Some c' \<Rightarrow> if cn_id c' \<noteq> cn_id c then Inr (c', incref c' (decref c w)) else Inr (c, w)
      else Inr (c, w))"

definition dispatch_leave ::
  "(nat \<Rightarrow> bool) \<Rightarrow> conn \<Rightarrow> req_header \<Rightarrow> i32 \<Rightarrow> marshall \<Rightarrow> 's world \<Rightarrow> 's world res" where
  "dispatch_leave isdead c h ret rep w =
     (if ret = unmarshal_args_failure \<or> sint ret < 0 then Inl Verify_Failed
      else let rep = pack_reply_header \<lparr>rp_xid = rq_xid h, rp_ret = ret\<rparr> rep;
               ((b, sz), rep) = m_take_buf rep
           in res_bind (if rq_clt_nonce h > 0
                        then res_bind (add_reply (rq_clt_nonce h) (rq_xid h) b sz (w_srv w))
                               (\<lambda>s. Inr (w\<lparr>w_srv := s\<rparr>))
                        else Inr w) (\<lambda>w.
              res_bind (pick_conn isdead c (rq_clt_nonce h) w) (\<lambda>(c, w).
              Inr (decref c (send_pdu c b sz w)))))"

definition dispatch :: "(nat \<Rightarrow> bool) \<Rightarrow> conn \<Rightarrow> u8 list \<Rightarrow> nat \<Rightarrow> 's world \<Rightarrow> 's world res" where
  "dispatch isdead c buf sz w =
     res_bind (dispatch_enter c buf sz w) (\<lambda>(e, w).
       case e of
         Finished \<Rightarrow> Inr w
       | Run f h req \<Rightarrow> res_bind (f req marshall_new (w_app w)) (\<lambda>(ret, rep, app).
           dispatch_leave isdead c h ret rep (w\<lparr>w_app := app\<rparr>)))"

section \<open>Accepting a request\<close>

text \<open>
  The poll thread hands a request to the worker pool: \<open>succ\<close> is what \<^verbatim>\<open>addObjJob\<close> returned and
  \<open>reachable2\<close> the second look at \<^verbatim>\<open>reachable_\<close>.  The result is the return value, whether a job
  is in the pool, and whether its memory was freed.
\<close>

definition rpcs_got_pdu :: "bool \<Rightarrow> bool \<Rightarrow> conn \<Rightarrow> 's world \<Rightarrow> (bool \<times> bool \<times> bool) \<times> 's world" where
  "rpcs_got_pdu succ reachable2 c w =
     (if \<not> rs_reachable (w_srv w) then ((True, False, False), w)
      else let w1 = incref c w
           in if \<not> succ \<or> \<not> reachable2 then ((succ, succ, True), decref c w1)
              else ((succ, succ, False), w1))"

end
