(* ===== verification/Timespec.thy ===== *)
theory Timespec
  imports Prelude "HOL-Library.Signed_Division"
begin

text \<open>
  Deadlines: the \<^verbatim>\<open>struct timespec\<close> arithmetic at the end of \<^verbatim>\<open>rpc/rpc.cc\<close>.  C division truncates
  towards zero, which is \<^const>\<open>signed_divide\<close>.
\<close>

record timespec =
  tv_sec :: int
  tv_nsec :: int

definition cmp_timespec :: "timespec \<Rightarrow> timespec \<Rightarrow> int" where
  "cmp_timespec a b =
     (if tv_sec a > tv_sec b then 1
      else if tv_sec a < tv_sec b then - 1
      else if tv_nsec a > tv_nsec b then 1
      else if tv_nsec a < tv_nsec b then - 1
      else 0)"

function carry_nsec :: "timespec \<Rightarrow> timespec" where
  "carry_nsec t =
     (if tv_nsec t > 1000000000
      then carry_nsec (t\<lparr>tv_sec := tv_sec t + 1, tv_nsec := tv_nsec t - 1000000000\<rparr>) else t)"
  by pat_completeness auto
termination
  by (relation "measure (\<lambda>t. nat (tv_nsec t))") auto

declare carry_nsec.simps [simp del]

definition add_timespec :: "timespec \<Rightarrow> int \<Rightarrow> timespec res" where
  "add_timespec a b =
     (let r = \<lparr>tv_sec = tv_sec a + b sdiv 1000, tv_nsec = tv_nsec a + (b smod 1000) * 1000000\<rparr>
      in if \<not> tv_nsec r \<ge> 0 then Inl Verify_Failed else Inr (carry_nsec r))"

definition diff_timespec :: "timespec \<Rightarrow> timespec \<Rightarrow> int res" where
  "diff_timespec e s =
     (let diff = (if tv_sec e > tv_sec s then (tv_sec e - tv_sec s) * 1000 else 0)
      in if \<not> (diff \<noteq> 0 \<or> tv_sec e = tv_sec s) then Inl Verify_Failed
         else if tv_nsec e > tv_nsec s then Inr (diff + (tv_nsec e - tv_nsec s) sdiv 1000000)
         else Inr (diff - (tv_nsec s - tv_nsec e) sdiv 1000000))"

text \<open>The instant a \<^verbatim>\<open>timespec\<close> denotes, in nanoseconds.\<close>

definition nanos :: "timespec \<Rightarrow> int" where
  "nanos t = tv_sec t * 1000000000 + tv_nsec t"

definition ts_ok :: "timespec \<Rightarrow> bool" where
  "ts_ok t \<longleftrightarrow> 0 \<le> tv_nsec t \<and> tv_nsec t \<le> 1000000000"

lemma carry_nsec_nanos: "nanos (carry_nsec t) = nanos t"
proof (induction t rule: carry_nsec.induct)
  case (1 t)
  then show ?case by (subst carry_nsec.simps) (auto simp: nanos_def)
qed

lemma carry_nsec_ok: "0 \<le> tv_nsec t \<Longrightarrow> ts_ok (carry_nsec t)"
proof (induction t rule: carry_nsec.induct)
  case (1 t)
  then show ?case by (subst carry_nsec.simps) (auto simp: ts_ok_def)
qed

lemma sdiv_smod_nonneg: "0 \<le> b \<Longrightarrow> b sdiv 1000 = b div 1000" "0 \<le> b \<Longrightarrow> b smod 1000 = (b :: int) mod 1000"
  by (auto simp: signed_divide_int_def signed_modulo_int_def sgn_if)

lemma add_timespec_ok:
  assumes "0 \<le> tv_nsec a" "0 \<le> b"
  shows "\<exists>r. add_timespec a b = Inr r \<and> ts_ok r \<and> nanos r = nanos a + b * 1000000"
proof -
  let ?r = "\<lparr>tv_sec = tv_sec a + b sdiv 1000, tv_nsec = tv_nsec a + (b smod 1000) * 1000000\<rparr>"
  have "0 \<le> tv_nsec ?r" using assms by (simp add: sdiv_smod_nonneg)
  moreover have "nanos ?r = nanos a + b * 1000000"
    using assms(2) by (simp add: nanos_def sdiv_smod_nonneg algebra_simps) presburger
  ultimately show ?thesis
    by (auto simp: add_timespec_def Let_def carry_nsec_ok carry_nsec_nanos)
qed

lemma cmp_timespec_gt: "ts_ok a \<Longrightarrow> ts_ok b \<Longrightarrow> nanos b < nanos a \<Longrightarrow> cmp_timespec a b > 0"
  by (auto simp: cmp_timespec_def nanos_def ts_ok_def)

end
