(* ===== verification/Rpc_Client.thy ===== *)
theory Rpc_Client
  imports Rpc_Server Timespec
begin

text \<open>
  The RPC client endpoint \<^verbatim>\<open>rpcc\<close>: the window of answered xids that every request acknowledges,
  the critical sections of \<^verbatim>\<open>call1\<close>, \<^verbatim>\<open>got_pdu\<close> and \<^verbatim>\<open>cancel\<close> (each is one step under the mutex
  \<^verbatim>\<open>m_\<close>), the waiting loop of \<^verbatim>\<open>call1\<close> with its doubling timeouts, and the typed \<^verbatim>\<open>call\<close> wrappers.
\<close>

section \<open>The window of answered xids\<close>

fun insert_xid :: "u32 \<Rightarrow> u32 list \<Rightarrow> u32 list" where
  "insert_xid xid [] = [xid]"
| "insert_xid xid (y # ys) = (if y > xid then xid # y # ys else y # insert_xid xid ys)"

text \<open>
  The \<^verbatim>\<open>compress\<close> loop: \<open>pre\<close> is the part of the list before the iterator.
\<close>

fun compress :: "u32 list \<Rightarrow> u32 list \<Rightarrow> u32 list" where
  "compress pre [] = pre"
| "compress pre (i # rest) = compress (dropWhile (\<lambda>x. x + 1 = i) pre @ [i]) rest"

definition update_xid_rep :: "u32 \<Rightarrow> u32 list \<Rightarrow> u32 list" where
  "update_xid_rep xid w =
     (if xid \<le> hd w then w
      else let w1 = insert_xid xid w in compress [hd w1] (tl w1))"

section \<open>State\<close>

record caller =
  ca_xid :: u32
  ca_un :: unmarshall
  ca_intret :: "i32 option"
  ca_done :: bool

record rpcc =
  rc_clt_nonce :: u32
  rc_srv_nonce :: u32
  rc_bind_done :: bool
  rc_xid :: u32
  rc_lossytest :: i32
  rc_retrans :: bool
  rc_reachable :: bool
  rc_destroy_wait :: bool
  rc_calls :: "(u32, caller) smap"
  rc_xid_rep_window :: "u32 list"
  rc_dup_req :: "(u8 option list \<times> i32) option"
  rc_xid_rep_done :: i32

definition caller_new :: "u32 \<Rightarrow> unmarshall \<Rightarrow> caller" where
  "caller_new x u = \<lparr>ca_xid = x, ca_un = u, ca_intret = None, ca_done = False\<rparr>"

text \<open>\<open>rnd\<close> is the value of \<^verbatim>\<open>random()\<close>, \<open>lossy\<close> that of \<^verbatim>\<open>RPC_LOSSY\<close>.\<close>

definition rpcc_new :: "u32 \<Rightarrow> i32 \<Rightarrow> bool \<Rightarrow> rpcc" where
  "rpcc_new rnd lossy retrans =
     \<lparr>rc_clt_nonce = (if retrans then rnd else 0), rc_srv_nonce = 0, rc_bind_done = False, rc_xid = 1,
      rc_lossytest = lossy, rc_retrans = retrans, rc_reachable = True, rc_destroy_wait = False,
      rc_calls = [], rc_xid_rep_window = [0], rc_dup_req = None, rc_xid_rep_done = - 1\<rparr>"

section \<open>The critical sections\<close>

definition call1_start ::
  "u32 \<Rightarrow> marshall \<Rightarrow> unmarshall \<Rightarrow> rpcc \<Rightarrow> (i32 + req_header \<times> marshall) \<times> rpcc" where
  "call1_start proc req rep rc =
     (if (proc \<noteq> rpc_bind \<and> \<not> rc_bind_done rc) \<or> (proc = rpc_bind \<and> rc_bind_done rc)
      then (Inl bind_failure, rc)
      else if rc_destroy_wait rc then (Inl cancel_failure, rc)
      else let xid = rc_xid rc;
               h = \<lparr>rq_xid = xid, rq_proc = proc, rq_clt_nonce = rc_clt_nonce rc,
                    rq_srv_nonce = rc_srv_nonce rc, rq_xid_rep = hd (rc_xid_rep_window rc)\<rparr>
           in (Inr (h, pack_req_header h req),
               rc\<lparr>rc_xid := xid + 1, rc_calls := smap_set xid (caller_new xid rep) (rc_calls rc)\<rparr>))"

text \<open>
  What one transmission puts on the channel, if there is one (\<open>ch\<close>): with \<^verbatim>\<open>RPC_LOSSY\<close> an old request is repeated once
  its reply is known to have been acknowledged.
\<close>

definition call1_transmit :: "bool \<Rightarrow> marshall \<Rightarrow> rpcc \<Rightarrow> u8 option list list \<times> rpcc" where
  "call1_transmit ch req rc =
     (if \<not> ch \<or> \<not> rc_reachable rc then ([], rc)
      else case rc_dup_req rc of
        Some (buf, xid) \<Rightarrow>
          if sint (rc_xid_rep_done rc) > sint xid
          then ([buf, take (m_ind req) (m_buf req)], rc\<lparr>rc_dup_req := None\<rparr>)
          else ([take (m_ind req) (m_buf req)], rc)
      | None \<Rightarrow> ([take (m_ind req) (m_buf req)], rc))"

definition call1_finish :: "u32 \<Rightarrow> rpcc \<Rightarrow> rpcc" where
  "call1_finish xid rc =
     rc\<lparr>rc_calls := smap_del xid (rc_calls rc),
        rc_xid_rep_window := update_xid_rep xid (rc_xid_rep_window rc)\<rparr>"

definition call1_remember :: "bool \<Rightarrow> marshall \<Rightarrow> u32 \<Rightarrow> i32 \<Rightarrow> rpcc \<Rightarrow> rpcc" where
  "call1_remember dn req xid xid_rep rc =
     (if dn \<and> rc_lossytest rc \<noteq> 0
      then let rc1 = (if rc_dup_req rc = None
                      then rc\<lparr>rc_dup_req := Some (take (m_ind req) (m_buf req), xid)\<rparr> else rc)
           in if sint xid_rep > sint (rc_xid_rep_done rc1) then rc1\<lparr>rc_xid_rep_done := xid_rep\<rparr> else rc1
      else rc)"

definition call1_result :: "caller \<Rightarrow> i32 res" where
  "call1_result ca =
     (if ca_done ca then case ca_intret ca of None \<Rightarrow> Inl Uninitialised | Some r \<Rightarrow> Inr r
      else Inr timeout_failure)"

definition got_reply :: "i32 \<Rightarrow> unmarshall \<Rightarrow> caller \<Rightarrow> caller" where
  "got_reply ret rep ca =
     (if \<not> ca_done ca
      then ca\<lparr>ca_un := fst (take_in (ca_un ca) rep), ca_intret := Some ret, ca_done := True\<rparr> else ca)"

definition got_pdu :: "u8 list \<Rightarrow> nat \<Rightarrow> rpcc \<Rightarrow> rpcc" where
  "got_pdu b sz rc =
     (let (h, rep) = unpack_reply_header (unmarshall_of_buf b sz)
      in if \<not> u_ok rep then rc
         else let rc1 = rc\<lparr>rc_xid_rep_window := update_xid_rep (rp_xid h) (rc_xid_rep_window rc)\<rparr>
              in case map_of (rc_calls rc1) (rp_xid h) of
                   None \<Rightarrow> rc1
                 | Some ca \<Rightarrow> rc1\<lparr>rc_calls := smap_set (rp_xid h) (got_reply (rp_ret h) rep ca) (rc_calls rc1)\<rparr>)"

text \<open>
  \<^verbatim>\<open>cancel\<close> fails every caller and then waits for them to leave; it returns when none is left.
\<close>

definition cancel_mark :: "rpcc \<Rightarrow> rpcc" where
  "cancel_mark rc =
     (let cs = map (\<lambda>(x, ca). (x, ca\<lparr>ca_done := True, ca_intret := Some cancel_failure\<rparr>)) (rc_calls rc)
      in rc\<lparr>rc_calls := cs, rc_destroy_wait := (rc_destroy_wait rc \<or> cs \<noteq> [])\<rparr>)"

definition bind_result :: "i32 \<Rightarrow> i32 \<Rightarrow> rpcc \<Rightarrow> rpcc" where
  "bind_result ret r rc = (if ret = 0 then rc\<lparr>rc_bind_done := True, rc_srv_nonce := r\<rparr> else rc)"

section \<open>The waiting loop of call1\<close>

definition to_max :: int where "to_max = 120000"





section \<open>Typed calls\<close>

text \<open>\<open>net\<close> stands for \<^verbatim>\<open>call1\<close>: what comes back for a procedure number and a request.\<close>

type_synonym net = "u32 \<Rightarrow> marshall \<Rightarrow> (i32 \<times> unmarshall) res"

definition call_m :: "net \<Rightarrow> u32 \<Rightarrow> marshall \<Rightarrow> 'r getter \<Rightarrow> (i32 \<times> 'r option) res" where
  "call_m net proc req gr =
     res_bind (net proc req) (\<lambda>(intret, u).
       if sint intret < 0 then Inr (intret, None)
       else res_bind (gr u) (\<lambda>(r, u). if \<not> okdone u then Inl Verify_Failed else Inr (intret, Some r)))"

definition rpcc_call0 :: "net \<Rightarrow> u32 \<Rightarrow> 'r getter \<Rightarrow> (i32 \<times> 'r option) res" where
  "rpcc_call0 net proc gr = call_m net proc marshall_new gr"

definition rpcc_call1 ::
  "net \<Rightarrow> u32 \<Rightarrow> (marshall \<Rightarrow> marshall) \<Rightarrow> 'r getter \<Rightarrow> (i32 \<times> 'r option) res" where
  "rpcc_call1 net proc a1 gr = call_m net proc (a1 marshall_new) gr"

definition rpcc_call2 ::
  "net \<Rightarrow> u32 \<Rightarrow> (marshall \<Rightarrow> marshall) \<Rightarrow> (marshall \<Rightarrow> marshall) \<Rightarrow> 'r getter \<Rightarrow> (i32 \<times> 'r option) res" where
  "rpcc_call2 net proc a1 a2 gr = call_m net proc (a2 (a1 marshall_new)) gr"

definition rpcc_call3 ::
  "net \<Rightarrow> u32 \<Rightarrow> (marshall \<Rightarrow> marshall) \<Rightarrow> (marshall \<Rightarrow> marshall) \<Rightarrow> (marshall \<Rightarrow> marshall) \<Rightarrow>
   'r getter \<Rightarrow> (i32 \<times> 'r option) res" where
  "rpcc_call3 net proc a1 a2 a3 gr = call_m net proc (a3 (a2 (a1 marshall_new))) gr"

definition rpcc_call4 ::
  "net \<Rightarrow> u32 \<Rightarrow> (marshall \<Rightarrow> marshall) \<Rightarrow> (marshall \<Rightarrow> marshall) \<Rightarrow> (marshall \<Rightarrow> marshall) \<Rightarrow>
   (marshall \<Rightarrow> marshall) \<Rightarrow> 'r getter \<Rightarrow> (i32 \<times> 'r option) res" where
  "rpcc_call4 net proc a1 a2 a3 a4 gr = call_m net proc (a4 (a3 (a2 (a1 marshall_new)))) gr"

definition rpcc_call5 ::
  "net \<Rightarrow> u32 \<Rightarrow> (marshall \<Rightarrow> marshall) \<Rightarrow> (marshall \<Rightarrow> marshall) \<Rightarrow> (marshall \<Rightarrow> marshall) \<Rightarrow>
   (marshall \<Rightarrow> marshall) \<Rightarrow> (marshall \<Rightarrow> marshall) \<Rightarrow> 'r getter \<Rightarrow> (i32 \<times> 'r option) res" where
  "rpcc_call5 net proc a1 a2 a3 a4 a5 gr = call_m net proc (a5 (a4 (a3 (a2 (a1 marshall_new))))) gr"

definition rpcc_call6 ::
  "net \<Rightarrow> u32 \<Rightarrow> (marshall \<Rightarrow> marshall) \<Rightarrow> (marshall \<Rightarrow> marshall) \<Rightarrow> (marshall \<Rightarrow> marshall) \<Rightarrow>
   (marshall \<Rightarrow> marshall) \<Rightarrow> (marshall \<Rightarrow> marshall) \<Rightarrow> (marshall \<Rightarrow> marshall) \<Rightarrow>
   'r getter \<Rightarrow> (i32 \<times> 'r option) res" where
  "rpcc_call6 net proc a1 a2 a3 a4 a5 a6 gr =
     call_m net proc (a6 (a5 (a4 (a3 (a2 (a1 marshall_new)))))) gr"

definition rpcc_call7 ::
  "net \<Rightarrow> u32 \<Rightarrow> (marshall \<Rightarrow> marshall) \<Rightarrow> (marshall \<Rightarrow> marshall) \<Rightarrow> (marshall \<Rightarrow> marshall) \<Rightarrow>
   (marshall \<Rightarrow> marshall) \<Rightarrow> (marshall \<Rightarrow> marshall) \<Rightarrow> (marshall \<Rightarrow> marshall) \<Rightarrow> (marshall \<Rightarrow> marshall) \<Rightarrow>
   'r getter \<Rightarrow> (i32 \<times> 'r option) res" where
  "rpcc_call7 net proc a1 a2 a3 a4 a5 a6 a7 gr =
     call_m net proc (a7 (a6 (a5 (a4 (a3 (a2 (a1 marshall_new))))))) gr"

section \<open>The window denotes the set of answered xids\<close>

text \<open>
  The abstraction of the window: everything up to its front, and the elements beyond.
\<close>

definition answered :: "u32 list \<Rightarrow> u32 set" where
  "answered w = {x. x \<le> hd w} \<union> set w"

definition xid_window :: "u32 list \<Rightarrow> bool" where
  "xid_window w \<longleftrightarrow> w \<noteq> [] \<and> sorted w \<and> (\<forall>y \<in> set w. y = hd w \<or> hd w + 1 < y)"

lemma insert_xid_set [simp]: "set (insert_xid x w) = insert x (set w)"
  by (induction w) auto

lemma insert_xid_sorted: "sorted w \<Longrightarrow> sorted (insert_xid x w)"
  by (induction w) auto

lemma insert_xid_hd: "w \<noteq> [] \<Longrightarrow> hd w < x \<Longrightarrow> hd (insert_xid x w) = hd w \<and> insert_xid x w \<noteq> []"
  by (cases w) auto

lemma word_succ_cases: "(p :: u32) \<le> i \<Longrightarrow> p + 1 \<noteq> i \<Longrightarrow> i = p \<or> p + 1 < i"
proof -
  assume a: "p \<le> i" "p + 1 \<noteq> i"
  have "p = i \<or> p < i" using a(1) by auto
  then show "i = p \<or> p + 1 < i"
  proof
    assume "p < i"
    then have "p + 1 \<le> i" by (rule inc_le)
    with a(2) show ?thesis by auto
  qed simp
qed

lemma word_le_succ: "(p :: u32) \<le> p + 1 \<Longrightarrow> y \<le> p + 1 \<longleftrightarrow> y \<le> p \<or> y = p + 1"
proof -
  assume p: "p \<le> p + 1"
  then have "1 + p \<noteq> 0" by (auto simp: add.commute)
  then have "unat (p + 1) = Suc (unat p)" using unatSuc [of p] by (simp add: add.commute)
  then show ?thesis by (auto simp: word_le_nat_alt word_unat_eq_iff)
qed

lemma xid_window_snoc:
  assumes "xid_window pre" "sorted (pre @ [i])"
  shows "xid_window (dropWhile (\<lambda>x. x + 1 = i) pre @ [i]) \<and>
    answered (dropWhile (\<lambda>x. x + 1 = i) pre @ [i]) = insert i (answered pre) \<and>
    sorted (dropWhile (\<lambda>x. x + 1 = i) pre @ [i])"
proof (cases "hd pre + 1 = i")
  case True
  have "\<forall>y \<in> set pre. y = hd pre"
    using assms True by (auto simp: xid_window_def sorted_append not_less [symmetric])
  then have d: "dropWhile (\<lambda>x. x + 1 = i) pre = []"
    using True assms(1) by (auto simp: xid_window_def)
  have "hd pre \<le> hd pre + 1"
    using assms True by (cases pre) (auto simp: xid_window_def)
  then show ?thesis
    unfolding d using True \<open>\<forall>y \<in> set pre. y = hd pre\<close> word_le_succ [of "hd pre"]
    by (auto simp: xid_window_def answered_def)
next
  case False
  then obtain p ps where pre: "pre = p # ps" "p + 1 \<noteq> i" using assms(1) by (cases pre) (auto simp: xid_window_def)
  then show ?thesis
    using assms word_succ_cases [of p i] by (auto simp: xid_window_def answered_def sorted_append)
qed

lemma compress_window:
  "xid_window pre \<Longrightarrow> sorted (pre @ rest) \<Longrightarrow>
   xid_window (compress pre rest) \<and> answered (compress pre rest) = answered pre \<union> set rest"
proof (induction pre rest rule: compress.induct)
  case (2 pre i rest)
  have "sorted (pre @ [i])" using "2.prems"(2) by (auto simp: sorted_append)
  note step = xid_window_snoc [OF "2.prems"(1) this]
  have "sorted ((dropWhile (\<lambda>x. x + 1 = i) pre @ [i]) @ rest)"
    using step "2.prems"(2) by (auto simp: sorted_append dest: set_dropWhileD)
  with 2 step show ?case by auto
qed simp

lemma update_window:
  assumes "xid_window w"
  shows "xid_window (update_xid_rep x w)" and "answered (update_xid_rep x w) = insert x (answered w)"
proof -
  have "xid_window (update_xid_rep x w) \<and> answered (update_xid_rep x w) = insert x (answered w)"
  proof (cases "x \<le> hd w")
    case True
    with assms show ?thesis by (auto simp: update_xid_rep_def answered_def)
  next
    case False
    define w1 where "w1 = insert_xid x w"
    have w1: "sorted w1" "set w1 = insert x (set w)" "w1 \<noteq> []" "hd w1 = hd w"
      using assms False insert_xid_hd [of w x] by (auto simp: w1_def xid_window_def insert_xid_sorted)
    have "sorted ([hd w1] @ tl w1)" using w1(1,3) by (cases w1) auto
    moreover have "xid_window [hd w1]" by (simp add: xid_window_def)
    ultimately have "xid_window (compress [hd w1] (tl w1)) \<and>
        answered (compress [hd w1] (tl w1)) = answered [hd w1] \<union> set (tl w1)"
      by (rule compress_window [rotated])
    moreover have "set w1 = insert (hd w1) (set (tl w1))" using w1(3) by (cases w1) auto
    then have "answered [hd w1] \<union> set (tl w1) = insert x (answered w)"
      using w1 by (auto simp: answered_def)
    ultimately show ?thesis using False by (simp add: update_xid_rep_def w1_def Let_def)
  qed
  then show "xid_window (update_xid_rep x w)" "answered (update_xid_rep x w) = insert x (answered w)" by auto
qed

lemma xid_window_init: "xid_window [0]"
  by (simp add: xid_window_def)

section \<open>The client as a transition system\<close>

text \<open>
  The second component of the state is a history: the xids whose call is over for the client,
  because a reply arrived or because the caller gave up.  The server answers only xids that were
  handed out, and fewer than \<open>2\<^sup>3\<^sup>2\<close> of them are.
\<close>

inductive rpcc_step :: "rpcc \<times> u32 set \<Rightarrow> rpcc \<times> u32 set \<Rightarrow> bool" where
  start: "call1_start proc req rep rc = (Inr (h, m), rc') \<Longrightarrow> rc_xid rc + 1 \<noteq> 0 \<Longrightarrow> rpcc_step (rc, A) (rc', A)"
| transmit: "call1_transmit ch req rc = (out, rc') \<Longrightarrow> rpcc_step (rc, A) (rc', A)"
| reply: "unpack_reply_header (unmarshall_of_buf b sz) = (h, rep) \<Longrightarrow> u_ok rep \<Longrightarrow> rp_xid h < rc_xid rc \<Longrightarrow>
    rpcc_step (rc, A) (got_pdu b sz rc, insert (rp_xid h) A)"
| junk: "unpack_reply_header (unmarshall_of_buf b sz) = (h, rep) \<Longrightarrow> \<not> u_ok rep \<Longrightarrow>
    rpcc_step (rc, A) (got_pdu b sz rc, A)"
| cancel: "rpcc_step (rc, A) (cancel_mark rc, A)"
| bind: "rpcc_step (rc, A) (bind_result ret r rc, A)"
| finish: "map_of (rc_calls rc) xid = Some ca \<Longrightarrow> rpcc_step (rc, A) (call1_finish xid rc, insert xid A)"
| remember: "rpcc_step (rc, A) (call1_remember dn req xid xid_rep rc, A)"

definition rpcc_init :: "rpcc \<times> u32 set \<Rightarrow> bool" where
  "rpcc_init s \<longleftrightarrow> (\<exists>rnd lossy retrans. s = (rpcc_new rnd lossy retrans, {}))"

definition rpcc_inv :: "rpcc \<times> u32 set \<Rightarrow> bool" where
  "rpcc_inv s \<longleftrightarrow> (case s of (rc, A) \<Rightarrow>
     xid_window (rc_xid_rep_window rc) \<and> answered (rc_xid_rep_window rc) = insert 0 A \<and>
     0 < rc_xid rc \<and> (\<forall>x \<in> A. x < rc_xid rc) \<and> (\<forall>x \<in> dom (map_of (rc_calls rc)). x < rc_xid rc))"

lemma less_succ: "(a :: u32) < b \<Longrightarrow> b + 1 \<noteq> 0 \<Longrightarrow> a < b + 1"
  using unatSuc [of b] by (auto simp: word_less_nat_alt add.commute)

lemma succ_self: "(b :: u32) + 1 \<noteq> 0 \<Longrightarrow> b < b + 1"
  using unatSuc [of b] by (auto simp: word_less_nat_alt add.commute)

lemma rpcc_inv_frame:
  assumes "rpcc_inv (rc, A)" "rc_xid_rep_window rc' = rc_xid_rep_window rc" "rc_xid rc' = rc_xid rc"
    "dom (map_of (rc_calls rc')) \<subseteq> dom (map_of (rc_calls rc))"
  shows "rpcc_inv (rc', A)"
  using assms(1-3) by (auto simp: rpcc_inv_def dest: subsetD [OF assms(4) domI])

lemma rpcc_inv_update:
  assumes "rpcc_inv (rc, A)" "x < rc_xid rc" "rc_xid rc' = rc_xid rc"
    "rc_xid_rep_window rc' = update_xid_rep x (rc_xid_rep_window rc)"
    "dom (map_of (rc_calls rc')) \<subseteq> dom (map_of (rc_calls rc))"
  shows "rpcc_inv (rc', insert x A)"
  using assms(1-4) update_window [of "rc_xid_rep_window rc" x]
  by (auto simp: rpcc_inv_def dest: subsetD [OF assms(5) domI])

lemma dom_map_entries: "dom (map_of (map (\<lambda>(x, ca). (x, g ca)) m)) = dom (map_of m)"
  by (force simp: dom_map_of_conv_image_fst)

lemma rpcc_inv_start:
  assumes "rpcc_inv (rc, A)" "call1_start proc req rep rc = (Inr (h, m), rc')" "rc_xid rc + 1 \<noteq> 0"
  shows "rpcc_inv (rc', A)"
proof -
  have "rc' = rc\<lparr>rc_xid := rc_xid rc + 1,
      rc_calls := smap_set (rc_xid rc) (caller_new (rc_xid rc) rep) (rc_calls rc)\<rparr>"
    using assms(2) by (auto simp: call1_start_def Let_def split: if_splits)
  with assms(1,3) show ?thesis
    by (auto simp: rpcc_inv_def less_succ succ_self)
qed

interpretation client: invariant_system rpcc_init rpcc_step rpcc_inv
proof
  fix s
  assume "rpcc_init s"
  then show "rpcc_inv s"
    by (auto simp: rpcc_init_def rpcc_inv_def rpcc_new_def xid_window_init answered_def)
next
  fix s t
  assume "rpcc_inv s" "rpcc_step s t"
  from this(2,1) show "rpcc_inv t"
  proof (induction rule: rpcc_step.induct)
    case (start proc req rep rc h m rc' A)
    then show ?case by (blast intro: rpcc_inv_start)
  next
    case (transmit ch req rc out rc' A)
    then show ?case
      by (elim rpcc_inv_frame) (auto simp: call1_transmit_def split: if_splits option.splits)
  next
    case (reply b sz h rep rc A)
    then show ?case
      by (elim rpcc_inv_update) (auto simp: got_pdu_def Let_def split: option.splits)
  next
    case (cancel rc A)
    then show ?case
      by (elim rpcc_inv_frame) (auto simp: cancel_mark_def Let_def dom_map_entries)
  next
    case (finish rc xid ca A)
    then have "xid < rc_xid rc" by (auto simp: rpcc_inv_def)
    with finish show ?case
      by (elim rpcc_inv_update) (auto simp: call1_finish_def)
  next
    case (remember rc A dn req xid xid_rep)
    then show ?case by (elim rpcc_inv_frame) (auto simp: call1_remember_def Let_def)
  qed (auto simp: got_pdu_def bind_result_def elim: rpcc_inv_frame)
qed

lemma less_no_wrap: "(a :: u32) < b \<Longrightarrow> a + 1 \<noteq> 0"
proof
  assume "a < b" "a + 1 = 0"
  then have "a = - 1" by (simp add: eq_neg_iff_add_eq_0)
  with \<open>a < b\<close> show False by simp
qed

lemma hd_succ_not_answered:
  assumes "xid_window w" "hd w + 1 \<noteq> 0"
  shows "hd w + 1 \<notin> answered w"
  using assms succ_self [OF assms(2)] by (auto simp: xid_window_def answered_def)

section \<open>Properties\<close>

text \<open>
  C11: the acknowledgement in every request header is exact: \<^verbatim>\<open>xid_rep\<close> is smaller than the
  request's own xid, every xid from 1 up to it has been answered or given up, and the next
  one has not, so the server may forget exactly what it is told to forget.
\<close>

theorem request_acknowledges_exactly:
  assumes "reach rpcc_init rpcc_step (rc, A)" and "call1_start proc req rep rc = (Inr (h, m), rc')"
  shows "rq_xid_rep h < rq_xid h \<and> rq_xid h \<notin> A \<and>
     (\<forall>x. 0 < x \<and> x \<le> rq_xid_rep h \<longrightarrow> x \<in> A) \<and> rq_xid_rep h + 1 \<notin> A"
proof -
  have h: "rq_xid_rep h = hd (rc_xid_rep_window rc)" "rq_xid h = rc_xid rc"
    using assms(2) by (auto simp: call1_start_def Let_def split: if_splits)
  have inv: "rpcc_inv (rc, A)" by (rule client.reach_inv [OF assms(1)])
  let ?w = "rc_xid_rep_window rc"
  have ans: "answered ?w = insert 0 A" and win: "xid_window ?w" using inv by (auto simp: rpcc_inv_def)
  have "hd ?w \<in> answered ?w" by (simp add: answered_def)
  then have less: "hd ?w < rc_xid rc" using inv ans by (auto simp: rpcc_inv_def)
  have "rc_xid rc \<notin> A" using inv by (auto simp: rpcc_inv_def)
  moreover have "hd ?w + 1 \<noteq> 0" by (rule less_no_wrap [OF less])
  then have "hd ?w + 1 \<notin> A" using hd_succ_not_answered [OF win] ans by auto
  moreover have "x \<in> A" if "0 < x" "x \<le> hd ?w" for x
  proof -
    have "x \<in> insert 0 A" unfolding ans [symmetric] using that by (simp add: answered_def)
    with that(1) show ?thesis by auto
  qed
  ultimately show ?thesis using h less by simp
qed

lemma rpcc_after_bind:
  "reach rpcc_init rpcc_step (call1_finish 1 (bind_result 0 9 (snd (call1_start rpc_bind marshall_new unmarshall_new (rpcc_new 5 0 True)))), {1})"
proof -
  let ?r0 = "rpcc_new 5 0 True"
  let ?r1 = "snd (call1_start rpc_bind marshall_new unmarshall_new ?r0)"
  have "reach rpcc_init rpcc_step (?r0, {})"
    by (rule reach_init) (auto simp: rpcc_init_def)
  moreover have "rpcc_step (?r0, {}) (?r1, {})"
    by (rule rpcc_step.start [of rpc_bind marshall_new unmarshall_new])
       (auto simp: call1_start_def rpcc_new_def rpc_bind_def Let_def)
  ultimately have "reach rpcc_init rpcc_step (?r1, {})" by (rule reach_step)
  then have "reach rpcc_init rpcc_step (bind_result 0 9 ?r1, {})"
    by (rule reach_step) (rule rpcc_step.bind)
  moreover have "rpcc_step (bind_result 0 9 ?r1, {}) (call1_finish 1 (bind_result 0 9 ?r1), {1})"
    by (rule rpcc_step.finish [of _ 1 "caller_new 1 unmarshall_new"])
       (simp add: call1_start_def rpcc_new_def rpc_bind_def bind_result_def Let_def)
  ultimately show ?thesis by (rule reach_step)
qed

theorem request_acknowledges_exactly_witness:
  "\<exists>rc h m rc'. reach rpcc_init rpcc_step (rc, {1}) \<and>
     call1_start 2 marshall_new unmarshall_new rc = (Inr (h, m), rc') \<and>
     rq_xid h = 2 \<and> rq_xid_rep h < rq_xid h \<and> rq_xid_rep h + 1 \<notin> {1}"
proof -
  let ?rc = "call1_finish 1 (bind_result 0 9 (snd (call1_start rpc_bind marshall_new unmarshall_new (rpcc_new 5 0 True))))"
  obtain h m rc' where c: "call1_start 2 marshall_new unmarshall_new ?rc = (Inr (h, m), rc')" and x: "rq_xid h = 2"
    by (auto simp: call1_start_def call1_finish_def bind_result_def rpcc_new_def rpc_bind_def Let_def)
  from request_acknowledges_exactly [OF rpcc_after_bind c] c x rpcc_after_bind show ?thesis by blast
qed

text \<open>
  Replies are matched to calls by xid and the first one wins: processing a reply changes no
  other pending call, delivers to a pending call that has no reply yet the return code and the
  reply body, and leaves a call that already has one untouched.
\<close>

theorem reply_reaches_its_caller:
  assumes "unpack_reply_header (unmarshall_of_buf b sz) = (h, rep)" and "u_ok rep"
    and "map_of (rc_calls rc) (rp_xid h) = Some ca"
  shows "(\<forall>x. x \<noteq> rp_xid h \<longrightarrow> map_of (rc_calls (got_pdu b sz rc)) x = map_of (rc_calls rc) x) \<and>
     (\<exists>ca'. map_of (rc_calls (got_pdu b sz rc)) (rp_xid h) = Some ca' \<and>
        (if ca_done ca then ca' = ca
         else call1_result ca' = Inr (rp_ret h) \<and> u_buf (ca_un ca') = u_buf rep \<and> u_ind (ca_un ca') = RPC_HEADER_SZ))"
  using assms
  by (auto simp: got_pdu_def got_reply_def call1_result_def take_in_def u_take_buf_def Let_def)

theorem reply_reaches_its_caller_witness:
  "\<exists>ca'. map_of (rc_calls (got_pdu ([0, 0, 0, 24] @ enc_reply_header \<lparr>rp_xid = 3, rp_ret = 6\<rparr> @ replicate 12 0) 24
       ((rpcc_new 5 0 True)\<lparr>rc_calls := [(3, caller_new 3 unmarshall_new)]\<rparr>))) 3 = Some ca' \<and> call1_result ca' = Inr 6"
proof -
  let ?b = "[0, 0, 0, 24] @ enc_reply_header \<lparr>rp_xid = 3, rp_ret = 6\<rparr> @ replicate 12 0"
  have "reads ((unmarshall_of_buf ?b 24)\<lparr>u_ind := 4\<rparr>) (enc_reply_header \<lparr>rp_xid = 3, rp_ret = 6\<rparr> @ replicate 12 0 @ [])"
    using reads_of_buf [of "[0, 0, 0, 24]" 4 "enc_reply_header \<lparr>rp_xid = 3, rp_ret = 6\<rparr> @ replicate 12 0"]
    by (simp add: enc_reply_header_def)
  from unpack_reply_reads [OF this]
  have "unpack_reply_header (unmarshall_of_buf ?b 24) = (\<lparr>rp_xid = 3, rp_ret = 6\<rparr>, (unmarshall_of_buf ?b 24)\<lparr>u_ind := 24\<rparr>)"
    by simp
  from reply_reaches_its_caller [OF this, of "(rpcc_new 5 0 True)\<lparr>rc_calls := [(3, caller_new 3 unmarshall_new)]\<rparr>"]
  show ?thesis by (auto simp: unmarshall_of_buf_def caller_new_def)
qed







section \<open>The channel of a client\<close>

text \<open>
  \<^verbatim>\<open>get_refconn\<close>: \<open>chan\<close> is \<^verbatim>\<open>chan_\<close>, \<open>ch\<close> the caller's \<^verbatim>\<open>*ch\<close>, \<open>fresh\<close> what \<^verbatim>\<open>connect_to_dst\<close> returns (a
  connection that already carries one reference, or null), and \<open>refs\<close> the reference counts.
\<close>

definition add_ref :: "nat \<Rightarrow> int \<Rightarrow> (nat \<Rightarrow> int) \<Rightarrow> nat \<Rightarrow> int" where
  "add_ref c d refs = refs(c := refs c + d)"

definition get_refconn ::
  "(nat \<Rightarrow> bool) \<Rightarrow> nat option \<Rightarrow> nat option \<Rightarrow> nat option \<Rightarrow> (nat \<Rightarrow> int) \<Rightarrow>
   nat option \<times> nat option \<times> (nat \<Rightarrow> int)" where
  "get_refconn isdead fresh chan ch refs =
     (let (chan, refs) =
            (if chan = None \<or> isdead (the chan)
             then (fresh, (case chan of None \<Rightarrow> refs | Some c \<Rightarrow> add_ref c (- 1) refs))
             else (chan, refs))
      in case chan of
           None \<Rightarrow> (chan, ch, refs)
         | Some c \<Rightarrow> (chan, Some c, add_ref c 1 (case ch of None \<Rightarrow> refs | Some o' \<Rightarrow> add_ref o' (- 1) refs)))"

end
