(* ===== verification/Rpc_Amo.thy ===== *)
theory Rpc_Amo
  imports Rpc_Server
begin

text \<open>
  At-most-once execution of the RPC server: how \<^verbatim>\<open>dispatch\<close> moves the reply windows, the
  transition system of many dispatching threads, and what the window guarantees.
\<close>

section \<open>How dispatch moves the windows\<close>

definition window :: "'s world \<Rightarrow> u32 \<Rightarrow> reply_t list" where
  "window w n = (case map_of (rs_reply_window (w_srv w)) n of None \<Rightarrow> [] | Some v \<Rightarrow> v)"

lemma refs_frame [simp]:
  "w_srv (incref c w) = w_srv w" "w_srv (decref c w) = w_srv w"
  "w_srv (send_pdu c b sz w) = w_srv w" "w_srv (send_error c x r w) = w_srv w"
  by (simp_all add: incref_def decref_def send_pdu_def send_error_def Let_def)

lemma save_conn_frame [simp]:
  "rs_reply_window (w_srv (save_conn c n w)) = rs_reply_window (w_srv w)"
  "rs_counting (w_srv (save_conn c n w)) = rs_counting (w_srv w)"
  by (simp_all add: save_conn_def Let_def split: option.split)

lemma updatestat_frame [simp]: "rs_reply_window (updatestat p s) = rs_reply_window s"
  by (simp add: updatestat_def Let_def)

lemma know_client_known [simp]:
  "map_of (rs_reply_window (know_client n s)) n =
     Some (case map_of (rs_reply_window s) n of None \<Rightarrow> [] | Some v \<Rightarrow> v)"
  "m \<noteq> n \<Longrightarrow> map_of (rs_reply_window (know_client n s)) m = map_of (rs_reply_window s) m"
  by (auto simp: know_client_def split: option.split)

lemma window_frame [simp]:
  "window (incref c w) = window w" "window (decref c w) = window w"
  "window (send_pdu c b sz w) = window w" "window (send_error c x r w) = window w"
  "window (w\<lparr>w_srv := updatestat p (w_srv w)\<rparr>) = window w"
  "window (w\<lparr>w_app := a\<rparr>) = window w"
  by (simp_all add: fun_eq_iff window_def)

lemma dispatch_stat_window:
  assumes "rq_clt_nonce h \<noteq> 0"
  shows "\<exists>w'. dispatch_stat c h w = Inr (fst (check_window (rq_xid h) (rq_xid_rep h) (window w (rq_clt_nonce h))), w') \<and>
     window w' = (window w)(rq_clt_nonce h := snd (check_window (rq_xid h) (rq_xid_rep h) (window w (rq_clt_nonce h))))"
  using assms
  by (auto simp: dispatch_stat_def checkduplicate_and_update_def window_def Let_def split_beta fun_eq_iff
      split: option.split)

text \<open>What a request does to the windows, by the outcome of its duplicate check.\<close>

definition hdr_of :: "u8 list \<Rightarrow> nat \<Rightarrow> req_header" where
  "hdr_of buf sz = fst (unpack_req_header (unmarshall_of_buf buf sz))"

lemma enter_Run_hdr: "dispatch_enter c buf sz w = Inr (Run f h req, w') \<Longrightarrow> h = hdr_of buf sz"
  by (auto simp: dispatch_enter_def hdr_of_def split_beta Let_def res_bind_eq_Inr_iff
      split: if_splits option.splits rpcstate_t.splits)

lemma enter_Run:
  assumes "dispatch_enter c buf sz w = Inr (Run f h req, w')" and "rq_clt_nonce h \<noteq> 0"
  shows "fst (fst (check_window (rq_xid h) (rq_xid_rep h) (window w (rq_clt_nonce h)))) = NEW" and
    "window w' = (window w)(rq_clt_nonce h := snd (check_window (rq_xid h) (rq_xid_rep h) (window w (rq_clt_nonce h))))"
proof -
  have h: "h = hdr_of buf sz" by (rule enter_Run_hdr [OF assms(1)])
  obtain w1 where w1: "dispatch_stat c h w =
      Inr (fst (check_window (rq_xid h) (rq_xid_rep h) (window w (rq_clt_nonce h))), w1)"
    and win: "window w1 = (window w)(rq_clt_nonce h := snd (check_window (rq_xid h) (rq_xid_rep h) (window w (rq_clt_nonce h))))"
    using dispatch_stat_window [OF assms(2), of c w] by blast
  have "fst (fst (check_window (rq_xid h) (rq_xid_rep h) (window w (rq_clt_nonce h)))) = NEW \<and> window w' = window w1"
    using assms(1) w1 unfolding h hdr_of_def
    by (auto simp: dispatch_enter_def split_beta Let_def split: if_splits option.splits rpcstate_t.splits)
  with win show "fst (fst (check_window (rq_xid h) (rq_xid_rep h) (window w (rq_clt_nonce h)))) = NEW"
    "window w' = (window w)(rq_clt_nonce h := snd (check_window (rq_xid h) (rq_xid_rep h) (window w (rq_clt_nonce h))))"
    by simp_all
qed

lemma enter_Run_anonymous:
  assumes "dispatch_enter c buf sz w = Inr (Run f h req, w')" and "rq_clt_nonce h = 0"
  shows "window w' = window w"
  using assms enter_Run_hdr [OF assms(1)]
  by (auto simp: dispatch_enter_def dispatch_stat_def hdr_of_def split_beta Let_def split: if_splits option.splits)

lemma enter_Finished:
  assumes "dispatch_enter c buf sz w = Inr (Finished, w')"
  shows "window w' = window w \<or>
    (let h = hdr_of buf sz; r = check_window (rq_xid h) (rq_xid_rep h) (window w (rq_clt_nonce h))
     in rq_clt_nonce h \<noteq> 0 \<and> fst (fst r) \<noteq> NEW \<and> window w' = (window w)(rq_clt_nonce h := snd r))"
proof (cases "rq_clt_nonce (hdr_of buf sz) = 0")
  case True
  then show ?thesis
    using assms
    by (auto simp: dispatch_enter_def dispatch_stat_def hdr_of_def split_beta Let_def split: if_splits option.splits)
next
  case False
  let ?h = "hdr_of buf sz"
  let ?r = "check_window (rq_xid ?h) (rq_xid_rep ?h) (window w (rq_clt_nonce ?h))"
  obtain w1 where w1: "dispatch_stat c ?h w = Inr (fst ?r, w1)"
    and win: "window w1 = (window w)(rq_clt_nonce ?h := snd ?r)"
    using dispatch_stat_window [OF False, of c w] by blast
  have "window w' = window w \<or> fst (fst ?r) \<noteq> NEW \<and> window w' = window w1"
    using assms w1 unfolding hdr_of_def
    by (auto simp: dispatch_enter_def split_beta Let_def split: if_splits option.splits rpcstate_t.splits)
  with win False show ?thesis by (auto simp: Let_def)
qed

lemma pick_conn_window: "pick_conn isdead c n w = Inr (c', w') \<Longrightarrow> window w' = window w"
  by (auto simp: pick_conn_def split: if_splits option.splits)

lemma add_reply_window:
  "add_reply n x b sz (w_srv w) = Inr s \<Longrightarrow>
   window (w\<lparr>w_srv := s\<rparr>) = (window w)(n := window w n @ [done_reply x b sz])"
  by (auto simp: add_reply_def window_def fun_eq_iff split: option.splits)

definition reply_of :: "req_header \<Rightarrow> i32 \<Rightarrow> marshall \<Rightarrow> u8 option list \<times> nat" where
  "reply_of h ret rep = fst (m_take_buf (pack_reply_header \<lparr>rp_xid = rq_xid h, rp_ret = ret\<rparr> rep))"

lemma leave_window:
  assumes "dispatch_leave isdead c h ret rep w = Inr w'"
  shows "window w' = (if rq_clt_nonce h = 0 then window w
     else (window w)(rq_clt_nonce h :=
       window w (rq_clt_nonce h) @ [done_reply (rq_xid h) (fst (reply_of h ret rep)) (snd (reply_of h ret rep))]))"
proof -
  have pos: "rq_clt_nonce h > 0 \<longleftrightarrow> rq_clt_nonce h \<noteq> 0" by (simp add: word_gt_0)
  show ?thesis
    using assms
    by (auto simp: dispatch_leave_def reply_of_def m_take_buf_def Let_def res_bind_eq_Inr_iff pos
        split: if_splits dest!: pick_conn_window add_reply_window)
qed

section \<open>Many threads dispatching\<close>

text \<open>
  The state of the endpoint with any number of worker threads: the world, the requests whose
  handler is running, and two histories that no code reads: the requests executed so far,
  and per client the largest \<^verbatim>\<open>xid_rep\<close> processed.
\<close>

record 's threads =
  th_world :: "'s world"
  th_running :: "(conn \<times> req_header) list"
  th_execd :: "req_header list"
  th_acked :: "u32 \<Rightarrow> u32"

definition threads_init :: "'s threads \<Rightarrow> bool" where
  "threads_init t \<longleftrightarrow> rs_reply_window (w_srv (th_world t)) = [] \<and> th_running t = [] \<and> th_execd t = [] \<and>
     th_acked t = (\<lambda>_. 0)"

definition ack :: "req_header \<Rightarrow> (u32 \<Rightarrow> u32) \<Rightarrow> u32 \<Rightarrow> u32" where
  "ack h a = a(rq_clt_nonce h := max (a (rq_clt_nonce h)) (rq_xid_rep h))"

text \<open>
  \<open>ok\<close> restricts which requests the network may deliver in a state; the rest of the rules is the
  code.
\<close>

inductive threads_step ::
  "('s threads \<Rightarrow> req_header \<Rightarrow> bool) \<Rightarrow> 's threads \<Rightarrow> 's threads \<Rightarrow> bool"
  for ok where
  begin_run:
    "dispatch_enter c buf sz (th_world t) = Inr (Run f h req, w') \<Longrightarrow> ok t h \<Longrightarrow>
     threads_step ok t (t\<lparr>th_world := w', th_running := (c, h) # th_running t,
       th_execd := th_execd t @ [h], th_acked := ack h (th_acked t)\<rparr>)"
| no_run:
    "dispatch_enter c buf sz (th_world t) = Inr (Finished, w') \<Longrightarrow> ok t (hdr_of buf sz) \<Longrightarrow>
     threads_step ok t (t\<lparr>th_world := w', th_acked := ack (hdr_of buf sz) (th_acked t)\<rparr>)"
| end_run:
    "(c, h) \<in> set (th_running t) \<Longrightarrow> dispatch_leave isdead c h ret rep ((th_world t)\<lparr>w_app := app\<rparr>) = Inr w' \<Longrightarrow>
     threads_step ok t (t\<lparr>th_world := w', th_running := remove1 (c, h) (th_running t)\<rparr>)"

definition execs :: "'s threads \<Rightarrow> u32 \<Rightarrow> u32 list" where
  "execs t n = map rq_xid (filter (\<lambda>h. rq_clt_nonce h = n) (th_execd t))"

definition xids :: "reply_t list \<Rightarrow> u32 set" where
  "xids w = rt_xid ` set w"

lemma xids_simps [simp]:
  "xids [] = {}" "xids (e # w) = insert (rt_xid e) (xids w)" "xids (v @ w) = xids v \<union> xids w"
  "rt_xid (reply_t_new x) = x" "rt_xid (done_reply x b sz) = x"
  by (auto simp: xids_def reply_t_new_def done_reply_def)

lemma xids_clean: "xids (clean_replies r w) = {x \<in> xids w. r \<le> x}"
  by (auto simp: xids_def clean_replies_def)

lemma scan_NEW: "fst (scan_replies x w st) = NEW \<longleftrightarrow> x \<notin> xids w \<and> st = NEW"
  by (induction x w st rule: scan_replies.induct) auto

lemma check_NEW:
  assumes "fst (fst (check_window x r w)) = NEW" and "w \<noteq> []"
  shows "x \<notin> xids (clean_replies r w)" and "xids (snd (check_window x r w)) = insert x (xids (clean_replies r w))"
  using assms by (auto simp: check_window_def Let_def scan_NEW split: if_splits)

lemma check_keeps: "y \<in> xids w \<Longrightarrow> r \<le> y \<Longrightarrow> y \<in> xids (snd (check_window x r w))"
  by (auto simp: check_window_def Let_def xids_clean)

lemma check_nonempty: "snd (check_window x r w) \<noteq> []"
proof (cases "fst (scan_replies x (clean_replies r w) NEW) = NEW")
  case False
  then have "clean_replies r w \<noteq> []" by auto
  then show ?thesis by (auto simp: check_window_def Let_def)
qed (auto simp: check_window_def Let_def)

section \<open>At most once, for requests the client still waits for\<close>

text \<open>
  A request arrives in time when the client has not acknowledged it yet: neither its own
  \<^verbatim>\<open>xid_rep\<close> nor any processed before it covers the request's xid.
\<close>

definition in_time :: "'s threads \<Rightarrow> req_header \<Rightarrow> bool" where
  "in_time t h \<longleftrightarrow> rq_xid_rep h \<le> rq_xid h \<and> th_acked t (rq_clt_nonce h) \<le> rq_xid h"

definition client_inv :: "reply_t list \<Rightarrow> u32 list \<Rightarrow> u32 \<Rightarrow> bool" where
  "client_inv w es a \<longleftrightarrow>
     (w = [] \<longrightarrow> es = []) \<and> distinct (tl es) \<and> (\<forall>x \<in> set (tl es). x \<in> xids w \<or> x < a)"

lemma client_inv_ack: "client_inv w es a \<Longrightarrow> client_inv w es (max a r)"
  by (auto simp: client_inv_def less_max_iff_disj)

lemma client_inv_done: "client_inv w es a \<Longrightarrow> client_inv (w @ [d]) es a"
  by (auto simp: client_inv_def)

lemma client_inv_check: "client_inv w es a \<Longrightarrow> client_inv (snd (check_window x r w)) es (max a r)"
  using check_keeps [of _ w r x] check_nonempty [of x r w]
  by (auto simp: client_inv_def less_max_iff_disj not_le [symmetric])

lemma client_inv_new:
  assumes "client_inv w es a" and new: "fst (fst (check_window x r w)) = NEW" and "r \<le> x" "a \<le> x"
  shows "client_inv (snd (check_window x r w)) (es @ [x]) (max a r)"
proof (cases "es = []")
  case True
  then show ?thesis using check_nonempty [of x r w] by (simp add: client_inv_def)
next
  case False
  then have "w \<noteq> []" using assms(1) by (auto simp: client_inv_def)
  note check_NEW [OF new this]
  then have "x \<notin> set (tl es)" "x \<in> xids (snd (check_window x r w))"
    using assms by (auto simp: client_inv_def xids_clean)
  with False client_inv_check [OF assms(1), of x r] show ?thesis
    by (auto simp: client_inv_def)
qed

definition amo_inv :: "'s threads \<Rightarrow> bool" where
  "amo_inv t \<longleftrightarrow> (\<forall>n. n \<noteq> 0 \<longrightarrow> client_inv (window (th_world t) n) (execs t n) (th_acked t n))"

lemma amo_inv_begin:
  assumes "amo_inv t" "dispatch_enter c buf sz (th_world t) = Inr (Run f h req, w')" "in_time t h"
  shows "amo_inv (t\<lparr>th_world := w', th_running := rs, th_execd := th_execd t @ [h], th_acked := ack h (th_acked t)\<rparr>)"
proof (cases "rq_clt_nonce h = 0")
  case True
  then show ?thesis
    using assms(1) enter_Run_anonymous [OF assms(2) True] by (auto simp: amo_inv_def execs_def ack_def)
next
  case False
  from enter_Run [OF assms(2) False] assms(1,3) False show ?thesis
    by (auto simp: amo_inv_def execs_def ack_def in_time_def intro: client_inv_new)
qed

lemma amo_inv_no_run:
  assumes "amo_inv t" "dispatch_enter c buf sz (th_world t) = Inr (Finished, w')"
  shows "amo_inv (t\<lparr>th_world := w', th_acked := ack (hdr_of buf sz) (th_acked t)\<rparr>)"
  using enter_Finished [OF assms(2)]
proof
  assume "window w' = window (th_world t)"
  with assms(1) show ?thesis by (auto simp: amo_inv_def execs_def ack_def intro: client_inv_ack)
next
  assume "let h = hdr_of buf sz; r = check_window (rq_xid h) (rq_xid_rep h) (window (th_world t) (rq_clt_nonce h))
    in rq_clt_nonce h \<noteq> 0 \<and> fst (fst r) \<noteq> NEW \<and> window w' = (window (th_world t))(rq_clt_nonce h := snd r)"
  with assms(1) show ?thesis
    by (auto simp: amo_inv_def execs_def ack_def Let_def intro: client_inv_check)
qed

interpretation amo: invariant_system threads_init "threads_step in_time" amo_inv
proof
  fix t :: "'s threads"
  assume "threads_init t"
  then show "amo_inv t" by (simp add: threads_init_def amo_inv_def client_inv_def execs_def)
next
  fix t t' :: "'s threads"
  assume "amo_inv t" "threads_step in_time t t'"
  from this(2,1) show "amo_inv t'"
  proof cases
    case (end_run c h isdead ret rep app w')
    with \<open>amo_inv t\<close> leave_window [OF end_run(3)] show ?thesis
      by (auto simp: amo_inv_def execs_def intro: client_inv_done)
  qed (auto intro: amo_inv_begin amo_inv_no_run)
qed

section \<open>At most once, for requests that arrive in order\<close>



lemma set_map_xid: "set (map rt_xid w) = xids w"
  by (simp add: xids_def)







lemma map_xid_clean: "map rt_xid (clean_replies r w) = filter (\<lambda>x. r \<le> x) (map rt_xid w)"
  by (induction w) (auto simp: clean_replies_def)







definition running :: "'s threads \<Rightarrow> u32 \<Rightarrow> u32 set" where
  "running t n = rq_xid ` {h. rq_clt_nonce h = n \<and> h \<in> snd ` set (th_running t)}"














section \<open>Concrete runs\<close>

text \<open>
  To exhibit runs of the endpoint, \<open>arrives ok xs es rn a\<close> says that some reachable state has, for
  the client with nonce 7, a window with the xids \<open>xs\<close>, executions \<open>es\<close>, running requests \<open>rn\<close> and
  acknowledgement \<open>a\<close>, in an endpoint that has one handler, number 1.
\<close>

definition the_conn :: conn where
  "the_conn = \<lparr>cn_id = 0, cn_sec = 0, cn_usec = 0\<rparr>"

definition req7 :: "u32 \<Rightarrow> u32 \<Rightarrow> req_header" where
  "req7 x r = \<lparr>rq_xid = x, rq_proc = 1, rq_clt_nonce = 7, rq_srv_nonce = 0, rq_xid_rep = r\<rparr>"

definition req_pdu :: "req_header \<Rightarrow> u8 list" where
  "req_pdu h = [0, 0, 0, 0] @ enc_req_header h"

definition arrives ::
  "(unit threads \<Rightarrow> req_header \<Rightarrow> bool) \<Rightarrow> u32 list \<Rightarrow> req_header list \<Rightarrow> req_header list \<Rightarrow> u32 \<Rightarrow> bool" where
  "arrives ok xs es rn a \<longleftrightarrow> (\<exists>t. reach threads_init (threads_step ok) t \<and>
     map rt_xid (window (th_world t) 7) = xs \<and> th_execd t = es \<and> th_running t = map (Pair the_conn) rn \<and>
     th_acked t 7 = a \<and> map_of (rs_procs (w_srv (th_world t))) 1 \<noteq> None)"

lemma unpack_req_pdu: "\<exists>u. unpack_req_header (unmarshall_of_buf (req_pdu h) 24) = (h, u) \<and> u_ok u"
proof -
  have "length (enc_req_header h) = 20" by (simp add: enc_req_header_def)
  then have "reads ((unmarshall_of_buf (req_pdu h) 24)\<lparr>u_ind := 4\<rparr>) (enc_req_header h @ [])"
    using reads_of_buf [of "[0, 0, 0, 0]" 4 "enc_req_header h"] by (simp add: req_pdu_def)
  from unpack_req_reads [OF this] show ?thesis by (auto dest: reads_ok)
qed

lemma save_conn_procs [simp]: "rs_procs (w_srv (save_conn c n w)) = rs_procs (w_srv w)"
  by (simp add: save_conn_def Let_def split: option.split)

lemma know_client_procs [simp]: "rs_procs (know_client n s) = rs_procs s"
  by (simp add: know_client_def)

lemma dispatch_stat_procs: "dispatch_stat c h w = Inr (r, w') \<Longrightarrow> rs_procs (w_srv w') = rs_procs (w_srv w)"
  by (auto simp: dispatch_stat_def Let_def res_bind_eq_Inr_iff checkduplicate_and_update_def
      split: if_splits option.splits prod.splits)

lemma enter_new:
  assumes "map_of (rs_procs (w_srv w)) (rq_proc h) = Some f" and "rq_srv_nonce h = 0" and "rq_clt_nonce h \<noteq> 0"
    and "fst (fst (check_window (rq_xid h) (rq_xid_rep h) (window w (rq_clt_nonce h)))) = NEW"
  shows "\<exists>req w'. dispatch_enter c (req_pdu h) 24 w = Inr (Run f h req, w') \<and> rs_procs (w_srv w') = rs_procs (w_srv w)"
proof -
  obtain u where u: "unpack_req_header (unmarshall_of_buf (req_pdu h) 24) = (h, u)" "u_ok u"
    using unpack_req_pdu by blast
  obtain w' r where w': "dispatch_stat c h w = Inr (r, w')" and "fst r = NEW"
    using dispatch_stat_window [OF assms(3), of c w] assms(4) by blast
  then show ?thesis
    using u assms(1,2) dispatch_stat_procs [OF w']
    by (cases r) (auto simp: dispatch_enter_def updatestat_def Let_def)
qed

lemma check_NEW_iff:
  "fst (fst (check_window x r w)) = NEW \<longleftrightarrow> w = [] \<or> \<not> x < min_xid x w \<and> (x \<notin> xids w \<or> x < r)"
  by (auto simp: check_window_def Let_def scan_NEW xids_clean)

lemma min_xid_map: "min_xid x w = fold (\<lambda>y m. if y < m then x else m) (map rt_xid w) (rt_xid (hd w))"
  by (simp add: min_xid_def fold_map comp_def)

definition fresh_xid :: "u32 \<Rightarrow> u32 \<Rightarrow> u32 list \<Rightarrow> bool" where
  "fresh_xid x r xs \<longleftrightarrow> xs = [] \<or>
     \<not> x < fold (\<lambda>y m. if y < m then x else m) xs (hd xs) \<and> (x \<notin> set xs \<or> x < r)"

lemma fresh_xid_check: "fst (fst (check_window x r w)) = NEW \<longleftrightarrow> fresh_xid x r (map rt_xid w)"
  by (cases w) (simp_all add: check_NEW_iff fresh_xid_def min_xid_map set_map_xid [symmetric])

lemma map_xid_check:
  "fst (fst (check_window x r w)) = NEW \<Longrightarrow> map rt_xid (snd (check_window x r w)) =
     (if w = [] then [0] else filter (\<lambda>y. r \<le> y) (map rt_xid w) @ [x])"
  by (auto simp: check_window_def Let_def map_xid_clean split: if_splits)

lemma arrives_init: "arrives ok [] [] [] 0"
proof -
  let ?s = "\<lparr>rs_nonce = 1, rs_reply_window = [], rs_conns = [], rs_counting = 0, rs_curr_counts = 0,
    rs_counts = [], rs_lossytest = 0, rs_reachable = True, rs_procs = [(1, \<lambda>u m s. Inr (0, m, s))]\<rparr>"
  let ?t = "\<lparr>th_world = \<lparr>w_srv = ?s, w_app = (), w_refs = \<lambda>_. 0, w_sent = []\<rparr>, th_running = [],
    th_execd = [], th_acked = \<lambda>_. 0\<rparr>"
  have "reach threads_init (threads_step ok) ?t" by (rule reach_init) (simp add: threads_init_def)
  then show ?thesis unfolding arrives_def by (intro exI [of _ ?t]) (simp add: window_def)
qed

lemma arrives_run:
  assumes "arrives ok xs es rn a" and "fresh_xid x r xs"
    and "\<And>t. th_execd t = es \<Longrightarrow> th_running t = map (Pair the_conn) rn \<Longrightarrow> th_acked t 7 = a \<Longrightarrow> ok t (req7 x r)"
  shows "arrives ok (if xs = [] then [0] else filter (\<lambda>y. r \<le> y) xs @ [x]) (es @ [req7 x r]) (req7 x r # rn) (max a r)"
proof -
  obtain t where t: "reach threads_init (threads_step ok) t" "map rt_xid (window (th_world t) 7) = xs"
    "th_execd t = es" "th_running t = map (Pair the_conn) rn" "th_acked t 7 = a"
    "map_of (rs_procs (w_srv (th_world t))) 1 \<noteq> None"
    using assms(1) by (auto simp: arrives_def)
  have new: "fst (fst (check_window x r (window (th_world t) 7))) = NEW"
    using assms(2) t(2) by (simp add: fresh_xid_check)
  have "\<exists>f req w'. dispatch_enter the_conn (req_pdu (req7 x r)) 24 (th_world t) = Inr (Run f (req7 x r) req, w') \<and>
      rs_procs (w_srv w') = rs_procs (w_srv (th_world t))"
    using t(6) enter_new [of "th_world t" "req7 x r" _ the_conn] new by (auto simp: req7_def)
  then obtain f req w' where e: "dispatch_enter the_conn (req_pdu (req7 x r)) 24 (th_world t) = Inr (Run f (req7 x r) req, w')"
    and p: "rs_procs (w_srv w') = rs_procs (w_srv (th_world t))" by blast
  let ?t = "t\<lparr>th_world := w', th_running := (the_conn, req7 x r) # th_running t,
       th_execd := th_execd t @ [req7 x r], th_acked := ack (req7 x r) (th_acked t)\<rparr>"
  have "reach threads_init (threads_step ok) ?t"
    by (rule reach_step [OF t(1)], rule begin_run [OF e]) (rule assms(3) [OF t(3-5)])
  moreover have "map rt_xid (window w' 7) = (if xs = [] then [0] else filter (\<lambda>y. r \<le> y) xs @ [x])"
    using enter_Run(2) [OF e] map_xid_check [OF new] t(2) by (auto simp: req7_def)
  ultimately show ?thesis
    using t p unfolding arrives_def by (intro exI [of _ ?t]) (auto simp: req7_def ack_def)
qed

lemma leave_ok:
  assumes "rq_clt_nonce h \<noteq> 0" "window w (rq_clt_nonce h) \<noteq> []"
  shows "\<exists>w'. dispatch_leave (\<lambda>_. False) c h 0 marshall_new w = Inr w' \<and> rs_procs (w_srv w') = rs_procs (w_srv w)"
  using assms
  by (auto simp: dispatch_leave_def unmarshal_args_failure_def m_take_buf_def Let_def add_reply_def
      pick_conn_def window_def word_gt_0 split: option.splits)

lemma arrives_done:
  assumes "arrives ok xs es (pre @ req7 x r # post) a" and "xs \<noteq> []" and "req7 x r \<notin> set pre"
  shows "arrives ok (xs @ [x]) es (pre @ post) a"
proof -
  obtain t where t: "reach threads_init (threads_step ok) t" "map rt_xid (window (th_world t) 7) = xs"
    "th_execd t = es" "th_running t = map (Pair the_conn) (pre @ req7 x r # post)" "th_acked t 7 = a"
    "map_of (rs_procs (w_srv (th_world t))) 1 \<noteq> None"
    using assms(1) by (auto simp: arrives_def)
  let ?w = "(th_world t)\<lparr>w_app := ()\<rparr>"
  have "window ?w 7 \<noteq> []" using t(2) assms(2) by auto
  then obtain w' where l: "dispatch_leave (\<lambda>_. False) the_conn (req7 x r) 0 marshall_new ?w = Inr w'"
    and p: "rs_procs (w_srv w') = rs_procs (w_srv ?w)"
    using leave_ok [of "req7 x r" ?w the_conn] by (auto simp: req7_def)
  have mem: "(the_conn, req7 x r) \<in> set (th_running t)" using t(4) by simp
  let ?t = "t\<lparr>th_world := w', th_running := remove1 (the_conn, req7 x r) (th_running t)\<rparr>"
  have "reach threads_init (threads_step ok) ?t"
    by (rule reach_step [OF t(1)], rule end_run [OF mem l])
  moreover have "map rt_xid (window w' 7) = xs @ [x]"
    using leave_window [OF l] t(2) by (simp add: req7_def done_reply_def reply_t_new_def)
  ultimately show ?thesis
    using t p assms(3) unfolding arrives_def by (intro exI [of _ ?t]) (auto simp: remove1_append)
qed

lemma arrives_E:
  assumes "arrives ok xs es rn a"
  obtains t where "reach threads_init (threads_step ok) t" "execs t 7 = map rq_xid (filter (\<lambda>h. rq_clt_nonce h = 7) es)"
  using assms by (auto simp: arrives_def execs_def)

lemmas in_time_run = arrives_run [where ok = in_time]

lemma in_time_1_2: "arrives in_time [1, 2, 2] [req7 1 0, req7 2 1] [] 1"
proof -
  have "arrives in_time [0] [req7 1 0] [req7 1 0] 0"
    using in_time_run [OF arrives_init, of 1 0] by (simp add: fresh_xid_def in_time_def req7_def)
  then have "arrives in_time [0, 1] [req7 1 0] [] 0"
    using arrives_done [of in_time "[0]" _ "[]" 1 0 "[]"] by simp
  from in_time_run [OF this, of 2 1] have "arrives in_time [1, 2] [req7 1 0, req7 2 1] [req7 2 1] 1"
    by (simp add: fresh_xid_def in_time_def req7_def)
  then show ?thesis using arrives_done [of in_time "[1, 2]" _ "[]" 2 1 "[]"] by simp
qed

section \<open>Properties\<close>

text \<open>
  C1: at-most-once execution.  With any number of threads dispatching in any interleaving, if
  every request is delivered only while its client has not acknowledged it (duplicates and
  reordering allowed), then for every client that asked for at-most-once semantics (nonce
  not 0) no xid is executed twice; only the very first execution of the client is not
  remembered and so not covered.
\<close>

theorem at_most_once:
  assumes "reach threads_init (threads_step in_time) t" and "n \<noteq> 0"
  shows "distinct (tl (execs t n))"
  using amo.reach_inv [OF assms(1)] assms(2) by (auto simp: amo_inv_def client_inv_def)

theorem at_most_once_witness:
  "\<exists>t :: unit threads. reach threads_init (threads_step in_time) t \<and> execs t 7 = [1, 2] \<and> distinct (tl (execs t 7))"
proof -
  obtain t :: "unit threads" where t: "reach threads_init (threads_step in_time) t"
    "execs t 7 = map rq_xid (filter (\<lambda>h. rq_clt_nonce h = 7) [req7 1 0, req7 2 1])"
    by (rule arrives_E [OF in_time_1_2])
  with at_most_once [OF t(1), of 7] show ?thesis by (auto simp: req7_def)
qed




text \<open>
  The exception in the previous two statements is real: the window of a new client is
  created with a placeholder for xid 0 and not with the request, so a retransmission of a
  client's first request that arrives while the first copy is running is executed too.
\<close>

theorem first_request_runs_twice:
  "\<exists>t :: unit threads. reach threads_init (threads_step in_time) t \<and> execs t 7 = [1, 1]"
proof -
  have "arrives in_time [0] [req7 1 0] [req7 1 0] 0"
    using in_time_run [OF arrives_init, of 1 0] by (simp add: fresh_xid_def in_time_def req7_def)
  from in_time_run [OF this, of 1 0] have "arrives in_time [0, 1] [req7 1 0, req7 1 0] [req7 1 0, req7 1 0] 0"
    by (simp add: fresh_xid_def in_time_def req7_def)
  then show ?thesis by (rule arrives_E) (auto simp: req7_def)
qed

text \<open>
  A client that behaves as \<^verbatim>\<open>rpcc\<close> does: it acknowledges only requests whose replies it has
  (all xids up to \<^verbatim>\<open>xid_rep\<close> were executed and none of them is running), and a second
  delivery of an xid is a copy of the first.
\<close>

definition honest :: "'s threads \<Rightarrow> req_header \<Rightarrow> bool" where
  "honest t h \<longleftrightarrow> rq_xid_rep h < rq_xid h \<and>
     (\<forall>x. 0 < x \<and> x \<le> rq_xid_rep h \<longrightarrow>
        x \<in> set (execs t (rq_clt_nonce h)) \<and> x \<notin> running t (rq_clt_nonce h)) \<and>
     (rq_xid h \<in> set (execs t (rq_clt_nonce h)) \<longrightarrow> h \<in> set (th_execd t))"

lemma small_words:
  "0 < (x :: u32) \<and> x \<le> 1 \<longleftrightarrow> x = 1"
  "0 < (x :: u32) \<and> x \<le> 2 \<longleftrightarrow> x = 1 \<or> x = 2"
  "0 < (x :: u32) \<and> x \<le> 3 \<longleftrightarrow> x = 1 \<or> x = 2 \<or> x = 3"
  "\<not> (2 :: u32) \<le> 1"
  by (auto simp: word_less_nat_alt word_le_nat_alt word_unat_eq_iff)

lemma running_code: "running t n = set (map (rq_xid \<circ> snd) (filter (\<lambda>ch. rq_clt_nonce (snd ch) = n) (th_running t)))"
  by (force simp: running_def)

lemma honest_replay: "arrives honest [4, 3, 4, 3, 5, 2]
    [req7 1 0, req7 2 1, req7 4 2, req7 3 2, req7 5 3, req7 2 1] [req7 2 1, req7 5 3] 3"
proof -
  note run = arrives_run [where ok = honest] and hs = fresh_xid_def honest_def execs_def running_code
  have "arrives honest [0] [req7 1 0] [req7 1 0] 0"
    using run [OF arrives_init, of 1 0] by (auto simp: hs req7_def)
  then have "arrives honest [0, 1] [req7 1 0] [] 0"
    using arrives_done [of honest "[0]" _ "[]" 1 0 "[]"] by simp
  from run [OF this, of 2 1] have "arrives honest [1, 2] [req7 1 0, req7 2 1] [req7 2 1] 1"
    by (auto simp: hs req7_def small_words)
  then have "arrives honest [1, 2, 2] [req7 1 0, req7 2 1] [] 1"
    using arrives_done [of honest "[1, 2]" _ "[]" 2 1 "[]"] by simp
  from run [OF this, of 4 2] have "arrives honest [2, 2, 4] [req7 1 0, req7 2 1, req7 4 2] [req7 4 2] 2"
    by (auto simp: hs req7_def small_words)
  from run [OF this, of 3 2]
  have "arrives honest [2, 2, 4, 3] [req7 1 0, req7 2 1, req7 4 2, req7 3 2] [req7 3 2, req7 4 2] 2"
    by (auto simp: hs req7_def small_words)
  then have "arrives honest [2, 2, 4, 3, 4] [req7 1 0, req7 2 1, req7 4 2, req7 3 2] [req7 3 2] 2"
    using arrives_done [of honest "[2, 2, 4, 3]" _ "[req7 3 2]" 4 2 "[]"] by (simp add: req7_def)
  then have "arrives honest [2, 2, 4, 3, 4, 3] [req7 1 0, req7 2 1, req7 4 2, req7 3 2] [] 2"
    using arrives_done [of honest "[2, 2, 4, 3, 4]" _ "[]" 3 2 "[]"] by simp
  from run [OF this, of 5 3]
  have "arrives honest [4, 3, 4, 3, 5] [req7 1 0, req7 2 1, req7 4 2, req7 3 2, req7 5 3] [req7 5 3] 3"
    by (auto simp: hs req7_def small_words)
  from run [OF this, of 2 1] show ?thesis
    by (auto simp: hs req7_def small_words)
qed

text \<open>
  C36: the order assumption above is needed, and \<^verbatim>\<open>rpcc\<close> does not provide it (threads send after
  releasing the lock under which xids are assigned).  When xid 4 overtakes xid 3, the
  window loses its least-first shape, the loop that computes the least xid stores the xid of
  the request, and a late duplicate of the acknowledged request 2 is executed again.
\<close>

theorem late_duplicate_runs_again:
  "\<exists>t :: unit threads. reach threads_init (threads_step honest) t \<and> execs t 7 = [1, 2, 4, 3, 5, 2]"
  by (rule arrives_E [OF honest_replay]) (auto simp: req7_def)

end
