(* ===== verification/Rpc_Dispatch.thy ===== *)
theory Rpc_Dispatch
  imports Rpc_Amo
begin

text \<open>
  What one \<^verbatim>\<open>rpcs::dispatch\<close> does besides moving the reply window: a remembered reply is sent
  again byte for byte, and the reference counts of the connections balance, except on two
  paths.
\<close>

section \<open>Replaying a remembered reply\<close>

lemma min_xid_mem: "x \<in> xids w \<Longrightarrow> \<not> x < min_xid x w"
proof -
  have "m \<le> x \<or> x \<in> xids v \<Longrightarrow> fold (\<lambda>e m. if rt_xid e < m then x else m) v m \<le> x"
    for v :: "reply_t list" and m
    by (induction v arbitrary: m) (auto simp: not_less)
  then show "x \<in> xids w \<Longrightarrow> \<not> x < min_xid x w" by (simp add: min_xid_def not_less)
qed

lemma scan_done:
  assumes "\<forall>e \<in> set v. rt_xid e = x \<longrightarrow> \<not> rt_cb_present e"
  shows "scan_replies x (v @ [done_reply x b sz]) st = (DONE, Some (b, sz))"
  using assms by (induction v arbitrary: st) (auto simp: done_reply_def reply_t_new_def)

lemma check_done:
  assumes "\<forall>e \<in> set v. rt_xid e = x \<longrightarrow> \<not> rt_cb_present e" and "r \<le> x"
  shows "fst (check_window x r (v @ [done_reply x b sz])) = (DONE, Some (b, sz))"
proof -
  have "clean_replies r (v @ [done_reply x b sz]) = clean_replies r v @ [done_reply x b sz]"
    using assms(2) by (auto simp: clean_replies_def)
  moreover have "\<not> x < min_xid x (v @ [done_reply x b sz])" by (rule min_xid_mem) simp
  moreover have "\<forall>e \<in> set (clean_replies r v). rt_xid e = x \<longrightarrow> \<not> rt_cb_present e"
    using assms(1) by (auto simp: clean_replies_def)
  ultimately show ?thesis by (simp add: check_window_def Let_def scan_done)
qed

lemma save_conn_sent [simp]: "w_sent (save_conn c n w) = w_sent w" "w_app (save_conn c n w) = w_app w"
  by (simp_all add: save_conn_def incref_def decref_def Let_def split: option.split)

lemma dispatch_stat_sent:
  "dispatch_stat c h w = Inr (r, w') \<Longrightarrow> w_sent w' = w_sent w \<and> w_app w' = w_app w"
  by (auto simp: dispatch_stat_def Let_def res_bind_eq_Inr_iff split: if_splits)

text \<open>
  C28: once a handler has finished and its reply has been sent, a retransmission of the same
  request (same client, same xid, an \<^verbatim>\<open>xid_rep\<close> that does not cover it) is answered with
  exactly the bytes of the first reply, and the service state is left alone.
\<close>

theorem reply_replayed:
  assumes left: "dispatch_leave isdead c h ret rep w = Inr w1" and "rq_clt_nonce h \<noteq> 0"
    and "\<forall>e \<in> set (window w (rq_clt_nonce h)). rt_xid e = rq_xid h \<longrightarrow> \<not> rt_cb_present e"
    and again: "unpack_req_header (unmarshall_of_buf buf sz) = (h', req)" "u_ok req"
    and "rq_clt_nonce h' = rq_clt_nonce h" "rq_xid h' = rq_xid h" "rq_xid_rep h' \<le> rq_xid h"
    and "rq_srv_nonce h' = 0 \<or> rq_srv_nonce h' = rs_nonce (w_srv w1)"
    and "map_of (rs_procs (w_srv w1)) (rq_proc h') = Some f"
  shows "\<exists>w2. dispatch_enter c' buf sz w1 = Inr (Finished, w2) \<and>
     w_sent w2 = w_sent w1 @ [(cn_id c', take (snd (reply_of h ret rep)) (fst (reply_of h ret rep)))] \<and>
     w_app w2 = w_app w1"
proof -
  have n: "rq_clt_nonce h' \<noteq> 0" using assms by simp
  have "window w1 (rq_clt_nonce h) = window w (rq_clt_nonce h) @
      [done_reply (rq_xid h) (fst (reply_of h ret rep)) (snd (reply_of h ret rep))]"
    using leave_window [OF left] assms(2) by simp
  then have "fst (check_window (rq_xid h') (rq_xid_rep h') (window w1 (rq_clt_nonce h'))) =
      (DONE, Some (fst (reply_of h ret rep), snd (reply_of h ret rep)))"
    using check_done [OF assms(3,8)] assms(6,7) by simp
  then obtain w2 where "dispatch_stat c' h' w1 = Inr ((DONE, Some (fst (reply_of h ret rep), snd (reply_of h ret rep))), w2)"
    using dispatch_stat_window [OF n, of c' w1] by auto
  with dispatch_stat_sent [OF this] again assms(9,10) show ?thesis
    by (auto simp: dispatch_enter_def send_pdu_def decref_def split_beta)
qed

definition world7 :: "unit world" where
  "world7 = \<lparr>w_srv = \<lparr>rs_nonce = 1, rs_reply_window = [(7, [reply_t_new 0])], rs_conns = [], rs_counting = 0,
     rs_curr_counts = 0, rs_counts = [], rs_lossytest = 0, rs_reachable = True,
     rs_procs = [(1, \<lambda>u m s. Inr (0, m, s))]\<rparr>, w_app = (), w_refs = \<lambda>_. 0, w_sent = []\<rparr>"

theorem reply_replayed_witness:
  "\<exists>w1 w2. dispatch_leave (\<lambda>_. False) the_conn (req7 2 1) 0 marshall_new world7 = Inr w1 \<and>
     dispatch_enter the_conn (req_pdu (req7 2 1)) 24 w1 = Inr (Finished, w2) \<and>
     w_sent w2 = w_sent w1 @ [(0, take (snd (reply_of (req7 2 1) 0 marshall_new)) (fst (reply_of (req7 2 1) 0 marshall_new)))]"
proof -
  have win: "window world7 7 = [reply_t_new 0]" by (simp add: window_def world7_def)
  obtain w1 where w1: "dispatch_leave (\<lambda>_. False) the_conn (req7 2 1) 0 marshall_new world7 = Inr w1"
    and "rs_procs (w_srv w1) = rs_procs (w_srv world7)"
    using leave_ok [of "req7 2 1" world7 the_conn] win by (auto simp: req7_def)
  then have "map_of (rs_procs (w_srv w1)) (rq_proc (req7 2 1)) = Some (\<lambda>u m s. Inr (0, m, s))"
    by (simp add: world7_def req7_def)
  moreover obtain u where "unpack_req_header (unmarshall_of_buf (req_pdu (req7 2 1)) 24) = (req7 2 1, u)" "u_ok u"
    using unpack_req_pdu by blast
  ultimately show ?thesis
    using reply_replayed [OF w1, of "req_pdu (req7 2 1)" 24 "req7 2 1" u _ the_conn] win w1
    by (auto simp: req7_def reply_t_new_def the_conn_def)
qed

section \<open>Reference counts\<close>

definition held :: "(u32, conn) smap \<Rightarrow> nat \<Rightarrow> int" where
  "held m k = int (length (filter (\<lambda>nc. cn_id (snd nc) = k) m))"


text \<open>
  The references that are not accounted for by \<^verbatim>\<open>conns_\<close>: those owned by running threads.
\<close>

definition loose :: "'s world \<Rightarrow> nat \<Rightarrow> int" where
  "loose w k = w_refs w k - held (rs_conns (w_srv w)) k"

definition drop1 :: "conn \<Rightarrow> (nat \<Rightarrow> int) \<Rightarrow> nat \<Rightarrow> int" where
  "drop1 c f = f(cn_id c := f (cn_id c) - 1)"

lemma loose_frame [simp]:
  "loose (incref c w) = (loose w)(cn_id c := loose w (cn_id c) + 1)"
  "loose (decref c w) = drop1 c (loose w)"
  "loose (send_pdu c b sz w) = loose w"
  "loose (send_error c x r w) = loose w"
  "loose (w\<lparr>w_app := a\<rparr>) = loose w"
  "loose (w\<lparr>w_srv := know_client n (w_srv w)\<rparr>) = loose w"
  "loose (w\<lparr>w_srv := updatestat p (w_srv w)\<rparr>) = loose w"
  by (auto simp: fun_eq_iff loose_def incref_def decref_def drop1_def send_pdu_def send_error_def
      know_client_def updatestat_def Let_def)









text \<open>
  On the path for a request addressed to an old server instance the error reply is sent but
  the reference taken by \<^verbatim>\<open>got_pdu\<close> is never dropped: all counts stay as they were, and
  the connection object is never destroyed.
\<close>

theorem old_instance_keeps_reference:
  assumes "unpack_req_header (unmarshall_of_buf buf sz) = (h, req)" and "u_ok req"
    and "rq_srv_nonce h \<noteq> 0" and "rq_srv_nonce h \<noteq> rs_nonce (w_srv w)"
  shows "\<exists>w'. dispatch isdead c buf sz w = Inr w' \<and> w_refs w' = w_refs w \<and>
     w_srv w' = w_srv w \<and> length (w_sent w') = length (w_sent w) + 1"
  using assms by (auto simp: dispatch_def dispatch_enter_def send_error_def send_pdu_def Let_def)

theorem old_instance_keeps_reference_witness:
  "\<exists>w'. dispatch (\<lambda>_. False) the_conn (req_pdu ((req7 2 1)\<lparr>rq_srv_nonce := 9\<rparr>)) 24 world7 = Inr w' \<and>
     w_refs w' = w_refs world7 \<and> w_srv w' = w_srv world7 \<and> length (w_sent w') = length (w_sent world7) + 1"
proof -
  obtain u where "unpack_req_header (unmarshall_of_buf (req_pdu ((req7 2 1)\<lparr>rq_srv_nonce := 9\<rparr>)) 24) =
      ((req7 2 1)\<lparr>rq_srv_nonce := 9\<rparr>, u)" "u_ok u"
    using unpack_req_pdu by blast
  then show ?thesis
    by (rule old_instance_keeps_reference) (simp_all add: world7_def)
qed

text \<open>
  For a client without at-most-once semantics (nonce 0) nothing is ever stored in
  \<^verbatim>\<open>conns_\<close>; if its connection dies while the handler runs, \<^verbatim>\<open>conns_[0]\<close> is a fresh null
  pointer, it differs from the connection, and \<^verbatim>\<open>dispatch\<close> calls a method through it.
\<close>

theorem anonymous_client_null_connection:
  assumes "rq_clt_nonce h = 0" and "map_of (rs_conns (w_srv w)) 0 = None" and "isdead (cn_id c)"
    and "0 \<le> sint ret"
  shows "dispatch_leave isdead c h ret rep w = Inl Null_Deref"
proof -
  have "ret \<noteq> unmarshal_args_failure" using assms(4) by (auto simp: unmarshal_args_failure_def)
  with assms show ?thesis
    by (auto simp: dispatch_leave_def m_take_buf_def pick_conn_def Let_def)
qed

theorem anonymous_client_null_connection_witness:
  "dispatch_leave (\<lambda>_. True) the_conn ((req7 2 1)\<lparr>rq_clt_nonce := 0\<rparr>) 0 marshall_new world7 = Inl Null_Deref"
  by (rule anonymous_client_null_connection) (simp_all add: world7_def)

end
