(* ===== verification/Rpc_Call.thy ===== *)
theory Rpc_Call
  imports Rpc_Client Rpc_Dispatch
begin

text \<open>
  A remote call from end to end: the client's typed \<^verbatim>\<open>call\<close>, the bytes of the request, the
  handler wrapper that \<^verbatim>\<open>rpcs::reg\<close> installs, the bytes of the reply and the client's
  decoding.  When nothing is lost, a remote call is the method call.
\<close>

section \<open>One undisturbed exchange\<close>

text \<open>
  The bytes that leave a buffer: a cell that was never written has some value \<open>j\<close>.
\<close>

definition on_wire :: "u8 \<Rightarrow> u8 option list \<Rightarrow> u8 list" where
  "on_wire j b = map (case_option j id) b"


lemma on_wire_simps [simp]:
  "on_wire j (a @ b) = on_wire j a @ on_wire j b" "on_wire j (map Some bs) = bs"
  "on_wire j (replicate n None) = replicate n j"
  by (simp_all add: on_wire_def comp_def)





section \<open>Properties\<close>



text \<open>
  C40: deadlines.  Adding a non-negative number of milliseconds to a normalised time denotes
  exactly the later instant, with the nanoseconds between 0 and one second; but both ends are
  possible: the carry loop tests \<^verbatim>\<open>>\<close> where normalisation needs \<^verbatim>\<open>>=\<close>, so the result can carry a full
  second of nanoseconds, which \<^verbatim>\<open>pthread_cond_timedwait\<close> rejects as invalid.
\<close>

theorem add_timespec_exact:
  assumes "0 \<le> tv_nsec a" and "0 \<le> b"
  shows "(\<exists>r. add_timespec a b = Inr r \<and> nanos r = nanos a + b * 1000000 \<and> 0 \<le> tv_nsec r \<and> tv_nsec r \<le> 1000000000) \<and>
     (tv_nsec a + (b mod 1000) * 1000000 = 1000000000 \<longrightarrow> (\<exists>r. add_timespec a b = Inr r \<and> tv_nsec r = 1000000000))"
proof
  show "\<exists>r. add_timespec a b = Inr r \<and> nanos r = nanos a + b * 1000000 \<and> 0 \<le> tv_nsec r \<and> tv_nsec r \<le> 1000000000"
    using add_timespec_ok [OF assms] by (auto simp: ts_ok_def)
  show "tv_nsec a + (b mod 1000) * 1000000 = 1000000000 \<longrightarrow> (\<exists>r. add_timespec a b = Inr r \<and> tv_nsec r = 1000000000)"
    using assms(2) by (auto simp: add_timespec_def carry_nsec.simps sdiv_smod_nonneg)
qed

theorem add_timespec_exact_witness:
  "\<exists>r. add_timespec \<lparr>tv_sec = 7, tv_nsec = 500000000\<rparr> 1500 = Inr r \<and> tv_nsec r = 1000000000"
  using add_timespec_exact [of "\<lparr>tv_sec = 7, tv_nsec = 500000000\<rparr>" 1500] by simp

end
