(* ===== verification/Extent.thy ===== *)
theory Extent
  imports Rpc_Call
begin

text \<open>
  Extents: the wire type and numbers of \<^verbatim>\<open>extent_protocol.h\<close>, the store of \<^verbatim>\<open>extent_server.cc\<close>, and the
  write-back cache of \<^verbatim>\<open>extent_client.cc\<close>.
\<close>

section \<open>Protocol\<close>

type_synonym extentid_t = u64

definition ex_OK :: i32 where "ex_OK = 0"
definition ex_RPCERR :: i32 where "ex_RPCERR = 1"
definition ex_NOENT :: i32 where "ex_NOENT = 2"
definition ex_IOERR :: i32 where "ex_IOERR = 3"

record attr =
  at_atime :: u32
  at_mtime :: u32
  at_ctime :: u32
  at_size :: u32

definition get_attr :: "unmarshall \<Rightarrow> attr \<times> unmarshall" where
  "get_attr u =
     (let (a, u) = get_uint u; (m, u) = get_uint u; (c, u) = get_uint u; (s, u) = get_uint u
      in (\<lparr>at_atime = a, at_mtime = m, at_ctime = c, at_size = s\<rparr>, u))"

definition put_attr :: "attr \<Rightarrow> marshall \<Rightarrow> marshall" where
  "put_attr a m = put_uint (at_size a) (put_uint (at_ctime a) (put_uint (at_mtime a) (put_uint (at_atime a) m)))"

section \<open>Server\<close>

record file_inode =
  fi_attr :: attr
  fi_id :: extentid_t
  fi_buf :: string

type_synonym extent_server = "(extentid_t, file_inode) smap"

definition zero_attr :: attr where
  "zero_attr = \<lparr>at_atime = 0, at_mtime = 0, at_ctime = 0, at_size = 0\<rparr>"

text \<open>Every \<^verbatim>\<open>time(NULL)\<close> is an argument; \<^verbatim>\<open>put\<close> reads the clock three times.\<close>

definition es_put :: "extentid_t \<Rightarrow> string \<Rightarrow> u32 \<times> u32 \<times> u32 \<Rightarrow> extent_server \<Rightarrow> i32 \<times> extent_server" where
  "es_put i buf now s =
     (let a = \<lparr>at_atime = fst now, at_mtime = snd (snd now), at_ctime = fst (snd now), at_size = word_of_nat (length buf)\<rparr>
      in case map_of s i of
           None \<Rightarrow> (ex_OK, smap_set i \<lparr>fi_attr = a, fi_id = i, fi_buf = buf\<rparr> s)
         | Some f \<Rightarrow> (ex_OK, smap_set i (f\<lparr>fi_buf := buf, fi_attr := a\<rparr>) s))"

definition es_get :: "extentid_t \<Rightarrow> u32 \<Rightarrow> extent_server \<Rightarrow> (i32 \<times> string) \<times> extent_server" where
  "es_get i now s =
     (case map_of s i of
        None \<Rightarrow> ((ex_IOERR, []), s)
      | Some f \<Rightarrow> ((ex_OK, fi_buf f), smap_set i (f\<lparr>fi_attr := (fi_attr f)\<lparr>at_atime := now\<rparr>\<rparr>) s))"

definition es_getattr :: "extentid_t \<Rightarrow> extent_server \<Rightarrow> (i32 \<times> attr) \<times> extent_server" where
  "es_getattr i s =
     (case map_of s i of
        None \<Rightarrow> ((ex_IOERR, zero_attr), s)
      | Some f \<Rightarrow> ((ex_OK, fi_attr f), s))"

definition es_remove :: "extentid_t \<Rightarrow> extent_server \<Rightarrow> i32 \<times> extent_server" where
  "es_remove i s = (case map_of s i of None \<Rightarrow> (ex_IOERR, s) | Some f \<Rightarrow> (ex_OK, smap_del i s))"

definition ROOTDIR :: extentid_t where "ROOTDIR = 1"

definition extent_server_new :: "u32 \<times> u32 \<times> u32 \<Rightarrow> extent_server" where
  "extent_server_new now = snd (es_put ROOTDIR [] now [])"

section \<open>Remote calls that may fail\<close>

text \<open>
  A call either reaches the server and its reply comes back, or it times out: then the request
  or the reply was lost.  The timeout returns \<^const>\<open>timeout_failure\<close> and leaves the result variable
  alone.
\<close>

datatype delivery = Delivered | Lost_Request | Lost_Reply

definition rpc_call :: "delivery \<Rightarrow> ('s \<Rightarrow> (i32 \<times> 'r) \<times> 's) \<Rightarrow> 's \<Rightarrow> (i32 \<times> 'r option) \<times> 's" where
  "rpc_call d f s =
     (case d of
        Delivered \<Rightarrow> let ((ret, r), s') = f s in ((ret, Some r), s')
      | Lost_Request \<Rightarrow> ((timeout_failure, None), s)
      | Lost_Reply \<Rightarrow> ((timeout_failure, None), snd (f s)))"

section \<open>Client\<close>

record cached_extent_info =
  ce_is_dirty :: bool
  ce_attr :: attr
  ce_eid :: extentid_t
  ce_buf :: string

definition new_extent :: cached_extent_info where
  "new_extent = \<lparr>ce_is_dirty = False, ce_attr = zero_attr, ce_eid = 0, ce_buf = []\<rparr>"

text \<open>
  The client, the server it talks to, and the oracles for the network and the clock: the \<open>n\<close>-th
  remote call has outcome \<open>ew_net n\<close>, and \<open>ew_clock\<close> gives the successive readings of the clock.
\<close>

record ec_world =
  ew_list :: "(extentid_t, cached_extent_info) smap"
  ew_srv :: extent_server
  ew_net :: "nat \<Rightarrow> delivery"
  ew_calls :: nat
  ew_clock :: "nat \<Rightarrow> u32"
  ew_ticks :: nat

definition ec_time :: "ec_world \<Rightarrow> u32 \<times> ec_world" where
  "ec_time w = (ew_clock w (ew_ticks w), w\<lparr>ew_ticks := ew_ticks w + 1\<rparr>)"

definition ec_rpc :: "(extent_server \<Rightarrow> (i32 \<times> 'r) \<times> extent_server) \<Rightarrow> ec_world \<Rightarrow> (i32 \<times> 'r option) \<times> ec_world" where
  "ec_rpc f w =
     (let (r, s) = rpc_call (ew_net w (ew_calls w)) f (ew_srv w)
      in (r, w\<lparr>ew_srv := s, ew_calls := ew_calls w + 1\<rparr>))"

definition call_get :: "extentid_t \<Rightarrow> string \<Rightarrow> ec_world \<Rightarrow> (i32 \<times> string) \<times> ec_world" where
  "call_get eid buf w =
     (let (now, w) = ec_time w; ((ret, r), w) = ec_rpc (es_get eid now) w
      in ((ret, case r of None \<Rightarrow> buf | Some b \<Rightarrow> b), w))"

definition call_getattr :: "extentid_t \<Rightarrow> attr \<Rightarrow> ec_world \<Rightarrow> (i32 \<times> attr) \<times> ec_world" where
  "call_getattr eid a w =
     (let ((ret, r), w) = ec_rpc (es_getattr eid) w
      in ((ret, case r of None \<Rightarrow> a | Some b \<Rightarrow> b), w))"

definition call_put :: "extentid_t \<Rightarrow> string \<Rightarrow> ec_world \<Rightarrow> i32 \<times> ec_world" where
  "call_put eid buf w =
     (let (t1, w) = ec_time w; (t2, w) = ec_time w; (t3, w) = ec_time w;
          ((ret, _), w) = ec_rpc (\<lambda>s. let (r, s) = es_put eid buf (t1, t2, t3) s in ((r, ()), s)) w
      in (ret, w))"

definition call_remove :: "extentid_t \<Rightarrow> ec_world \<Rightarrow> i32 \<times> ec_world" where
  "call_remove eid w =
     (let ((ret, _), w) = ec_rpc (\<lambda>s. let (r, s) = es_remove eid s in ((r, ()), s)) w
      in (ret, w))"

definition ec_store :: "extentid_t \<Rightarrow> cached_extent_info \<Rightarrow> ec_world \<Rightarrow> ec_world" where
  "ec_store eid e w = w\<lparr>ew_list := smap_set eid e (ew_list w)\<rparr>"

definition ec_get :: "extentid_t \<Rightarrow> string \<Rightarrow> ec_world \<Rightarrow> (i32 \<times> string) \<times> ec_world" where
  "ec_get eid buf w =
     (case map_of (ew_list w) eid of
        None \<Rightarrow>
          let ((ret, buf), w) = call_get eid buf w;
              ((_, a), w) = call_getattr eid (ce_attr new_extent) w;
              (now, w) = ec_time w
          in ((ret, buf), ec_store eid \<lparr>ce_is_dirty = False, ce_attr = a\<lparr>at_atime := now\<rparr>, ce_eid = eid, ce_buf = buf\<rparr> w)
      | Some e \<Rightarrow>
          let (now, w) = ec_time w
          in ((ex_OK, ce_buf e), ec_store eid (e\<lparr>ce_attr := (ce_attr e)\<lparr>at_atime := now\<rparr>\<rparr>) w))"

definition ec_getattr :: "extentid_t \<Rightarrow> ec_world \<Rightarrow> (i32 \<times> attr) \<times> ec_world" where
  "ec_getattr eid w =
     (case map_of (ew_list w) eid of
        None \<Rightarrow>
          let ((_, buf), w) = call_get eid (ce_buf new_extent) w;
              ((ret, a), w) = call_getattr eid (ce_attr new_extent) w
          in ((ret, a), ec_store eid \<lparr>ce_is_dirty = False, ce_attr = a, ce_eid = eid, ce_buf = buf\<rparr> w)
      | Some e \<Rightarrow> ((ex_OK, ce_attr e), w))"

definition ec_put :: "extentid_t \<Rightarrow> string \<Rightarrow> ec_world \<Rightarrow> i32 \<times> ec_world" where
  "ec_put eid buf w =
     (let (ret, e, w) =
            (case map_of (ew_list w) eid of
               None \<Rightarrow>
                 let ((_, b), w) = call_get eid (ce_buf new_extent) w;
                     ((ret, a), w) = call_getattr eid (ce_attr new_extent) w
                 in (ret, \<lparr>ce_is_dirty = False, ce_attr = a, ce_eid = eid, ce_buf = b\<rparr>, w)
             | Some e \<Rightarrow> (ex_OK, e, w));
          (t1, w) = ec_time w; (t2, w) = ec_time w; (t3, w) = ec_time w
      in (ret, ec_store eid (e\<lparr>ce_is_dirty := True, ce_buf := buf,
            ce_attr := \<lparr>at_atime = t1, at_mtime = t3, at_ctime = t2, at_size = word_of_nat (length buf)\<rparr>\<rparr>) w))"

definition ec_remove :: "extentid_t \<Rightarrow> ec_world \<Rightarrow> i32 \<times> ec_world" where
  "ec_remove eid w =
     (case map_of (ew_list w) eid of
        None \<Rightarrow> (ex_OK, w)
      | Some e \<Rightarrow> call_remove eid (w\<lparr>ew_list := smap_del eid (ew_list w)\<rparr>))"

definition ec_flush :: "extentid_t \<Rightarrow> ec_world \<Rightarrow> i32 \<times> ec_world" where
  "ec_flush eid w =
     (case map_of (ew_list w) eid of
        None \<Rightarrow> (ex_OK, w)
      | Some e \<Rightarrow>
          let w = (if ce_is_dirty e then snd (call_put eid (ce_buf e) w) else w)
          in (ex_OK, w\<lparr>ew_list := smap_del eid (ew_list w)\<rparr>))"

text \<open>
  \<open>lock_releaser::dorelease\<close> of \<^verbatim>\<open>yfs_client.cc\<close>: the lock client calls it before it gives a lock back.
\<close>

definition dorelease :: "u64 \<Rightarrow> ec_world \<Rightarrow> ec_world" where
  "dorelease lid w = snd (ec_flush lid w)"

end
