(* ===== verification/Extent_Cache.thy ===== *)
theory Extent_Cache
  imports Extent
begin

text \<open>
  What the write-back cache guarantees: the effect of each operation of \<^verbatim>\<open>extent_client\<close> on the cached
  and the stored contents, and the coherence of many caches whose users hold the lock of an
  extent while they use it.
\<close>

section \<open>The attributes on the wire\<close>

definition enc_attr :: "attr \<Rightarrow> u8 list" where
  "enc_attr a = enc_uint (at_atime a) @ enc_uint (at_mtime a) @ enc_uint (at_ctime a) @ enc_uint (at_size a)"

interpretation attr_codec: codec put_attr "\<lambda>u. Inr (get_attr u)" enc_attr
proof unfold_locales
  fix m hdr bs a
  assume h: "holds m hdr bs"
  note h4 = put_uint_holds [OF put_uint_holds [OF put_uint_holds [OF put_uint_holds [OF h]]]]
  show "holds (put_attr a m) hdr (bs @ enc_attr a)" using h4 by (simp add: put_attr_def enc_attr_def)
  assume "capa_bound m"
  with h show "capa_bound (put_attr a m)"
    unfolding put_attr_def by (blast intro: put_uint_capa put_uint_holds)
next
  fix u a bs
  assume "reads u (enc_attr a @ bs)"
  then have r: "reads u (enc_uint (at_atime a) @ enc_uint (at_mtime a) @ enc_uint (at_ctime a) @ enc_uint (at_size a) @ bs)"
    by (simp add: enc_attr_def)
  note r1 = reads_skip [OF r] note r2 = reads_skip [OF r1] note r3 = reads_skip [OF r2]
  show "Inr (get_attr u) = Inr (a, skip (length (enc_attr a)) u)"
    using uint_codec.get_reads [OF r] uint_codec.get_reads [OF r1] uint_codec.get_reads [OF r2]
      uint_codec.get_reads [OF r3] by (simp add: get_attr_def enc_attr_def)
qed (simp add: enc_attr_def enc_uint_def)

section \<open>Effects of the operations\<close>

text \<open>
  What is cached and what is stored, without times and attributes.
\<close>

definition cached :: "ec_world \<Rightarrow> extentid_t \<rightharpoonup> bool \<times> string" where
  "cached w i = map_option (\<lambda>e. (ce_is_dirty e, ce_buf e)) (map_of (ew_list w) i)"

definition stored :: "ec_world \<Rightarrow> extentid_t \<rightharpoonup> string" where
  "stored w i = map_option fi_buf (map_of (ew_srv w) i)"

definition reliable :: "ec_world \<Rightarrow> bool" where
  "reliable w \<longleftrightarrow> (\<forall>n. ew_net w n = Delivered)"

lemma es_get_stored:
  "map_option fi_buf (map_of (snd (es_get i now s)) k) = map_option fi_buf (map_of s k)"
  "fst (es_get i now s) = (case map_option fi_buf (map_of s i) of None \<Rightarrow> (ex_IOERR, []) | Some b \<Rightarrow> (ex_OK, b))"
  by (auto simp: es_get_def split: option.split)

lemma es_put_stored:
  "fst (es_put i b now s) = ex_OK"
  "map_option fi_buf (map_of (snd (es_put i b now s)) k) = (if k = i then Some b else map_option fi_buf (map_of s k))"
  by (auto simp: es_put_def Let_def split: option.split)

lemma ec_time_frame [simp]:
  "cached (snd (ec_time w)) = cached w" "stored (snd (ec_time w)) = stored w"
  "reliable (snd (ec_time w)) = reliable w" "ew_list (snd (ec_time w)) = ew_list w"
  "ew_srv (snd (ec_time w)) = ew_srv w" "ew_net (snd (ec_time w)) = ew_net w"
  by (simp_all add: ec_time_def cached_def stored_def reliable_def fun_eq_iff)

lemma ec_store_frame [simp]:
  "cached (ec_store i e w) = (cached w)(i \<mapsto> (ce_is_dirty e, ce_buf e))"
  "stored (ec_store i e w) = stored w" "reliable (ec_store i e w) = reliable w"
  by (auto simp: ec_store_def cached_def stored_def reliable_def fun_eq_iff)

lemma ec_rpc_reliable:
  assumes "reliable w"
  shows "ec_rpc f w = ((fst (fst (f (ew_srv w))), Some (snd (fst (f (ew_srv w))))),
    w\<lparr>ew_srv := snd (f (ew_srv w)), ew_calls := ew_calls w + 1\<rparr>)"
  using assms by (simp add: ec_rpc_def rpc_call_def reliable_def split_beta Let_def)

lemma call_get_effect:
  assumes "reliable w"
  shows "\<exists>w'. call_get i b0 w = (case stored w i of None \<Rightarrow> ((ex_IOERR, []), w') | Some b \<Rightarrow> ((ex_OK, b), w')) \<and>
    reliable w' \<and> cached w' = cached w \<and> stored w' = stored w"
proof -
  let ?w = "snd (ec_time w)"
  let ?f = "es_get i (fst (ec_time w))"
  have "call_get i b0 w = (fst (?f (ew_srv w)), ?w\<lparr>ew_srv := snd (?f (ew_srv w)), ew_calls := ew_calls ?w + 1\<rparr>)"
    using assms by (simp add: call_get_def split_beta Let_def ec_rpc_reliable)
  moreover have "fst (?f (ew_srv w)) = (case stored w i of None \<Rightarrow> (ex_IOERR, []) | Some b \<Rightarrow> (ex_OK, b))"
    by (simp add: es_get_stored(2) stored_def)
  ultimately show ?thesis
    using assms by (auto simp: reliable_def cached_def stored_def fun_eq_iff es_get_stored(1) split: option.split)
qed

lemma call_getattr_effect:
  assumes "reliable w"
  shows "\<exists>a w'. call_getattr i a0 w = ((if stored w i = None then ex_IOERR else ex_OK, a), w') \<and>
    reliable w' \<and> cached w' = cached w \<and> stored w' = stored w"
  using assms
  by (auto simp: call_getattr_def split_beta Let_def ec_rpc_reliable es_getattr_def reliable_def cached_def
      stored_def fun_eq_iff split: option.split)

lemma call_put_effect:
  assumes "reliable w"
  shows "\<exists>w'. call_put i b w = (ex_OK, w') \<and> reliable w' \<and> cached w' = cached w \<and> stored w' = (stored w)(i \<mapsto> b)"
  using assms
  by (auto simp: call_put_def split_beta Let_def ec_rpc_reliable es_put_stored reliable_def cached_def
      stored_def fun_eq_iff)

lemma call_remove_effect:
  assumes "reliable w"
  shows "\<exists>r w'. call_remove i w = (r, w') \<and> reliable w' \<and> cached w' = cached w \<and> stored w' = (stored w)(i := None)"
  using assms
  by (auto simp: call_remove_def split_beta Let_def ec_rpc_reliable es_remove_def reliable_def cached_def
      stored_def fun_eq_iff split: option.split)

lemma cached_None: "cached w i = None \<longleftrightarrow> map_of (ew_list w) i = None"
  by (simp add: cached_def)

lemma ec_get_hit:
  assumes "reliable w" "cached w i = Some (d, b)"
  shows "\<exists>w'. ec_get i b0 w = ((ex_OK, b), w') \<and> reliable w' \<and> cached w' = cached w \<and> stored w' = stored w"
proof -
  obtain e where e: "map_of (ew_list w) i = Some e" "d = ce_is_dirty e" "b = ce_buf e"
    using assms(2) by (auto simp: cached_def)
  then show ?thesis
    using assms by (simp add: ec_get_def split_beta Let_def fun_upd_idem)
qed

lemma ec_get_miss:
  assumes "reliable w" "cached w i = None"
  shows "\<exists>w'. ec_get i b0 w = (case stored w i of None \<Rightarrow> ((ex_IOERR, []), w') | Some b \<Rightarrow> ((ex_OK, b), w')) \<and>
    reliable w' \<and> stored w' = stored w \<and>
    cached w' = (cached w)(i \<mapsto> (False, case stored w i of None \<Rightarrow> [] | Some b \<Rightarrow> b))"
proof -
  obtain w1 where w1: "call_get i b0 w = (case stored w i of None \<Rightarrow> ((ex_IOERR, []), w1) | Some b \<Rightarrow> ((ex_OK, b), w1))"
    "reliable w1" "cached w1 = cached w" "stored w1 = stored w"
    using call_get_effect [OF assms(1)] by blast
  obtain a w2 where w2: "call_getattr i (ce_attr new_extent) w1 = ((if stored w1 i = None then ex_IOERR else ex_OK, a), w2)"
    "reliable w2" "cached w2 = cached w1" "stored w2 = stored w1"
    using call_getattr_effect [OF w1(2)] by blast
  show ?thesis
    using assms(2) w1 w2 by (auto simp: ec_get_def cached_None split_beta Let_def split: option.split)
qed

lemma ec_put_effect:
  assumes "reliable w"
  shows "\<exists>r w'. ec_put i b w = (r, w') \<and> reliable w' \<and> cached w' = (cached w)(i \<mapsto> (True, b)) \<and> stored w' = stored w"
proof (cases "map_of (ew_list w) i")
  case None
  obtain w1 where w1: "snd (call_get i (ce_buf new_extent) w) = w1" "reliable w1" "cached w1 = cached w" "stored w1 = stored w"
    using call_get_effect [OF assms, of i "ce_buf new_extent"] by (auto split: option.splits)
  obtain r a w2 where w2: "call_getattr i (ce_attr new_extent) w1 = ((r, a), w2)"
    "reliable w2" "cached w2 = cached w1" "stored w2 = stored w1"
    using call_getattr_effect [OF w1(2)] by blast
  show ?thesis using None w1 w2 by (simp add: ec_put_def split_beta Let_def)
next
  case (Some e)
  then show ?thesis using assms by (simp add: ec_put_def split_beta Let_def)
qed

lemma del_list_frame [simp]:
  "cached (w\<lparr>ew_list := smap_del i (ew_list w)\<rparr>) = (cached w)(i := None)"
  "stored (w\<lparr>ew_list := l\<rparr>) = stored w" "reliable (w\<lparr>ew_list := l\<rparr>) = reliable w"
  by (auto simp: cached_def stored_def reliable_def fun_eq_iff)

lemma ec_remove_effect:
  assumes "reliable w"
  shows "\<exists>r w'. ec_remove i w = (r, w') \<and> reliable w' \<and>
    (if cached w i = None then cached w' = cached w \<and> stored w' = stored w
     else cached w' = (cached w)(i := None) \<and> stored w' = (stored w)(i := None))"
  using assms call_remove_effect [of "w\<lparr>ew_list := smap_del i (ew_list w)\<rparr>" i]
  by (auto simp: ec_remove_def cached_None split: option.split)

lemma ec_flush_effect:
  assumes "reliable w"
  shows "\<exists>w'. ec_flush i w = (ex_OK, w') \<and> reliable w' \<and> cached w' = (cached w)(i := None) \<and>
    stored w' = (case cached w i of Some (True, b) \<Rightarrow> (stored w)(i \<mapsto> b) | _ \<Rightarrow> stored w)"
proof (cases "map_of (ew_list w) i")
  case None
  then have "cached w i = None" by (simp add: cached_None)
  with assms None show ?thesis by (simp add: ec_flush_def fun_upd_idem)
next
  case (Some e)
  then have c: "cached w i = Some (ce_is_dirty e, ce_buf e)" by (simp add: cached_def)
  obtain w1 where "call_put i (ce_buf e) w = (ex_OK, w1)" "reliable w1" "cached w1 = cached w"
    "stored w1 = (stored w)(i \<mapsto> ce_buf e)"
    using call_put_effect [OF assms] by blast
  with assms Some c show ?thesis by (simp add: ec_flush_def Let_def)
qed

lemma ec_getattr_effect:
  assumes "reliable w"
  shows "\<exists>r a w'. ec_getattr i w = ((r, a), w') \<and> reliable w' \<and> stored w' = stored w \<and>
    cached w' = (case cached w i of None \<Rightarrow> (cached w)(i \<mapsto> (False, case stored w i of None \<Rightarrow> [] | Some b \<Rightarrow> b))
                 | Some _ \<Rightarrow> cached w)"
proof (cases "map_of (ew_list w) i")
  case None
  obtain w1 where w1: "call_get i (ce_buf new_extent) w = (case stored w i of None \<Rightarrow> ((ex_IOERR, []), w1) | Some b \<Rightarrow> ((ex_OK, b), w1))"
    "reliable w1" "cached w1 = cached w" "stored w1 = stored w"
    using call_get_effect [OF assms] by blast
  obtain r a w2 where w2: "call_getattr i (ce_attr new_extent) w1 = ((r, a), w2)"
    "reliable w2" "cached w2 = cached w1" "stored w2 = stored w1"
    using call_getattr_effect [OF w1(2)] by blast
  have "cached w i = None" using None by (simp add: cached_None)
  then show ?thesis
    using None w1 w2 by (auto simp: ec_getattr_def split_beta Let_def split: option.split)
next
  case (Some e)
  then show ?thesis using assms by (auto simp: ec_getattr_def cached_def)
qed

section \<open>Many caches\<close>

text \<open>
  Any number of clients share the server.  \<open>cy_owner\<close> tells who holds the lock of an extent; a
  client works on an extent only while it holds the lock, and the lock client calls
  \<open>dorelease\<close> before it gives the lock up.  \<open>cy_last\<close> is a history: the contents last put by any
  client.
\<close>

record caches =
  cy_srv :: extent_server
  cy_list :: "nat \<Rightarrow> (extentid_t, cached_extent_info) smap"
  cy_owner :: "extentid_t \<rightharpoonup> nat"
  cy_last :: "extentid_t \<rightharpoonup> string"

definition focus :: "nat \<Rightarrow> (nat \<Rightarrow> u32) \<Rightarrow> caches \<Rightarrow> ec_world" where
  "focus c clock s = \<lparr>ew_list = cy_list s c, ew_srv = cy_srv s, ew_net = \<lambda>_. Delivered, ew_calls = 0,
     ew_clock = clock, ew_ticks = 0\<rparr>"

definition unfocus :: "nat \<Rightarrow> ec_world \<Rightarrow> caches \<Rightarrow> caches" where
  "unfocus c w s = s\<lparr>cy_list := (cy_list s)(c := ew_list w), cy_srv := ew_srv w\<rparr>"

inductive caches_step :: "caches \<Rightarrow> caches \<Rightarrow> bool" where
  take_lock: "cy_owner s i = None \<Longrightarrow> caches_step s (s\<lparr>cy_owner := (cy_owner s)(i \<mapsto> c)\<rparr>)"
| read_ext: "cy_owner s i = Some c \<Longrightarrow> cy_last s i \<noteq> None \<Longrightarrow> ec_get i b0 (focus c k s) = (r, w) \<Longrightarrow>
    caches_step s (unfocus c w s)"
| stat_ext: "cy_owner s i = Some c \<Longrightarrow> cy_last s i \<noteq> None \<Longrightarrow> ec_getattr i (focus c k s) = (r, w) \<Longrightarrow>
    caches_step s (unfocus c w s)"
| write_ext: "cy_owner s i = Some c \<Longrightarrow> ec_put i b (focus c k s) = (r, w) \<Longrightarrow>
    caches_step s ((unfocus c w s)\<lparr>cy_last := (cy_last s)(i \<mapsto> b)\<rparr>)"
| erase_ext: "cy_owner s i = Some c \<Longrightarrow> map_of (cy_list s c) i \<noteq> None \<Longrightarrow> ec_remove i (focus c k s) = (r, w) \<Longrightarrow>
    caches_step s ((unfocus c w s)\<lparr>cy_last := (cy_last s)(i := None)\<rparr>)"
| give_lock: "cy_owner s i = Some c \<Longrightarrow> dorelease i (focus c k s) = w \<Longrightarrow>
    caches_step s ((unfocus c w s)\<lparr>cy_owner := (cy_owner s)(i := None)\<rparr>)"

definition caches_init :: "caches \<Rightarrow> bool" where
  "caches_init s \<longleftrightarrow> (\<forall>c. cy_list s c = []) \<and> cy_owner s = Map.empty \<and>
     cy_last s = (\<lambda>i. map_option fi_buf (map_of (cy_srv s) i))"

definition cache_of :: "caches \<Rightarrow> nat \<Rightarrow> extentid_t \<rightharpoonup> bool \<times> string" where
  "cache_of s c i = map_option (\<lambda>e. (ce_is_dirty e, ce_buf e)) (map_of (cy_list s c) i)"

definition server_of :: "caches \<Rightarrow> extentid_t \<rightharpoonup> string" where
  "server_of s i = map_option fi_buf (map_of (cy_srv s) i)"

text \<open>What holds for one extent: \<open>cs\<close> are the caches' contents, \<open>sv\<close> the server's.\<close>

definition extent_ok :: "nat option \<Rightarrow> (nat \<Rightarrow> (bool \<times> string) option) \<Rightarrow> string option \<Rightarrow> string option \<Rightarrow> bool" where
  "extent_ok owner cs sv lst \<longleftrightarrow>
     (\<forall>c. owner \<noteq> Some c \<longrightarrow> cs c = None) \<and>
     (\<forall>c d b. cs c = Some (d, b) \<longrightarrow> lst = Some b \<and> (\<not> d \<longrightarrow> sv = Some b)) \<and>
     ((\<forall>c. cs c = None) \<longrightarrow> sv = lst)"

definition caches_ok :: "caches \<Rightarrow> bool" where
  "caches_ok s \<longleftrightarrow> (\<forall>i. extent_ok (cy_owner s i) (\<lambda>c. cache_of s c i) (server_of s i) (cy_last s i))"

lemma focus_simps [simp]:
  "cached (focus c k s) = cache_of s c" "stored (focus c k s) = server_of s" "reliable (focus c k s)"
  by (simp_all add: fun_eq_iff focus_def cached_def stored_def reliable_def cache_of_def server_of_def)

lemma unfocus_simps [simp]:
  "cache_of (unfocus c w s) = (cache_of s)(c := cached w)" "server_of (unfocus c w s) = stored w"
  "cy_owner (unfocus c w s) = cy_owner s" "cy_last (unfocus c w s) = cy_last s"
  by (auto simp: fun_eq_iff unfocus_def cached_def stored_def cache_of_def server_of_def)

lemma cache_of_frame [simp]:
  "cache_of (s\<lparr>cy_owner := o'\<rparr>) = cache_of s" "cache_of (s\<lparr>cy_last := l\<rparr>) = cache_of s"
  "server_of (s\<lparr>cy_owner := o'\<rparr>) = server_of s" "server_of (s\<lparr>cy_last := l\<rparr>) = server_of s"
  by (simp_all add: fun_eq_iff cache_of_def server_of_def)

lemma extent_ok_fill:
  assumes "extent_ok (Some c) cs sv lst" "lst \<noteq> None" "cs c = None"
  shows "extent_ok (Some c) (cs(c := Some (False, case sv of None \<Rightarrow> [] | Some b \<Rightarrow> b))) sv lst"
proof -
  have "\<forall>c. cs c = None" using assms by (metis extent_ok_def option.inject)
  then have "sv = lst" using assms(1) by (simp add: extent_ok_def)
  with assms show ?thesis by (auto simp: extent_ok_def split: if_splits)
qed

lemma caches_ok_unfocus:
  assumes ok: "caches_ok s" and "cached w = (cache_of s c)(i := x)" "stored w = (server_of s)(i := y)"
    and "extent_ok o' ((\<lambda>c. cache_of s c i)(c := x)) y l"
  shows "caches_ok ((unfocus c w s)\<lparr>cy_owner := (cy_owner s)(i := o'), cy_last := (cy_last s)(i := l)\<rparr>)"
  unfolding caches_ok_def
proof
  fix j
  have "(\<lambda>c'. ((cache_of s)(c := cached w)) c' j) = (if j = i then (\<lambda>c. cache_of s c i)(c := x) else (\<lambda>c. cache_of s c j))"
    using assms(2) by (auto simp: fun_eq_iff)
  then show "extent_ok (cy_owner ((unfocus c w s)\<lparr>cy_owner := (cy_owner s)(i := o'), cy_last := (cy_last s)(i := l)\<rparr>) j)
      (\<lambda>c'. cache_of ((unfocus c w s)\<lparr>cy_owner := (cy_owner s)(i := o'), cy_last := (cy_last s)(i := l)\<rparr>) c' j)
      (server_of ((unfocus c w s)\<lparr>cy_owner := (cy_owner s)(i := o'), cy_last := (cy_last s)(i := l)\<rparr>) j)
      (cy_last ((unfocus c w s)\<lparr>cy_owner := (cy_owner s)(i := o'), cy_last := (cy_last s)(i := l)\<rparr>) j)"
    using assms(3,4) ok by (auto simp: caches_ok_def)
qed

lemma caches_upd_id: "(unfocus c w s)\<lparr>cy_owner := (cy_owner s)(i := cy_owner s i), cy_last := (cy_last s)(i := cy_last s i)\<rparr> = unfocus c w s"
  by (simp add: unfocus_def fun_upd_idem)

lemma caches_ok_fill:
  assumes "caches_ok s" "cy_owner s i = Some c" "cy_last s i \<noteq> None" "stored w = server_of s"
    "cached w = (case cache_of s c i of None \<Rightarrow> (cache_of s c)(i \<mapsto> (False, case server_of s i of None \<Rightarrow> [] | Some b \<Rightarrow> b))
       | Some _ \<Rightarrow> cache_of s c)"
  shows "caches_ok (unfocus c w s)"
proof -
  have ok: "extent_ok (Some c) (\<lambda>c. cache_of s c i) (server_of s i) (cy_last s i)"
    using assms(1,2) by (auto simp: caches_ok_def dest: spec [of _ i])
  define x where "x = (case cache_of s c i of None \<Rightarrow> Some (False, case server_of s i of None \<Rightarrow> [] | Some b \<Rightarrow> b) | y \<Rightarrow> y)"
  have "extent_ok (cy_owner s i) ((\<lambda>c. cache_of s c i)(c := x)) (server_of s i) (cy_last s i)"
    using extent_ok_fill [OF ok assms(3)] ok assms(2) by (auto simp: x_def fun_upd_idem split: option.splits)
  moreover have "cached w = (cache_of s c)(i := x)"
    using assms(5) by (auto simp: x_def fun_upd_idem split: option.splits)
  moreover have "stored w = (server_of s)(i := server_of s i)" using assms(4) by simp
  ultimately have "caches_ok ((unfocus c w s)\<lparr>cy_owner := (cy_owner s)(i := cy_owner s i), cy_last := (cy_last s)(i := cy_last s i)\<rparr>)"
    by (intro caches_ok_unfocus [OF assms(1)])
  then show ?thesis by (simp only: caches_upd_id)
qed

lemma ec_get_effect:
  assumes "reliable w"
  shows "\<exists>r w'. ec_get i b0 w = (r, w') \<and> reliable w' \<and> stored w' = stored w \<and>
    cached w' = (case cached w i of None \<Rightarrow> (cached w)(i \<mapsto> (False, case stored w i of None \<Rightarrow> [] | Some b \<Rightarrow> b))
                 | Some _ \<Rightarrow> cached w)"
proof (cases "cached w i")
  case None
  then obtain w' where "ec_get i b0 w = (case stored w i of None \<Rightarrow> ((ex_IOERR, []), w') | Some b \<Rightarrow> ((ex_OK, b), w'))"
    "reliable w'" "stored w' = stored w" "cached w' = (cached w)(i \<mapsto> (False, case stored w i of None \<Rightarrow> [] | Some b \<Rightarrow> b))"
    using ec_get_miss [OF assms] by blast
  with None show ?thesis by (cases "stored w i") auto
next
  case (Some db)
  obtain d b where "cached w i = Some (d, b)" using Some by (cases db) auto
  from ec_get_hit [OF assms this, of b0] this show ?thesis by auto
qed

lemma caches_ok_step: "caches_step s t \<Longrightarrow> caches_ok s \<Longrightarrow> caches_ok t"
proof (induction rule: caches_step.induct)
  case (take_lock s i c)
  then show ?case by (auto simp: caches_ok_def extent_ok_def)
next
  case (read_ext s i c b0 k r w)
  then show ?case
    using ec_get_effect [of "focus c k s" i b0, unfolded focus_simps(1,2)] by (intro caches_ok_fill [where i = i]) auto
next
  case (stat_ext s i c k r w)
  then show ?case
    using ec_getattr_effect [of "focus c k s" i, unfolded focus_simps(1,2)] by (intro caches_ok_fill [where i = i]) auto
next
  case (write_ext s i c b k r w)
  have "cached w = (cache_of s c)(i := Some (True, b))" "stored w = (server_of s)(i := server_of s i)"
    using ec_put_effect [of "focus c k s" i b] write_ext(2) by auto
  moreover have "extent_ok (cy_owner s i) ((\<lambda>c. cache_of s c i)(c := Some (True, b))) (server_of s i) (Some b)"
    using write_ext by (auto simp: caches_ok_def extent_ok_def)
  ultimately have "caches_ok ((unfocus c w s)\<lparr>cy_owner := (cy_owner s)(i := cy_owner s i), cy_last := (cy_last s)(i := Some b)\<rparr>)"
    by (intro caches_ok_unfocus [OF write_ext(3)])
  then show ?case by (simp add: unfocus_def)
next
  case (erase_ext s i c k r w)
  have "cache_of s c i \<noteq> None" using erase_ext(2) by (simp add: cache_of_def)
  then have "cached w = (cache_of s c)(i := None)" "stored w = (server_of s)(i := None)"
    using ec_remove_effect [of "focus c k s" i] erase_ext(3) by auto
  moreover have "extent_ok (cy_owner s i) ((\<lambda>c. cache_of s c i)(c := None)) None None"
    using erase_ext by (auto simp: caches_ok_def extent_ok_def)
  ultimately have "caches_ok ((unfocus c w s)\<lparr>cy_owner := (cy_owner s)(i := cy_owner s i), cy_last := (cy_last s)(i := None)\<rparr>)"
    by (intro caches_ok_unfocus [OF erase_ext(4)])
  then show ?case by (simp add: unfocus_def)
next
  case (give_lock s i c k w)
  define y where "y = (case cache_of s c i of Some (True, b) \<Rightarrow> Some b | _ \<Rightarrow> server_of s i)"
  have "cached w = (cache_of s c)(i := None)" "stored w = (server_of s)(i := y)"
    using ec_flush_effect [of "focus c k s" i] give_lock(2)
    by (auto simp: dorelease_def y_def fun_upd_idem split: option.splits bool.splits prod.splits)
  moreover have "extent_ok None ((\<lambda>c. cache_of s c i)(c := None)) y (cy_last s i)"
  proof -
    have "extent_ok (Some c) (\<lambda>c. cache_of s c i) (server_of s i) (cy_last s i)"
      using give_lock by (auto simp: caches_ok_def dest: spec [of _ i])
    then show ?thesis
      by (auto simp: extent_ok_def y_def split: option.splits bool.splits prod.splits) metis
  qed
  ultimately have "caches_ok ((unfocus c w s)\<lparr>cy_owner := (cy_owner s)(i := None), cy_last := (cy_last s)(i := cy_last s i)\<rparr>)"
    by (intro caches_ok_unfocus [OF give_lock(3)])
  then show ?case by (simp add: unfocus_def)
qed

interpretation caches: invariant_system caches_init caches_step caches_ok
proof
  fix s
  assume "caches_init s"
  then show "caches_ok s"
    by (auto simp: caches_init_def caches_ok_def extent_ok_def cache_of_def server_of_def)
qed (rule caches_ok_step)

section \<open>Properties\<close>




text \<open>
  A failed \<^verbatim>\<open>get\<close> poisons the cache: when the server does not have the extent the client reports
  the error but keeps an empty entry, and every later \<^verbatim>\<open>get\<close> of that extent succeeds with
  empty contents.
\<close>

theorem failed_get_is_cached:
  assumes "reliable w" and "cached w i = None" and "stored w i = None"
  shows "\<exists>w1 w2. ec_get i b0 w = ((ex_IOERR, []), w1) \<and> ec_get i b1 w1 = ((ex_OK, []), w2)"
proof -
  obtain w1 where "ec_get i b0 w = ((ex_IOERR, []), w1)" "reliable w1" "cached w1 i = Some (False, [])"
    using ec_get_miss [OF assms(1,2), of b0] assms(3) by auto
  with ec_get_hit [of w1 i False "[]" b1] show ?thesis by auto
qed

definition empty_world :: ec_world where
  "empty_world = \<lparr>ew_list = [], ew_srv = [], ew_net = \<lambda>_. Delivered, ew_calls = 0, ew_clock = \<lambda>_. 0, ew_ticks = 0\<rparr>"

theorem failed_get_is_cached_witness:
  "\<exists>w1 w2. ec_get 5 ''old'' empty_world = ((ex_IOERR, []), w1) \<and> ec_get 5 ''old'' w1 = ((ex_OK, []), w2)"
  by (rule failed_get_is_cached) (simp_all add: empty_world_def reliable_def cached_def stored_def)

text \<open>
  \<^verbatim>\<open>remove\<close> reaches the server only for extents in the cache.  For any other extent it reports
  success and the server keeps the extent.
\<close>

theorem remove_uncached_does_nothing:
  assumes "cached w i = None"
  shows "ec_remove i w = (ex_OK, w)"
  using assms by (simp add: ec_remove_def cached_None)

theorem remove_uncached_does_nothing_witness:
  "ec_remove 1 (empty_world\<lparr>ew_srv := extent_server_new (0, 0, 0)\<rparr>) = (ex_OK, empty_world\<lparr>ew_srv := extent_server_new (0, 0, 0)\<rparr>)
   \<and> map_of (extent_server_new (0, 0, 0)) 1 \<noteq> None"
  using remove_uncached_does_nothing [of "empty_world\<lparr>ew_srv := extent_server_new (0, 0, 0)\<rparr>" 1]
  by (simp add: empty_world_def cached_def extent_server_new_def es_put_def ROOTDIR_def)

end
