(* ===== verification/Yfs_Dir.thy ===== *)
theory Yfs_Dir
  imports Prelude
begin

text \<open>
  The text format of directories in \<^verbatim>\<open>yfs_client.cc\<close>: a directory extent holds
  \<^verbatim>\<open>inum@name/inum@name/...\<close>, written by \<^verbatim>\<open>writeDirent\<close> and read by \<^verbatim>\<open>parsebuf\<close>.
\<close>

section \<open>Numbers as text\<close>

definition digit_char :: "nat \<Rightarrow> char" where
  "digit_char n = char_of (48 + n)"

definition is_digit :: "char \<Rightarrow> bool" where
  "is_digit c \<longleftrightarrow> 48 \<le> (of_char c :: nat) \<and> (of_char c :: nat) \<le> 57"

definition digit_val :: "char \<Rightarrow> nat" where
  "digit_val c = of_char c - 48"

definition is_space :: "char \<Rightarrow> bool" where
  "is_space c \<longleftrightarrow> (of_char c :: nat) = 32 \<or> (9 \<le> (of_char c :: nat) \<and> (of_char c :: nat) \<le> 13)"

fun dec_string :: "nat \<Rightarrow> string" where
  "dec_string n = (if n < 10 then [digit_char n] else dec_string (n div 10) @ [digit_char (n mod 10)])"

declare dec_string.simps [simp del]

definition dec_val :: "string \<Rightarrow> nat" where
  "dec_val ds = foldl (\<lambda>v c. v * 10 + digit_val c) 0 ds"

text \<open>
  \<^verbatim>\<open>filename\<close> prints an inode number; \<^verbatim>\<open>n2i\<close> reads one with \<^verbatim>\<open>istringstream >> unsigned long long\<close>: leading
  blanks are skipped, a sign is accepted, no digits give 0, and a number beyond 64 bits gives
  the largest one.
\<close>

definition yfs_filename :: "u64 \<Rightarrow> string" where
  "yfs_filename i = dec_string (unat i)"

definition n2i :: "string \<Rightarrow> u64" where
  "n2i n =
     (let s = dropWhile is_space n;
          neg = (s \<noteq> [] \<and> hd s = CHR ''-'');
          s = (if s \<noteq> [] \<and> (hd s = CHR ''-'' \<or> hd s = CHR ''+'') then tl s else s);
          ds = takeWhile is_digit s
      in if ds = [] then 0
         else if dec_val ds \<ge> 2 ^ 64 then - 1
         else if neg then - word_of_nat (dec_val ds) else word_of_nat (dec_val ds))"

section \<open>Entries\<close>

definition ELEMENTSEPERATOR :: char where "ELEMENTSEPERATOR = CHR ''/''"
definition INUMSEPERATOR :: char where "INUMSEPERATOR = CHR ''@''"

record dirent =
  de_name :: string
  de_inum :: u64

text \<open>A \<^verbatim>\<open>const char*\<close> ends at its first null character.\<close>

definition c_str :: "string \<Rightarrow> string" where
  "c_str s = takeWhile (\<lambda>c. c \<noteq> CHR 0x00) s"

definition createBuffElement :: "u64 \<Rightarrow> string \<Rightarrow> string" where
  "createBuffElement i buf = yfs_filename i @ [INUMSEPERATOR] @ c_str buf"

lemma split_shorter: "s \<noteq> [] \<Longrightarrow> length (dropWhile P s) - Suc 0 < length s"
  using length_dropWhile_le [of P s] by (cases s) (auto simp: less_Suc_eq_le)

text \<open>\<^verbatim>\<open>std::getline\<close> with a delimiter; nothing is read after a trailing delimiter.\<close>

function split :: "char \<Rightarrow> string \<Rightarrow> string list" where
  "split d s = (if s = [] then [] else takeWhile (\<lambda>c. c \<noteq> d) s # split d (drop 1 (dropWhile (\<lambda>c. c \<noteq> d) s)))"
  by pat_completeness auto
termination
  by (relation "measure (\<lambda>(d, s). length s)") (auto simp: less_Suc_eq_le intro: split_shorter)

declare split.simps [simp del]

text \<open>\<^verbatim>\<open>parseDirent\<close> dereferences the iterator of the second piece without looking for the end.\<close>

definition parseDirent :: "string \<Rightarrow> dirent res" where
  "parseDirent value =
     (case split INUMSEPERATOR value of
        a # b # _ \<Rightarrow> Inr \<lparr>de_name = b, de_inum = n2i a\<rparr>
      | _ \<Rightarrow> Inl Out_Of_Bounds)"

fun parse_all :: "string list \<Rightarrow> dirent list res" where
  "parse_all [] = Inr []"
| "parse_all (s # ss) = res_bind (parseDirent s) (\<lambda>e. res_bind (parse_all ss) (\<lambda>es. Inr (e # es)))"

definition parsebuf :: "string \<Rightarrow> dirent list res" where
  "parsebuf buf = parse_all (split ELEMENTSEPERATOR buf)"

fun write_rest :: "dirent list \<Rightarrow> string" where
  "write_rest [] = []"
| "write_rest (e # es) = [ELEMENTSEPERATOR] @ createBuffElement (de_inum e) (de_name e) @ write_rest es"

definition writeDirent :: "dirent list \<Rightarrow> string" where
  "writeDirent es = (case es of [] \<Rightarrow> [] | e # es' \<Rightarrow> createBuffElement (de_inum e) (de_name e) @ write_rest es')"

section \<open>Reading back what was written\<close>

lemma of_char_digit: "n < 10 \<Longrightarrow> (of_char (digit_char n) :: nat) = 48 + n"
  by (simp add: digit_char_def)

lemma is_digit_digit [simp]: "n < 10 \<Longrightarrow> is_digit (digit_char n)"
  by (simp add: is_digit_def of_char_digit)

lemma digit_val_digit [simp]: "n < 10 \<Longrightarrow> digit_val (digit_char n) = n"
  by (simp add: digit_val_def of_char_digit)

lemma dec_string_digits: "c \<in> set (dec_string n) \<Longrightarrow> is_digit c"
proof (induction n rule: dec_string.induct)
  case (1 n)
  then show ?case by (subst (asm) (2) dec_string.simps) (auto split: if_splits)
qed

lemma dec_string_nonempty: "dec_string n \<noteq> []"
  by (subst dec_string.simps) simp

lemma dec_val_string: "dec_val (dec_string n) = n"
proof (induction n rule: dec_string.induct)
  case (1 n)
  then show ?case by (subst dec_string.simps) (auto simp: dec_val_def)
qed

lemma digit_not_special: "is_digit c \<Longrightarrow> \<not> is_space c \<and> c \<noteq> CHR ''-'' \<and> c \<noteq> CHR ''+'' \<and> c \<noteq> CHR ''@'' \<and> c \<noteq> CHR ''/''"
  by (auto simp: is_digit_def is_space_def)

lemma n2i_filename: "n2i (yfs_filename i) = i"
proof -
  let ?s = "dec_string (unat i)"
  obtain c r where s: "?s = c # r" using dec_string_nonempty [of "unat i"] by (cases ?s) auto
  have c: "is_digit c" and all: "\<forall>x \<in> set ?s. is_digit x" using dec_string_digits [of _ "unat i"] s by auto
  have d: "dropWhile is_space ?s = ?s" and t: "takeWhile is_digit ?s = ?s"
    using digit_not_special [OF c] all by (simp_all add: s)
  have "hd ?s \<noteq> CHR ''-''" "hd ?s \<noteq> CHR ''+''" using digit_not_special [OF c] by (simp_all add: s)
  moreover have "unat i < 2 ^ 64" using unsigned_less [of i, where ?'a = nat] by simp
  ultimately show ?thesis
    using dec_string_nonempty [of "unat i"] by (simp add: n2i_def yfs_filename_def Let_def d t dec_val_string)
qed

text \<open>
  A file name that the format can represent: not empty, without the two separators and without a
  null character.
\<close>

definition valid_name :: "string \<Rightarrow> bool" where
  "valid_name n \<longleftrightarrow> n \<noteq> [] \<and> CHR ''/'' \<notin> set n \<and> CHR ''@'' \<notin> set n \<and> CHR 0x00 \<notin> set n"

lemma c_str_valid: "CHR 0x00 \<notin> set n \<Longrightarrow> c_str n = n"
  unfolding c_str_def by (rule takeWhile_eq_all_conv [THEN iffD2]) auto

lemma split_Nil [simp]: "split d [] = []"
  by (subst split.simps) simp

lemma split_piece: "d \<notin> set p \<Longrightarrow> split d (p @ d # s) = p # split d s"
proof -
  assume "d \<notin> set p"
  then have "takeWhile (\<lambda>c. c \<noteq> d) (p @ d # s) = p" "dropWhile (\<lambda>c. c \<noteq> d) (p @ d # s) = d # s"
    by (induction p) auto
  then show ?thesis by (subst split.simps) simp
qed

lemma split_last: "d \<notin> set p \<Longrightarrow> p \<noteq> [] \<Longrightarrow> split d p = [p]"
proof -
  assume "d \<notin> set p" "p \<noteq> []"
  then have t: "takeWhile (\<lambda>c. c \<noteq> d) p = p" and u: "dropWhile (\<lambda>c. c \<noteq> d) p = []" by auto
  show ?thesis using \<open>p \<noteq> []\<close> by (subst split.simps) (simp only: t u drop_Nil split_Nil if_False)
qed

lemma filename_clean: "CHR ''@'' \<notin> set (yfs_filename i)" "CHR ''/'' \<notin> set (yfs_filename i)"
  using dec_string_digits [of _ "unat i"] digit_not_special by (auto simp: yfs_filename_def)

lemma parseDirent_element:
  assumes "valid_name n"
  shows "parseDirent (createBuffElement i n) = Inr \<lparr>de_name = n, de_inum = i\<rparr>"
proof -
  have "split INUMSEPERATOR (createBuffElement i n) = [yfs_filename i, n]"
    using assms filename_clean [of i]
    by (simp add: createBuffElement_def INUMSEPERATOR_def c_str_valid split_piece split_last valid_name_def)
  then show ?thesis by (simp add: parseDirent_def n2i_filename)
qed

definition entries_ok :: "dirent list \<Rightarrow> bool" where
  "entries_ok es \<longleftrightarrow> (\<forall>e \<in> set es. valid_name (de_name e))"

lemma element_clean:
  assumes "valid_name n"
  shows "CHR ''/'' \<notin> set (createBuffElement i n)" "createBuffElement i n \<noteq> []"
  using assms filename_clean [of i] by (auto simp: createBuffElement_def INUMSEPERATOR_def c_str_valid valid_name_def)

lemma writeDirent_Cons:
  "writeDirent (e # es) = createBuffElement (de_inum e) (de_name e) @
     (if es = [] then [] else [ELEMENTSEPERATOR] @ writeDirent es)"
  by (cases es) (simp_all add: writeDirent_def)

lemma writeDirent_Nil [simp]: "writeDirent [] = []"
  by (simp add: writeDirent_def)

lemma parsebuf_writeDirent: "entries_ok es \<Longrightarrow> parsebuf (writeDirent es) = Inr es"
proof (induction es)
  case Nil
  then show ?case by (simp add: parsebuf_def)
next
  case (Cons e es)
  have v: "valid_name (de_name e)" and IH: "parsebuf (writeDirent es) = Inr es"
    using Cons by (auto simp: entries_ok_def)
  let ?b = "createBuffElement (de_inum e) (de_name e)"
  have "split ELEMENTSEPERATOR (writeDirent (e # es)) = ?b # split ELEMENTSEPERATOR (writeDirent es)"
    using element_clean [OF v, of "de_inum e"]
    by (cases "es = []") (simp_all add: writeDirent_Cons ELEMENTSEPERATOR_def split_piece split_last)
  with IH show ?case
    by (simp add: parsebuf_def parseDirent_element [OF v])
qed

lemma writeDirent_snoc:
  "writeDirent (es @ [e]) = writeDirent es @ (if es = [] then [] else [ELEMENTSEPERATOR]) @
     createBuffElement (de_inum e) (de_name e)"
  by (induction es) (simp_all add: writeDirent_Cons)

section \<open>Properties\<close>

text \<open>
  C27: the directory format round-trips: parsing a directory that \<^verbatim>\<open>writeDirent\<close> wrote gives back the
  same entries in the same order, for all 64-bit inode numbers and all names that contain
  neither separator, and appending an element the way \<^verbatim>\<open>createFile\<close> and \<^verbatim>\<open>createDirectory\<close> do
  gives the directory with the new entry at its end.
\<close>

theorem directory_roundtrip:
  assumes "\<forall>e \<in> set es. valid_name (de_name e)" and "valid_name n"
  shows "parsebuf (writeDirent es) = Inr es \<and>
     parsebuf (writeDirent es @ (if es = [] then [] else [ELEMENTSEPERATOR]) @ createBuffElement i n) =
       Inr (es @ [\<lparr>de_name = n, de_inum = i\<rparr>])"
  using parsebuf_writeDirent [of es] parsebuf_writeDirent [of "es @ [\<lparr>de_name = n, de_inum = i\<rparr>]"] assms
  by (auto simp: entries_ok_def writeDirent_snoc)

theorem directory_roundtrip_witness:
  "parsebuf (writeDirent [\<lparr>de_name = ''a'', de_inum = 7\<rparr>] @ [ELEMENTSEPERATOR] @ createBuffElement 12 ''b.txt'') =
     Inr [\<lparr>de_name = ''a'', de_inum = 7\<rparr>, \<lparr>de_name = ''b.txt'', de_inum = 12\<rparr>]"
  using directory_roundtrip [of "[\<lparr>de_name = ''a'', de_inum = 7\<rparr>]" "''b.txt''" 12] by (simp add: valid_name_def)

text \<open>
  A name that contains the inode separator does not survive: the entry of \<^verbatim>\<open>p@q\<close> is read back
  under the name \<^verbatim>\<open>p\<close>, so the file is not found under the name it was created with.
\<close>

theorem at_sign_truncates_name:
  assumes "valid_name p" and "CHR ''/'' \<notin> set q" and "CHR 0x00 \<notin> set q"
  shows "parsebuf (createBuffElement i (p @ CHR ''@'' # q)) = Inr [\<lparr>de_name = p, de_inum = i\<rparr>]"
proof -
  have c: "createBuffElement i (p @ CHR ''@'' # q) = yfs_filename i @ CHR ''@'' # p @ CHR ''@'' # q"
    using assms by (simp add: createBuffElement_def c_str_valid valid_name_def INUMSEPERATOR_def)
  have "CHR ''/'' \<notin> set (createBuffElement i (p @ CHR ''@'' # q))"
    using assms filename_clean [of i] by (simp add: c valid_name_def)
  then have "split ELEMENTSEPERATOR (createBuffElement i (p @ CHR ''@'' # q)) = [createBuffElement i (p @ CHR ''@'' # q)]"
    by (simp add: ELEMENTSEPERATOR_def c split_last)
  moreover have "split INUMSEPERATOR (createBuffElement i (p @ CHR ''@'' # q)) = yfs_filename i # p # split (CHR ''@'') q"
    using assms(1) filename_clean [of i] by (simp add: c INUMSEPERATOR_def split_piece valid_name_def)
  ultimately show ?thesis by (simp add: parsebuf_def parseDirent_def n2i_filename)
qed

theorem at_sign_truncates_name_witness:
  "parsebuf (createBuffElement 9 ''me@home'') = Inr [\<lparr>de_name = ''me'', de_inum = 9\<rparr>]"
  using at_sign_truncates_name [of "''me''" "''home''" 9] by (simp add: valid_name_def)

end
