(* ===== verification/Yfs.thy ===== *)
theory Yfs
  imports Extent_Cache Yfs_Dir
begin

text \<open>
  The file system operations of \<^verbatim>\<open>yfs_client.cc\<close> on top of the extent client.  The calls to the lock
  client are recorded in a trace, in the order in which an operation makes them; operations
  return their status and results together with the new state.
\<close>

section \<open>State\<close>

datatype lock_ev = Acq u64 | Rel u64

record yfs =
  y_ec :: ec_world
  y_ev :: "lock_ev list"

definition yfs_OK :: i32 where "yfs_OK = 0"
definition yfs_RPCERR :: i32 where "yfs_RPCERR = 1"
definition yfs_NOENT :: i32 where "yfs_NOENT = 2"
definition yfs_IOERR :: i32 where "yfs_IOERR = 3"
definition yfs_EXIST :: i32 where "yfs_EXIST = 4"

text \<open>The errno value that \<^verbatim>\<open>createFile\<close> and \<^verbatim>\<open>createDirectory\<close> return.\<close>

definition EEXIST :: i32 where "EEXIST = 17"

record fileinfo =
  fl_size :: u64
  fl_atime :: u64
  fl_mtime :: u64
  fl_ctime :: u64

record dirinfo =
  dr_atime :: u64
  dr_mtime :: u64
  dr_ctime :: u64

definition lc_acquire :: "u64 \<Rightarrow> yfs \<Rightarrow> yfs" where
  "lc_acquire lid y = y\<lparr>y_ev := y_ev y @ [Acq lid]\<rparr>"

definition lc_release :: "u64 \<Rightarrow> yfs \<Rightarrow> yfs" where
  "lc_release lid y = y\<lparr>y_ev := y_ev y @ [Rel lid]\<rparr>"

definition on_ec :: "(ec_world \<Rightarrow> 'a \<times> ec_world) \<Rightarrow> yfs \<Rightarrow> 'a \<times> yfs" where
  "on_ec f y = (let (r, w) = f (y_ec y) in (r, y\<lparr>y_ec := w\<rparr>))"

definition isfile :: "u64 \<Rightarrow> bool" where
  "isfile i \<longleftrightarrow> i AND 0x80000000 \<noteq> 0"

definition isdir :: "u64 \<Rightarrow> bool" where
  "isdir i \<longleftrightarrow> \<not> isfile i"

section \<open>Operations\<close>

definition getfile :: "u64 \<Rightarrow> fileinfo \<Rightarrow> yfs \<Rightarrow> (i32 \<times> fileinfo) \<times> yfs" where
  "getfile i fin y =
     (let y = lc_acquire i y; ((ret, a), y) = on_ec (ec_getattr i) y
      in if ret \<noteq> ex_OK then ((yfs_IOERR, fin), lc_release i y)
         else ((yfs_OK, fin\<lparr>fl_atime := ucast (at_atime a), fl_mtime := ucast (at_mtime a),
                            fl_ctime := ucast (at_ctime a), fl_size := ucast (at_size a)\<rparr>), lc_release i y))"

definition getdir :: "u64 \<Rightarrow> dirinfo \<Rightarrow> yfs \<Rightarrow> (i32 \<times> dirinfo) \<times> yfs" where
  "getdir i din y =
     (let y = lc_acquire i y; ((ret, a), y) = on_ec (ec_getattr i) y
      in if ret \<noteq> ex_OK then ((yfs_IOERR, din), lc_release i y)
         else ((yfs_OK, din\<lparr>dr_atime := ucast (at_atime a), dr_mtime := ucast (at_mtime a),
                            dr_ctime := ucast (at_ctime a)\<rparr>), lc_release i y))"

text \<open>\<open>rnd\<close> is the value of \<^verbatim>\<open>random()\<close>.\<close>

definition createFile :: "u64 \<Rightarrow> u64 \<Rightarrow> u64 \<Rightarrow> string \<Rightarrow> yfs \<Rightarrow> ((i32 \<times> u64) \<times> yfs) res" where
  "createFile rnd i0 parent buf y =
     (let y = lc_acquire parent y; ((ret, parent_buf), y) = on_ec (ec_get parent []) y
      in if ret \<noteq> ex_OK then Inr ((yfs_NOENT, i0), y)
         else res_bind (parsebuf parent_buf) (\<lambda>contents.
           if \<exists>e \<in> set contents. de_name e = c_str buf \<and> isfile (de_inum e)
           then Inr ((EEXIST, i0), lc_release parent y)
           else let parent_buf = parent_buf @ (if contents \<noteq> [] then [ELEMENTSEPERATOR] else []);
                    i = rnd OR 0x80000000;
                    parent_buf = parent_buf @ createBuffElement i buf;
                    (_, y) = on_ec (ec_put i []) y;
                    (_, y) = on_ec (ec_put parent parent_buf) y
                in Inr ((yfs_OK, i), lc_release parent y)))"

definition createDirectory :: "u64 \<Rightarrow> u64 \<Rightarrow> u64 \<Rightarrow> string \<Rightarrow> yfs \<Rightarrow> ((i32 \<times> u64) \<times> yfs) res" where
  "createDirectory rnd i0 parent buf y =
     (let y = lc_acquire parent y; ((ret, parent_buf), y) = on_ec (ec_get parent []) y
      in if ret \<noteq> ex_OK then Inr ((yfs_NOENT, i0), lc_release parent y)
         else res_bind (parsebuf parent_buf) (\<lambda>contents.
           if \<exists>e \<in> set contents. de_name e = c_str buf \<and> \<not> isfile (de_inum e)
           then Inr ((EEXIST, i0), lc_release parent y)
           else let parent_buf = parent_buf @ (if contents \<noteq> [] then [ELEMENTSEPERATOR] else []);
                    i = rnd AND 0x7FFFFFFF;
                    parent_buf = parent_buf @ createBuffElement i buf;
                    (_, y) = on_ec (ec_put i []) y;
                    (_, y) = on_ec (ec_put parent parent_buf) y
                in Inr ((yfs_OK, i), lc_release parent y)))"

fun take_file :: "string \<Rightarrow> dirent list \<Rightarrow> (u64 \<times> dirent list) option" where
  "take_file n [] = None"
| "take_file n (e # es) =
     (if de_name e = n \<and> isfile (de_inum e) then Some (de_inum e, es)
      else map_option (\<lambda>(i, es). (i, e # es)) (take_file n es))"

definition unlinkFile :: "u64 \<Rightarrow> string \<Rightarrow> yfs \<Rightarrow> (i32 \<times> yfs) res" where
  "unlinkFile parent buf y =
     (let y = lc_acquire parent y; ((ret, parent_buf), y) = on_ec (ec_get parent []) y
      in if ret \<noteq> ex_OK then Inr (yfs_NOENT, lc_release parent y)
         else res_bind (parsebuf parent_buf) (\<lambda>contents.
           case take_file (c_str buf) contents of
             None \<Rightarrow> Inr (yfs_NOENT, lc_release parent y)
           | Some (fileInum, contents) \<Rightarrow>
               let y = lc_acquire fileInum y;
                   (_, y) = on_ec (ec_put parent (writeDirent contents)) y;
                   (_, y) = on_ec (ec_remove fileInum) y
               in Inr (yfs_OK, lc_release parent (lc_release fileInum y))))"

definition lookupResource :: "u64 \<Rightarrow> string \<Rightarrow> yfs \<Rightarrow> ((i32 \<times> u64) \<times> yfs) res" where
  "lookupResource parent buf y =
     (let y = lc_acquire parent y; ((ret, parent_buf), y) = on_ec (ec_get parent []) y
      in if ret \<noteq> ex_OK then Inr ((yfs_IOERR, 0), lc_release parent y)
         else res_bind (parsebuf parent_buf) (\<lambda>contents.
           Inr ((yfs_OK, case find (\<lambda>e. de_name e = c_str buf) contents of None \<Rightarrow> 0 | Some e \<Rightarrow> de_inum e),
                lc_release parent y)))"

definition getDirContents :: "u64 \<Rightarrow> string \<Rightarrow> yfs \<Rightarrow> (i32 \<times> string) \<times> yfs" where
  "getDirContents i buf y =
     (let y = lc_acquire i y; ((ret, buf), y) = on_ec (ec_get i buf) y
      in ((if ret = ex_OK then yfs_OK else yfs_IOERR, buf), lc_release i y))"

text \<open>\<^verbatim>\<open>std::string::resize\<close> pads with null characters.\<close>

definition str_resize :: "nat \<Rightarrow> string \<Rightarrow> string" where
  "str_resize n s = take n s @ replicate (n - length s) (CHR 0x00)"

definition setAttr :: "u64 \<Rightarrow> fileinfo \<Rightarrow> yfs \<Rightarrow> i32 \<times> yfs" where
  "setAttr i fi y =
     (let y = lc_acquire i y; ((ret, a), y) = on_ec (ec_getattr i) y
      in if ret = ex_OK
         then if ucast (at_size a) = fl_size fi then (yfs_OK, lc_release i y)
              else let ((_, buf), y) = on_ec (ec_get i []) y;
                       (_, y) = on_ec (ec_put i (str_resize (unat (fl_size fi)) buf)) y
                   in (yfs_OK, lc_release i y)
         else (yfs_IOERR, lc_release i y))"

text \<open>
  \<open>buf\<close> holds at least \<open>sz\<close> characters, and offsets are not negative: FUSE guarantees both.
\<close>

definition str_write :: "string \<Rightarrow> nat \<Rightarrow> nat \<Rightarrow> string \<Rightarrow> string" where
  "str_write buf sz off v =
     (let v = (if off + sz > length v then str_resize (off + sz) v else v)
      in take off v @ take sz buf @ drop (off + sz) v)"

definition writeFile :: "u64 \<Rightarrow> string \<Rightarrow> nat \<Rightarrow> nat \<Rightarrow> yfs \<Rightarrow> i32 \<times> yfs" where
  "writeFile i buf sz off y =
     (let y = lc_acquire i y; ((ret, v), y) = on_ec (ec_get i []) y
      in if ret = ex_OK
         then let (_, y) = on_ec (ec_put i (str_write buf sz off v)) y in (yfs_OK, lc_release i y)
         else (yfs_IOERR, lc_release i y))"

definition readFile :: "u64 \<Rightarrow> string \<Rightarrow> nat \<Rightarrow> nat \<Rightarrow> yfs \<Rightarrow> (i32 \<times> string) \<times> yfs" where
  "readFile i buf sz off y =
     (let y = lc_acquire i y; ((ret, v), y) = on_ec (ec_get i []) y
      in if ret = ex_OK
         then if off > length v then ((yfs_IOERR, buf), lc_release i y)
              else ((yfs_OK, take sz (drop off v)), lc_release i y)
         else ((yfs_IOERR, buf), lc_release i y))"

section \<open>What a client sees\<close>

text \<open>
  The contents of an extent from the point of view of the client: its cached copy, or else the
  server's.
\<close>

fun freshest :: "(bool \<times> string) option \<Rightarrow> string option \<Rightarrow> string option" where
  "freshest (Some (d, b)) s = Some b"
| "freshest None s = s"

definition seen :: "yfs \<Rightarrow> u64 \<rightharpoonup> string" where
  "seen y i = freshest (cached (y_ec y) i) (stored (y_ec y) i)"

definition yfs_ok :: "yfs \<Rightarrow> bool" where
  "yfs_ok y \<longleftrightarrow> reliable (y_ec y)"

lemma lc_frame [simp]:
  "seen (lc_acquire l y) = seen y" "seen (lc_release l y) = seen y"
  "yfs_ok (lc_acquire l y) = yfs_ok y" "yfs_ok (lc_release l y) = yfs_ok y"
  "y_ev (lc_acquire l y) = y_ev y @ [Acq l]" "y_ev (lc_release l y) = y_ev y @ [Rel l]"
  "cached (y_ec (lc_acquire l y)) = cached (y_ec y)" "cached (y_ec (lc_release l y)) = cached (y_ec y)"
  by (simp_all add: lc_acquire_def lc_release_def seen_def yfs_ok_def fun_eq_iff)

lemma yfs_get:
  assumes "yfs_ok y" "seen y i = Some b"
  shows "\<exists>y'. on_ec (ec_get i b0) y = ((ex_OK, b), y') \<and> yfs_ok y' \<and> seen y' = seen y \<and> y_ev y' = y_ev y \<and>
    dom (cached (y_ec y)) \<subseteq> dom (cached (y_ec y'))"
proof (cases "cached (y_ec y) i")
  case None
  then have "stored (y_ec y) i = Some b" using assms(2) by (simp add: seen_def)
  with ec_get_miss [of "y_ec y" i b0] None assms show ?thesis
    by (auto simp: on_ec_def yfs_ok_def seen_def fun_eq_iff split_beta)
next
  case (Some db)
  then obtain d where "cached (y_ec y) i = Some (d, b)" using assms(2) by (cases db) (simp add: seen_def)
  with ec_get_hit [of "y_ec y" i d b b0] assms show ?thesis
    by (auto simp: on_ec_def yfs_ok_def seen_def fun_eq_iff split_beta)
qed

lemma yfs_put:
  assumes "yfs_ok y"
  shows "\<exists>r y'. on_ec (ec_put i b) y = (r, y') \<and> yfs_ok y' \<and> seen y' = (seen y)(i \<mapsto> b) \<and> y_ev y' = y_ev y \<and>
    cached (y_ec y') = (cached (y_ec y))(i \<mapsto> (True, b))"
  using ec_put_effect [of "y_ec y" i b] assms
  by (auto simp: on_ec_def yfs_ok_def seen_def fun_eq_iff split_beta)

lemma yfs_remove:
  assumes "yfs_ok y" "cached (y_ec y) i \<noteq> None"
  shows "\<exists>r y'. on_ec (ec_remove i) y = (r, y') \<and> yfs_ok y' \<and> seen y' = (seen y)(i := None) \<and> y_ev y' = y_ev y"
  using ec_remove_effect [of "y_ec y" i] assms
  by (auto simp: on_ec_def yfs_ok_def seen_def fun_eq_iff split_beta split: option.splits)

text \<open>A directory whose entries are \<open>es\<close>.\<close>

definition dir_is :: "yfs \<Rightarrow> u64 \<Rightarrow> dirent list \<Rightarrow> bool" where
  "dir_is y d es \<longleftrightarrow> seen y d = Some (writeDirent es) \<and> entries_ok es"

lemma isfile_or: "isfile (rnd OR 0x80000000)"
proof -
  have "bit ((rnd OR 0x80000000) AND 0x80000000 :: u64) 31" by (simp add: bit_simps)
  then show ?thesis by (auto simp: isfile_def)
qed

lemma isdir_and: "isdir (rnd AND 0x7FFFFFFF)"
proof -
  have "(0x7FFFFFFF :: u64) AND 0x80000000 = 0" by simp
  then show ?thesis by (simp add: isdir_def isfile_def and.assoc)
qed

section \<open>Directory operations\<close>

lemma valid_c_str: "valid_name n \<Longrightarrow> c_str n = n"
  by (simp add: valid_name_def c_str_valid)

lemma createFile_effect:
  assumes "yfs_ok y" "dir_is y parent es" "valid_name n" "isdir parent"
    and "\<forall>e \<in> set es. \<not> (de_name e = n \<and> isfile (de_inum e))"
  shows "\<exists>i y'. createFile rnd i0 parent n y = Inr ((yfs_OK, i), y') \<and> isfile i \<and> yfs_ok y' \<and>
     dir_is y' parent (es @ [\<lparr>de_name = n, de_inum = i\<rparr>]) \<and>
     seen y' = (seen y)(i \<mapsto> [], parent \<mapsto> writeDirent (es @ [\<lparr>de_name = n, de_inum = i\<rparr>])) \<and>
     y_ev y' = y_ev y @ [Acq parent, Rel parent]"
proof -
  let ?i = "rnd OR 0x80000000"
  let ?b = "writeDirent (es @ [\<lparr>de_name = n, de_inum = ?i\<rparr>])"
  have parse: "parsebuf (writeDirent es) = Inr es" using assms(2) by (simp add: dir_is_def parsebuf_writeDirent)
  obtain y1 where y1: "on_ec (ec_get parent []) (lc_acquire parent y) = ((ex_OK, writeDirent es), y1)"
    "yfs_ok y1" "seen y1 = seen y" "y_ev y1 = y_ev y @ [Acq parent]"
    using yfs_get [of "lc_acquire parent y" parent "writeDirent es" "[]"] assms(1,2) by (auto simp: dir_is_def)
  obtain r2 y2 where y2: "on_ec (ec_put ?i []) y1 = (r2, y2)" "yfs_ok y2" "seen y2 = (seen y1)(?i \<mapsto> [])" "y_ev y2 = y_ev y1"
    using yfs_put [OF y1(2)] by blast
  obtain r3 y3 where y3: "on_ec (ec_put parent ?b) y2 = (r3, y3)" "yfs_ok y3" "seen y3 = (seen y2)(parent \<mapsto> ?b)" "y_ev y3 = y_ev y2"
    using yfs_put [OF y2(2)] by blast
  have "createFile rnd i0 parent n y = Inr ((yfs_OK, ?i), lc_release parent y3)"
  proof -
    have nodup: "(\<exists>e \<in> set es. de_name e = c_str n \<and> isfile (de_inum e)) = False"
      using assms(3,5) by (simp add: valid_c_str)
    have "(writeDirent es @ (if es \<noteq> [] then [ELEMENTSEPERATOR] else [])) @ createBuffElement ?i n = ?b"
      by (simp add: writeDirent_snoc)
    then show ?thesis
      using y1(1) y2(1) y3(1) parse by (simp add: createFile_def Let_def nodup)
  qed
  moreover have "dir_is (lc_release parent y3) parent (es @ [\<lparr>de_name = n, de_inum = ?i\<rparr>])"
    using y3 assms(2,3) by (auto simp: dir_is_def entries_ok_def)
  ultimately show ?thesis using y1 y2 y3 isfile_or [of rnd] by auto
qed

lemma lookup_effect:
  assumes "yfs_ok y" "dir_is y parent es" "CHR 0x00 \<notin> set n"
  shows "\<exists>y'. lookupResource parent n y = Inr ((yfs_OK, case find (\<lambda>e. de_name e = n) es of None \<Rightarrow> 0 | Some e \<Rightarrow> de_inum e), y') \<and>
     yfs_ok y' \<and> seen y' = seen y \<and> y_ev y' = y_ev y @ [Acq parent, Rel parent]"
proof -
  have parse: "parsebuf (writeDirent es) = Inr es" using assms(2) by (simp add: dir_is_def parsebuf_writeDirent)
  obtain y1 where y1: "on_ec (ec_get parent []) (lc_acquire parent y) = ((ex_OK, writeDirent es), y1)"
    "yfs_ok y1" "seen y1 = seen y" "y_ev y1 = y_ev y @ [Acq parent]"
    using yfs_get [of "lc_acquire parent y" parent "writeDirent es" "[]"] assms(1,2) by (auto simp: dir_is_def)
  then show ?thesis
    using parse assms(3) by (simp add: lookupResource_def Let_def c_str_valid)
qed

lemma take_file_entries: "take_file n es = Some (i, es') \<Longrightarrow> set es' \<subseteq> set es"
  by (induction es arbitrary: es') (auto split: if_splits)

lemma unlink_effect:
  assumes "yfs_ok y" "dir_is y parent es" "CHR 0x00 \<notin> set n" "take_file n es = Some (i, es')"
    and "i \<noteq> parent" "cached (y_ec y) i \<noteq> None"
  shows "\<exists>y'. unlinkFile parent n y = Inr (yfs_OK, y') \<and> yfs_ok y' \<and> dir_is y' parent es' \<and>
     seen y' = (seen y)(parent \<mapsto> writeDirent es', i := None) \<and>
     y_ev y' = y_ev y @ [Acq parent, Acq i, Rel i, Rel parent]"
proof -
  have parse: "parsebuf (writeDirent es) = Inr es" using assms(2) by (simp add: dir_is_def parsebuf_writeDirent)
  obtain y1 where y1: "on_ec (ec_get parent []) (lc_acquire parent y) = ((ex_OK, writeDirent es), y1)"
    "yfs_ok y1" "seen y1 = seen y" "y_ev y1 = y_ev y @ [Acq parent]" "cached (y_ec y1) i \<noteq> None"
    using yfs_get [of "lc_acquire parent y" parent "writeDirent es" "[]"] assms(1,2,6) by (auto simp: dir_is_def)
  obtain r2 y2 where y2: "on_ec (ec_put parent (writeDirent es')) (lc_acquire i y1) = (r2, y2)" "yfs_ok y2"
    "seen y2 = (seen y1)(parent \<mapsto> writeDirent es')" "y_ev y2 = y_ev y1 @ [Acq i]" "cached (y_ec y2) i \<noteq> None"
    using yfs_put [of "lc_acquire i y1" parent "writeDirent es'"] y1(2,5) assms(5) by auto
  obtain r3 y3 where y3: "on_ec (ec_remove i) y2 = (r3, y3)" "yfs_ok y3" "seen y3 = (seen y2)(i := None)" "y_ev y3 = y_ev y2"
    using yfs_remove [OF y2(2,5)] by blast
  have "unlinkFile parent n y = Inr (yfs_OK, lc_release parent (lc_release i y3))"
    using y1(1) y2(1) y3(1) parse assms(3,4) by (simp add: unlinkFile_def Let_def c_str_valid)
  moreover have "entries_ok es'" using take_file_entries [OF assms(4)] assms(2) by (auto simp: dir_is_def entries_ok_def)
  ultimately show ?thesis
    using y1 y2 y3 assms(5) by (auto simp: dir_is_def)
qed

section \<open>Properties\<close>

text \<open>
  C8: a created file can be looked up.  In a directory that has no entry called \<open>n\<close>, \<^verbatim>\<open>createFile\<close>
  succeeds with a file inode number, the new file is empty, the directory gains exactly one
  entry at its end, no other extent changes, the directory's lock is taken once and given
  back, and \<^verbatim>\<open>lookupResource\<close> then returns the number.
\<close>

theorem create_then_lookup:
  assumes "yfs_ok y" and "dir_is y parent es" and "valid_name n" and "isdir parent"
    and "\<forall>e \<in> set es. de_name e \<noteq> n"
  shows "\<exists>i y1 y2. createFile rnd i0 parent n y = Inr ((yfs_OK, i), y1) \<and>
     lookupResource parent n y1 = Inr ((yfs_OK, i), y2) \<and> isfile i \<and> seen y2 i = Some [] \<and>
     dir_is y2 parent (es @ [\<lparr>de_name = n, de_inum = i\<rparr>]) \<and>
     (\<forall>k. k \<noteq> i \<and> k \<noteq> parent \<longrightarrow> seen y2 k = seen y k) \<and>
     y_ev y1 = y_ev y @ [Acq parent, Rel parent]"
proof -
  obtain i y1 where c: "createFile rnd i0 parent n y = Inr ((yfs_OK, i), y1)" "isfile i" "yfs_ok y1"
    "dir_is y1 parent (es @ [\<lparr>de_name = n, de_inum = i\<rparr>])"
    "seen y1 = (seen y)(i \<mapsto> [], parent \<mapsto> writeDirent (es @ [\<lparr>de_name = n, de_inum = i\<rparr>]))"
    "y_ev y1 = y_ev y @ [Acq parent, Rel parent]"
    using createFile_effect [OF assms(1-4), of rnd i0] assms(5) by blast
  have "find (\<lambda>e. de_name e = n) (es @ [\<lparr>de_name = n, de_inum = i\<rparr>]) = Some \<lparr>de_name = n, de_inum = i\<rparr>"
    using assms(5) by (induction es) auto
  then obtain y2 where "lookupResource parent n y1 = Inr ((yfs_OK, i), y2)" "seen y2 = seen y1"
    using lookup_effect [OF c(3,4), of n] assms(3) by (auto simp: valid_name_def)
  moreover have "i \<noteq> parent" using c(2) assms(4) by (auto simp: isdir_def)
  ultimately show ?thesis using c by (auto simp: dir_is_def)
qed

definition empty_root :: yfs where
  "empty_root = \<lparr>y_ec = empty_world\<lparr>ew_srv := extent_server_new (0, 0, 0)\<rparr>, y_ev = []\<rparr>"

lemma empty_root_ok: "yfs_ok empty_root" "dir_is empty_root 1 []" "isdir 1"
  by (simp_all add: empty_root_def yfs_ok_def dir_is_def seen_def reliable_def empty_world_def cached_def stored_def
      extent_server_new_def es_put_def ROOTDIR_def entries_ok_def isdir_def isfile_def)

theorem create_then_lookup_witness:
  "\<exists>i y1 y2. createFile 5 0 1 ''notes'' empty_root = Inr ((yfs_OK, i), y1) \<and>
     lookupResource 1 ''notes'' y1 = Inr ((yfs_OK, i), y2) \<and> isfile i \<and> seen y2 i = Some []"
  using create_then_lookup [OF empty_root_ok(1,2) _ empty_root_ok(3), of "''notes''" 5 0]
  by (auto simp: valid_name_def)


definition one_file :: yfs where
  "one_file = \<lparr>y_ec = empty_world\<lparr>
     ew_list := [(0x80000005, \<lparr>ce_is_dirty = True, ce_attr = zero_attr, ce_eid = 0x80000005, ce_buf = ''hello''\<rparr>)],
     ew_srv := [(1, \<lparr>fi_attr = zero_attr, fi_id = 1, fi_buf = writeDirent [\<lparr>de_name = ''notes'', de_inum = 0x80000005\<rparr>]\<rparr>)]\<rparr>, y_ev = []\<rparr>"

lemma one_file_ok:
  "yfs_ok one_file" "dir_is one_file 1 [\<lparr>de_name = ''notes'', de_inum = 0x80000005\<rparr>]"
  "cached (y_ec one_file) 0x80000005 = Some (True, ''hello'')" "seen one_file 0x80000005 = Some ''hello''"
  by (simp_all add: one_file_def yfs_ok_def dir_is_def seen_def reliable_def empty_world_def cached_def stored_def
      entries_ok_def valid_name_def)


section \<open>File contents\<close>

lemma str_write_length: "sz \<le> length buf \<Longrightarrow> length (str_write buf sz off v) = max (length v) (off + sz)"
  by (auto simp: str_write_def str_resize_def Let_def)

lemma str_write_nth:
  assumes "sz \<le> length buf" "k < max (length v) (off + sz)"
  shows "str_write buf sz off v ! k =
    (if off \<le> k \<and> k < off + sz then buf ! (k - off) else if k < length v then v ! k else CHR 0x00)"
  using assms by (auto simp: str_write_def str_resize_def Let_def nth_append)

lemma str_write_read: "sz \<le> length buf \<Longrightarrow> take sz (drop off (str_write buf sz off v)) = take sz buf"
  by (auto simp: str_write_def str_resize_def Let_def)

lemma write_effect:
  assumes "yfs_ok y" "seen y i = Some v"
  shows "\<exists>y'. writeFile i buf sz off y = (yfs_OK, y') \<and> yfs_ok y' \<and>
     seen y' = (seen y)(i \<mapsto> str_write buf sz off v) \<and> y_ev y' = y_ev y @ [Acq i, Rel i]"
proof -
  obtain y1 where y1: "on_ec (ec_get i []) (lc_acquire i y) = ((ex_OK, v), y1)" "yfs_ok y1" "seen y1 = seen y"
    "y_ev y1 = y_ev y @ [Acq i]"
    using yfs_get [of "lc_acquire i y" i v "[]"] assms by auto
  obtain r2 y2 where y2: "on_ec (ec_put i (str_write buf sz off v)) y1 = (r2, y2)" "yfs_ok y2"
    "seen y2 = (seen y1)(i \<mapsto> str_write buf sz off v)" "y_ev y2 = y_ev y1"
    using yfs_put [OF y1(2)] by blast
  show ?thesis using y1 y2 by (simp add: writeFile_def Let_def)
qed

lemma read_effect:
  assumes "yfs_ok y" "seen y i = Some v"
  shows "\<exists>y'. readFile i b0 sz off y = ((if off > length v then (yfs_IOERR, b0) else (yfs_OK, take sz (drop off v))), y') \<and>
     yfs_ok y' \<and> seen y' = seen y \<and> y_ev y' = y_ev y @ [Acq i, Rel i]"
proof -
  obtain y1 where "on_ec (ec_get i []) (lc_acquire i y) = ((ex_OK, v), y1)" "yfs_ok y1" "seen y1 = seen y"
    "y_ev y1 = y_ev y @ [Acq i]"
    using yfs_get [of "lc_acquire i y" i v "[]"] assms by auto
  then show ?thesis by (simp add: readFile_def Let_def)
qed

text \<open>
  C9: reads see writes.  Writing \<open>sz\<close> bytes at an offset makes the file as long as needed, replaces
  exactly the written range, keeps every other byte, fills a gap with null bytes, and a read
  of the same range returns the bytes written.
\<close>

theorem read_after_write:
  assumes "yfs_ok y" and "seen y i = Some v" and "sz \<le> length buf"
  shows "\<exists>y1 y2 v'. writeFile i buf sz off y = (yfs_OK, y1) \<and> readFile i b0 sz off y1 = ((yfs_OK, take sz buf), y2) \<and>
     seen y2 = (seen y)(i \<mapsto> v') \<and> length v' = max (length v) (off + sz) \<and>
     (\<forall>k < length v'. v' ! k = (if off \<le> k \<and> k < off + sz then buf ! (k - off)
        else if k < length v then v ! k else CHR 0x00))"
proof -
  let ?v = "str_write buf sz off v"
  obtain y1 where y1: "writeFile i buf sz off y = (yfs_OK, y1)" "yfs_ok y1" "seen y1 = (seen y)(i \<mapsto> ?v)"
    using write_effect [OF assms(1,2)] by blast
  have "seen y1 i = Some ?v" using y1(3) by simp
  from read_effect [OF y1(2) this, of b0 sz off] obtain y2 where
    "readFile i b0 sz off y1 = ((if off > length ?v then (yfs_IOERR, b0) else (yfs_OK, take sz (drop off ?v))), y2)"
    "seen y2 = seen y1" by blast
  with y1 assms(3) show ?thesis
    by (intro exI [of _ y1] exI [of _ y2] exI [of _ ?v])
       (auto simp: str_write_length str_write_nth str_write_read)
qed

theorem read_after_write_witness:
  "\<exists>y1 y2. writeFile 0x80000005 ''XYZ'' 3 7 one_file = (yfs_OK, y1) \<and>
     readFile 0x80000005 [] 3 7 y1 = ((yfs_OK, ''XYZ''), y2)"
  using read_after_write [where y = one_file and i = "0x80000005" and v = "''hello''" and sz = 3 and buf = "''XYZ''" and off = 7 and ?b0.0 = "[]"] one_file_ok
  by auto

section \<open>Locks\<close>

definition balanced :: "lock_ev list \<Rightarrow> bool" where
  "balanced t \<longleftrightarrow> (\<forall>l. length (filter ((=) (Acq l)) t) = length (filter ((=) (Rel l)) t))"

lemma balanced_simple: "balanced [Acq l, Rel l]" "balanced [Acq k, Acq l, Rel l, Rel k]"
  by (auto simp: balanced_def)

lemma on_ec_ev [simp]: "y_ev (snd (on_ec f y)) = y_ev y"
  by (simp add: on_ec_def split_beta)

lemma status_distinct: "yfs_NOENT \<noteq> yfs_OK" "EEXIST \<noteq> yfs_NOENT" "EEXIST \<noteq> yfs_OK"
  by (simp_all add: yfs_NOENT_def yfs_OK_def EEXIST_def)

lemma unlink_trace:
  assumes "unlinkFile p n y = Inr (r, y')"
  shows "\<exists>t. y_ev y' = y_ev y @ t \<and> (t = [Acq p, Rel p] \<or> (\<exists>i. t = [Acq p, Acq i, Rel i, Rel p]))"
  using assms
  by (auto simp: unlinkFile_def Let_def split_beta res_bind_eq_Inr_iff split: if_splits option.splits)

text \<open>
  C16: lock discipline.  Every operation of the file system gives back every lock it takes, in every
  outcome, also when the extent service fails or loses messages; \<^verbatim>\<open>createFile\<close> does so unless it
  returns \<^verbatim>\<open>NOENT\<close>.
\<close>

theorem operations_release_their_locks:
  shows "(\<exists>t. y_ev (snd (getfile i fin y)) = y_ev y @ t \<and> balanced t) \<and>
    (\<exists>t. y_ev (snd (getdir i din y)) = y_ev y @ t \<and> balanced t) \<and>
    (\<exists>t. y_ev (snd (getDirContents i b y)) = y_ev y @ t \<and> balanced t) \<and>
    (\<exists>t. y_ev (snd (setAttr i fin y)) = y_ev y @ t \<and> balanced t) \<and>
    (\<exists>t. y_ev (snd (writeFile i b sz off y)) = y_ev y @ t \<and> balanced t) \<and>
    (\<exists>t. y_ev (snd (readFile i b sz off y)) = y_ev y @ t \<and> balanced t) \<and>
    (\<forall>r y'. lookupResource p n y = Inr (r, y') \<longrightarrow> (\<exists>t. y_ev y' = y_ev y @ t \<and> balanced t)) \<and>
    (\<forall>r y'. unlinkFile p n y = Inr (r, y') \<longrightarrow> (\<exists>t. y_ev y' = y_ev y @ t \<and> balanced t)) \<and>
    (\<forall>r y'. createDirectory rnd i0 p n y = Inr (r, y') \<longrightarrow> (\<exists>t. y_ev y' = y_ev y @ t \<and> balanced t)) \<and>
    (\<forall>r j y'. createFile rnd i0 p n y = Inr ((r, j), y') \<and> r \<noteq> yfs_NOENT \<longrightarrow> (\<exists>t. y_ev y' = y_ev y @ t \<and> balanced t))"
proof (intro conjI allI impI)
  note simps = balanced_simple Let_def split_beta
  show "\<exists>t. y_ev (snd (getfile i fin y)) = y_ev y @ t \<and> balanced t" by (simp add: getfile_def simps)
  show "\<exists>t. y_ev (snd (getdir i din y)) = y_ev y @ t \<and> balanced t" by (simp add: getdir_def simps)
  show "\<exists>t. y_ev (snd (getDirContents i b y)) = y_ev y @ t \<and> balanced t" by (simp add: getDirContents_def simps)
  show "\<exists>t. y_ev (snd (setAttr i fin y)) = y_ev y @ t \<and> balanced t" by (simp add: setAttr_def simps)
  show "\<exists>t. y_ev (snd (writeFile i b sz off y)) = y_ev y @ t \<and> balanced t" by (simp add: writeFile_def simps)
  show "\<exists>t. y_ev (snd (readFile i b sz off y)) = y_ev y @ t \<and> balanced t" by (simp add: readFile_def simps)
  show "\<exists>t. y_ev y' = y_ev y @ t \<and> balanced t" if "lookupResource p n y = Inr (r, y')" for r y'
    using that by (auto simp: lookupResource_def simps res_bind_eq_Inr_iff split: if_splits)
  show "\<exists>t. y_ev y' = y_ev y @ t \<and> balanced t" if "unlinkFile p n y = Inr (r, y')" for r y'
    using unlink_trace [OF that] balanced_simple by auto
  show "\<exists>t. y_ev y' = y_ev y @ t \<and> balanced t" if "createDirectory rnd i0 p n y = Inr (r, y')" for r y'
    using that by (auto simp: createDirectory_def simps res_bind_eq_Inr_iff split: if_splits)
  show "\<exists>t. y_ev y' = y_ev y @ t \<and> balanced t" if "createFile rnd i0 p n y = Inr ((r, j), y') \<and> r \<noteq> yfs_NOENT" for r j y'
    using that by (auto simp: createFile_def simps res_bind_eq_Inr_iff split: if_splits)
qed

theorem operations_release_their_locks_witness:
  "\<exists>r y'. unlinkFile 1 ''notes'' one_file = Inr (r, y') \<and> (\<exists>t. y_ev y' = y_ev one_file @ t \<and> balanced t)"
proof -
  obtain y' where "unlinkFile 1 ''notes'' one_file = Inr (yfs_OK, y')"
    using unlink_effect [of one_file 1 "[\<lparr>de_name = ''notes'', de_inum = 0x80000005\<rparr>]" "''notes''"] one_file_ok
    by (auto simp: isfile_def)
  then show ?thesis using operations_release_their_locks [where y = one_file and p = 1 and n = "''notes''"] by metis
qed

text \<open>
  When the parent directory does not exist, \<^verbatim>\<open>createFile\<close> returns \<^verbatim>\<open>NOENT\<close> without releasing the
  parent's lock: the trace of the call is a single acquisition.
\<close>

theorem create_in_missing_directory_keeps_lock:
  assumes "yfs_ok y" and "seen y parent = None"
  shows "\<exists>y'. createFile rnd i0 parent n y = Inr ((yfs_NOENT, i0), y') \<and> y_ev y' = y_ev y @ [Acq parent]"
proof -
  have "cached (y_ec y) parent = None" "stored (y_ec y) parent = None"
    using assms(2) by (cases "cached (y_ec y) parent"; auto simp: seen_def)+
  then have "fst (fst (on_ec (ec_get parent []) (lc_acquire parent y))) = ex_IOERR"
    using ec_get_miss [of "y_ec y" parent "[]"] assms(1) by (auto simp: on_ec_def lc_acquire_def yfs_ok_def)
  then show ?thesis by (simp add: createFile_def split_beta Let_def ex_IOERR_def ex_OK_def)
qed

theorem create_in_missing_directory_keeps_lock_witness:
  "\<exists>y'. createFile 5 0 77 ''notes'' empty_root = Inr ((yfs_NOENT, 0), y') \<and> y_ev y' = [Acq 77]"
  using create_in_missing_directory_keeps_lock [of empty_root 77 5 0 "''notes''"] empty_root_ok(1)
  by (simp add: empty_root_def seen_def cached_def stored_def empty_world_def extent_server_new_def es_put_def ROOTDIR_def)

text \<open>
  \<^verbatim>\<open>createFile\<close> only looks for files of the same name.  When the directory already has a
  subdirectory called \<open>n\<close>, the call succeeds and appends a second entry of that name, and
  \<^verbatim>\<open>lookupResource\<close> keeps returning the subdirectory, so the new file cannot be reached.
\<close>

theorem created_file_hidden_by_directory:
  assumes "yfs_ok y" and "dir_is y parent es" and "valid_name n" and "isdir parent"
    and "find (\<lambda>e. de_name e = n) es = Some d" and "\<forall>e \<in> set es. de_name e = n \<longrightarrow> isdir (de_inum e)"
  shows "\<exists>i y1 y2. createFile rnd i0 parent n y = Inr ((yfs_OK, i), y1) \<and>
     lookupResource parent n y1 = Inr ((yfs_OK, de_inum d), y2) \<and> de_inum d \<noteq> i"
proof -
  obtain i y1 where c: "createFile rnd i0 parent n y = Inr ((yfs_OK, i), y1)" "isfile i" "yfs_ok y1"
    "dir_is y1 parent (es @ [\<lparr>de_name = n, de_inum = i\<rparr>])"
    using createFile_effect [OF assms(1-4), of rnd i0] assms(6) by (auto simp: isdir_def)
  have f: "find (\<lambda>e. de_name e = n) (es @ es') = Some d" for es' using assms(5) by (induction es) auto
  from assms(5) have "d \<in> set es" "de_name d = n" by (auto simp: find_Some_iff)
  then have "isdir (de_inum d)" using assms(6) by blast
  with lookup_effect [OF c(3,4), of n] f c assms(3) show ?thesis by (auto simp: valid_name_def isdir_def)
qed

definition one_dir :: yfs where
  "one_dir = \<lparr>y_ec = empty_world\<lparr>
     ew_srv := [(1, \<lparr>fi_attr = zero_attr, fi_id = 1, fi_buf = writeDirent [\<lparr>de_name = ''sub'', de_inum = 6\<rparr>]\<rparr>)]\<rparr>, y_ev = []\<rparr>"

theorem created_file_hidden_by_directory_witness:
  "\<exists>i y1 y2. createFile 5 0 1 ''sub'' one_dir = Inr ((yfs_OK, i), y1) \<and>
     lookupResource 1 ''sub'' y1 = Inr ((yfs_OK, 6), y2) \<and> 6 \<noteq> i"
  using created_file_hidden_by_directory [where y = one_dir and parent = 1 and es = "[\<lparr>de_name = ''sub'', de_inum = 6\<rparr>]"
      and n = "''sub''" and d = "\<lparr>de_name = ''sub'', de_inum = 6\<rparr>" and rnd = 5 and ?i0.0 = 0]
  by (simp add: one_dir_def yfs_ok_def dir_is_def seen_def reliable_def empty_world_def cached_def stored_def
      entries_ok_def valid_name_def isdir_def isfile_def)

end
