(* ===== verification/Fuse.thy ===== *)
theory Fuse
  imports Yfs
begin

text \<open>
  The FUSE server of \<^verbatim>\<open>fuse.cc\<close>: one handler per request of the kernel, each of which calls the file
  system client and answers through a \<^verbatim>\<open>fuse_reply_*\<close> function.  A handler returns the answers it
  gives, in order.  The FUSE library itself is not part of the repository: the layout of its
  directory entries is a parameter of \<open>fuseserver_readdir\<close>.
\<close>

section \<open>Attributes, entries and answers\<close>

record stat =
  st_ino :: u64
  st_mode :: u32
  st_nlink :: u64
  st_size :: u64
  st_atime :: u64
  st_mtime :: u64
  st_ctime :: u64

definition stat_zero :: stat where
  "stat_zero = \<lparr>st_ino = 0, st_mode = 0, st_nlink = 0, st_size = 0, st_atime = 0, st_mtime = 0, st_ctime = 0\<rparr>"

definition S_IFREG :: u32 where "S_IFREG = 0x8000"
definition S_IFDIR :: u32 where "S_IFDIR = 0x4000"

definition ENOENT :: i32 where "ENOENT = 2"
definition ENOTDIR :: i32 where "ENOTDIR = 20"
definition ENOSYS :: i32 where "ENOSYS = 38"
definition FUSE_SET_ATTR_SIZE :: i32 where "FUSE_SET_ATTR_SIZE = 8"

text \<open>The two timeouts are always zero.\<close>

record fuse_entry_param =
  en_ino :: u64
  en_generation :: u64
  en_attr :: stat
  en_attr_timeout :: nat
  en_entry_timeout :: nat

definition entry_zero :: fuse_entry_param where
  "entry_zero = \<lparr>en_ino = 0, en_generation = 0, en_attr = stat_zero, en_attr_timeout = 0, en_entry_timeout = 0\<rparr>"

record statvfs =
  f_namemax :: u64
  f_bsize :: u64

datatype fuse_reply =
    Reply_Err i32
  | Reply_Attr stat
  | Reply_Buf string
  | Reply_Write nat
  | Reply_Create fuse_entry_param
  | Reply_Entry fuse_entry_param
  | Reply_Open
  | Reply_Statfs statvfs

section \<open>Handlers\<close>

text \<open>
  The \<^verbatim>\<open>fileinfo\<close> and \<^verbatim>\<open>dirinfo\<close> variables are uninitialised; \<^verbatim>\<open>getfile\<close> and \<^verbatim>\<open>getdir\<close> set every field that is
  read here.
\<close>

definition fileinfo_zero :: fileinfo where
  "fileinfo_zero = \<lparr>fl_size = 0, fl_atime = 0, fl_mtime = 0, fl_ctime = 0\<rparr>"

definition dirinfo_zero :: dirinfo where
  "dirinfo_zero = \<lparr>dr_atime = 0, dr_mtime = 0, dr_ctime = 0\<rparr>"

definition getattr :: "u64 \<Rightarrow> yfs \<Rightarrow> (i32 \<times> stat) \<times> yfs" where
  "getattr i y =
     (let st = stat_zero\<lparr>st_ino := i\<rparr>
      in if isfile i
         then let ((ret, info), y) = getfile i fileinfo_zero y
              in if ret \<noteq> yfs_OK then ((ret, st), y)
                 else ((yfs_OK, st\<lparr>st_mode := S_IFREG OR 0x1B6, st_nlink := 1, st_atime := fl_atime info, st_mtime := fl_mtime info,
                         st_ctime := fl_ctime info, st_size := fl_size info\<rparr>), y)
         else let ((ret, info), y) = getdir i dirinfo_zero y
              in if ret \<noteq> yfs_OK then ((ret, st), y)
                 else ((yfs_OK, st\<lparr>st_mode := S_IFDIR OR 0x1FF, st_nlink := 2, st_atime := dr_atime info, st_mtime := dr_mtime info,
                         st_ctime := dr_ctime info\<rparr>), y))"

definition fuseserver_getattr :: "u64 \<Rightarrow> yfs \<Rightarrow> fuse_reply list \<times> yfs" where
  "fuseserver_getattr ino y =
     (let ((ret, st), y) = getattr ino y
      in if ret \<noteq> yfs_OK then ([Reply_Err ENOENT], y) else ([Reply_Attr st], y))"

definition fuseserver_setattr :: "u64 \<Rightarrow> u64 \<Rightarrow> i32 \<Rightarrow> yfs \<Rightarrow> fuse_reply list \<times> yfs" where
  "fuseserver_setattr ino st_sz to_set y =
     (let file_info = fileinfo_zero\<lparr>fl_size := st_sz\<rparr>;
          rs = (if \<not> isfile ino then [Reply_Err ENOSYS] else [])
      in if FUSE_SET_ATTR_SIZE AND to_set \<noteq> 0
         then let (ret, y) = setAttr ino file_info y
              in if ret \<noteq> yfs_OK then (rs @ [Reply_Err ENOENT], y)
                 else let ((ret, st), y) = getattr ino y
                      in if ret = yfs_OK then (rs @ [Reply_Attr st], y) else (rs @ [Reply_Err ENOENT], y)
         else (rs @ [Reply_Err ENOSYS], y))"

definition fuseserver_read :: "u64 \<Rightarrow> nat \<Rightarrow> nat \<Rightarrow> yfs \<Rightarrow> fuse_reply list \<times> yfs" where
  "fuseserver_read ino sz off y =
     (let ((ret, buf), y) = readFile ino [] sz off y
      in if ret = yfs_OK then ([Reply_Buf buf], y) else ([Reply_Err ENOSYS], y))"

definition fuseserver_write :: "u64 \<Rightarrow> string \<Rightarrow> nat \<Rightarrow> nat \<Rightarrow> yfs \<Rightarrow> fuse_reply list \<times> yfs" where
  "fuseserver_write ino buf sz off y =
     (let (ret, y) = writeFile ino buf sz off y
      in if ret = yfs_OK then ([Reply_Write sz], y) else ([Reply_Err ENOSYS], y))"

text \<open>\<open>rnd\<close> is the value of \<^verbatim>\<open>random()\<close>; \<^verbatim>\<open>newInum\<close> is uninitialised and only written before it is read.\<close>

definition fuseserver_createhelper :: "u64 \<Rightarrow> u64 \<Rightarrow> string \<Rightarrow> yfs \<Rightarrow> ((i32 \<times> fuse_entry_param) \<times> yfs) res" where
  "fuseserver_createhelper rnd parent name y =
     res_bind (createFile rnd 0 parent name y) (\<lambda>((ret, newInum), y).
       if ret \<noteq> yfs_OK then Inr ((yfs_NOENT, entry_zero), y)
       else let ((_, st), y) = getattr newInum y
            in Inr ((yfs_OK, entry_zero\<lparr>en_ino := newInum, en_attr := st\<rparr>), y))"

definition fuseserver_create :: "u64 \<Rightarrow> u64 \<Rightarrow> string \<Rightarrow> yfs \<Rightarrow> (fuse_reply list \<times> yfs) res" where
  "fuseserver_create rnd parent name y =
     res_bind (fuseserver_createhelper rnd parent name y) (\<lambda>((ret, e), y).
       if ret = yfs_OK then Inr ([Reply_Create e], y)
       else if ret = yfs_EXIST then Inr ([Reply_Err EEXIST], y) else Inr ([Reply_Err ENOENT], y))"

definition fuseserver_mknod :: "u64 \<Rightarrow> u64 \<Rightarrow> string \<Rightarrow> yfs \<Rightarrow> (fuse_reply list \<times> yfs) res" where
  "fuseserver_mknod rnd parent name y =
     res_bind (fuseserver_createhelper rnd parent name y) (\<lambda>((ret, e), y).
       if ret = yfs_OK then Inr ([Reply_Entry e], y)
       else if ret = yfs_EXIST then Inr ([Reply_Err EEXIST], y) else Inr ([Reply_Err ENOENT], y))"

definition fuseserver_lookup :: "u64 \<Rightarrow> string \<Rightarrow> yfs \<Rightarrow> (fuse_reply list \<times> yfs) res" where
  "fuseserver_lookup parent name y =
     res_bind (lookupResource parent name y) (\<lambda>((_, resource_inum), y).
       if resource_inum \<noteq> 0
       then let ((_, st), y) = getattr resource_inum y
            in Inr ([Reply_Entry (entry_zero\<lparr>en_ino := resource_inum, en_attr := st\<rparr>)], y)
       else Inr ([Reply_Err ENOENT], y))"

text \<open>
  The buffer of a directory listing.  \<open>dirent_size\<close> stands for \<^verbatim>\<open>fuse_dirent_size\<close>, the space of an entry
  for a name of some length, and \<open>add_dirent\<close> for \<^verbatim>\<open>fuse_add_dirent\<close>: the bytes of an entry with its
  name, its inode number and the offset of the entry behind it.
\<close>

record dirbuf =
  db_p :: string
  db_size :: nat

definition dirbuf_add :: "(nat \<Rightarrow> nat) \<Rightarrow> (string \<Rightarrow> u64 \<Rightarrow> nat \<Rightarrow> string) \<Rightarrow> string \<Rightarrow> u64 \<Rightarrow> dirbuf \<Rightarrow> dirbuf" where
  "dirbuf_add dirent_size add_dirent name ino b =
     (let sz = db_size b + dirent_size (length (c_str name))
      in \<lparr>db_p = db_p b @ add_dirent (c_str name) ino sz, db_size = sz\<rparr>)"

definition reply_buf_limited :: "string \<Rightarrow> nat \<Rightarrow> nat \<Rightarrow> nat \<Rightarrow> fuse_reply" where
  "reply_buf_limited buf bufsize off maxsize =
     (if off < bufsize then Reply_Buf (take (min (bufsize - off) maxsize) (drop off buf)) else Reply_Buf [])"

definition fuseserver_readdir ::
  "(nat \<Rightarrow> nat) \<Rightarrow> (string \<Rightarrow> u64 \<Rightarrow> nat \<Rightarrow> string) \<Rightarrow> u64 \<Rightarrow> nat \<Rightarrow> nat \<Rightarrow> yfs \<Rightarrow> (fuse_reply list \<times> yfs) res" where
  "fuseserver_readdir dirent_size add_dirent ino sz off y =
     (if \<not> isdir ino then Inr ([Reply_Err ENOTDIR], y)
      else let ((_, buf), y) = getDirContents ino [] y
           in res_bind (parsebuf buf) (\<lambda>contents.
                let b = fold (\<lambda>e. dirbuf_add dirent_size add_dirent (de_name e) (de_inum e)) contents \<lparr>db_p = [], db_size = 0\<rparr>
                in Inr ([reply_buf_limited (db_p b) (db_size b) off sz], y)))"

definition fuseserver_open :: "u64 \<Rightarrow> yfs \<Rightarrow> fuse_reply list \<times> yfs" where
  "fuseserver_open ino y = ([Reply_Open], y)"

definition fuseserver_mkdir :: "u64 \<Rightarrow> u64 \<Rightarrow> string \<Rightarrow> yfs \<Rightarrow> (fuse_reply list \<times> yfs) res" where
  "fuseserver_mkdir rnd parent name y =
     res_bind (createDirectory rnd 0 parent name y) (\<lambda>((ret, newInum), y).
       if ret \<noteq> yfs_OK then Inr ([Reply_Err EEXIST], y)
       else let ((_, st), y) = getattr newInum y
            in Inr ([Reply_Entry (entry_zero\<lparr>en_ino := newInum, en_attr := st\<rparr>)], y))"

definition fuseserver_unlink :: "u64 \<Rightarrow> string \<Rightarrow> yfs \<Rightarrow> (fuse_reply list \<times> yfs) res" where
  "fuseserver_unlink parent name y =
     res_bind (unlinkFile parent name y) (\<lambda>(ret, y).
       if ret = yfs_OK then Inr ([Reply_Err 0], y) else Inr ([Reply_Err ENOENT], y))"

definition fuseserver_statfs :: "yfs \<Rightarrow> fuse_reply list \<times> yfs" where
  "fuseserver_statfs y = ([Reply_Statfs \<lparr>f_namemax = 255, f_bsize = 512\<rparr>], y)"

text \<open>The table of handlers that \<^verbatim>\<open>main\<close> gives to the library.\<close>

datatype fuse_req =
    Getattr u64
  | Statfs
  | Readdir u64 nat nat
  | Lookup u64 string
  | Create u64 string
  | Mknod u64 string
  | Open u64
  | Read u64 nat nat
  | Write u64 string nat nat
  | Setattr u64 u64 i32
  | Unlink u64 string
  | Mkdir u64 string

fun fuseserver_oper ::
  "(nat \<Rightarrow> nat) \<Rightarrow> (string \<Rightarrow> u64 \<Rightarrow> nat \<Rightarrow> string) \<Rightarrow> u64 \<Rightarrow> fuse_req \<Rightarrow> yfs \<Rightarrow> (fuse_reply list \<times> yfs) res" where
  "fuseserver_oper ds ad rnd (Getattr i) y = Inr (fuseserver_getattr i y)"
| "fuseserver_oper ds ad rnd Statfs y = Inr (fuseserver_statfs y)"
| "fuseserver_oper ds ad rnd (Readdir i sz off) y = fuseserver_readdir ds ad i sz off y"
| "fuseserver_oper ds ad rnd (Lookup p n) y = fuseserver_lookup p n y"
| "fuseserver_oper ds ad rnd (Create p n) y = fuseserver_create rnd p n y"
| "fuseserver_oper ds ad rnd (Mknod p n) y = fuseserver_mknod rnd p n y"
| "fuseserver_oper ds ad rnd (Open i) y = Inr (fuseserver_open i y)"
| "fuseserver_oper ds ad rnd (Read i sz off) y = Inr (fuseserver_read i sz off y)"
| "fuseserver_oper ds ad rnd (Write i b sz off) y = Inr (fuseserver_write i b sz off y)"
| "fuseserver_oper ds ad rnd (Setattr i sz to_set) y = Inr (fuseserver_setattr i sz to_set y)"
| "fuseserver_oper ds ad rnd (Unlink p n) y = fuseserver_unlink p n y"
| "fuseserver_oper ds ad rnd (Mkdir p n) y = fuseserver_mkdir rnd p n y"

section \<open>One answer per request\<close>

text \<open>
  C26: the server answers each request once.  A handler that returns gives exactly one answer,
  except \<^verbatim>\<open>fuseserver_setattr\<close> on something that is not a file: it answers with an error, goes on
  and answers a second time.
\<close>

theorem one_reply_per_request:
  assumes "fuseserver_oper ds ad rnd r y = Inr (rs, y')"
  shows "length rs = (case r of Setattr i sz to_set \<Rightarrow> if isfile i then 1 else 2 | _ \<Rightarrow> 1)"
  using assms
  by (cases r)
    (auto simp: fuseserver_getattr_def fuseserver_statfs_def fuseserver_readdir_def fuseserver_lookup_def fuseserver_create_def
      fuseserver_mknod_def fuseserver_open_def fuseserver_read_def fuseserver_write_def fuseserver_setattr_def fuseserver_unlink_def
      fuseserver_mkdir_def res_bind_eq_Inr_iff split_beta Let_def split: if_splits)

theorem one_reply_per_request_witness:
  "\<exists>rs y'. fuseserver_oper id (\<lambda>_ _ _. []) 0 (Setattr 1 0 8) empty_root = Inr (rs, y') \<and> length rs = 2"
proof -
  obtain rs y' where "fuseserver_oper id (\<lambda>_ _ _. []) 0 (Setattr 1 0 8) empty_root = Inr (rs, y')"
    by (metis fuseserver_oper.simps(10) surj_pair)
  with one_reply_per_request [OF this] show ?thesis by (auto simp: isfile_def)
qed

section \<open>Sizes\<close>

text \<open>Attributes of extents, in the cache and at the server, give the length of their contents.\<close>

definition sized :: "ec_world \<Rightarrow> bool" where
  "sized w \<longleftrightarrow>
     (\<forall>i e. map_of (ew_list w) i = Some e \<longrightarrow> at_size (ce_attr e) = word_of_nat (length (ce_buf e))) \<and>
     (\<forall>i f. map_of (ew_srv w) i = Some f \<longrightarrow> at_size (fi_attr f) = word_of_nat (length (fi_buf f)))"

lemma sized_time [simp]: "sized (snd (ec_time w)) = sized w"
  by (simp add: sized_def)

lemma sized_store [simp]:
  "sized w \<Longrightarrow> at_size (ce_attr e) = word_of_nat (length (ce_buf e)) \<Longrightarrow> sized (ec_store i e w)"
  by (auto simp: sized_def ec_store_def split: if_splits)

lemma sized_call_get:
  assumes "reliable w" "sized w"
  shows "sized (snd (call_get i b w))" "reliable (snd (call_get i b w))"
    "snd (fst (call_get i b w)) = (case map_of (ew_srv w) i of None \<Rightarrow> [] | Some f \<Rightarrow> fi_buf f)"
    "map_of (ew_srv (snd (call_get i b w))) i = None \<longleftrightarrow> map_of (ew_srv w) i = None"
    "map_of (ew_srv w) i = Some f \<Longrightarrow> \<exists>f'. map_of (ew_srv (snd (call_get i b w))) i = Some f' \<and> fi_buf f' = fi_buf f"
  using assms
  by (auto simp: call_get_def split_beta Let_def ec_rpc_reliable es_get_def sized_def reliable_def split: option.splits if_splits)

lemma sized_call_getattr:
  assumes "reliable w" "sized w"
  shows "sized (snd (call_getattr i a w))" "reliable (snd (call_getattr i a w))"
    "at_size (snd (fst (call_getattr i a w))) = (case map_of (ew_srv w) i of None \<Rightarrow> 0 | Some f \<Rightarrow> word_of_nat (length (fi_buf f)))"
    "fst (fst (call_getattr i a w)) = (if map_of (ew_srv w) i = None then ex_IOERR else ex_OK)"
  using assms
  by (auto simp: call_getattr_def split_beta Let_def ec_rpc_reliable es_getattr_def sized_def reliable_def zero_attr_def split: option.splits)

lemma sized_fetch:
  assumes "reliable w" "sized w"
  shows "at_size (snd (fst (call_getattr i a (snd (call_get i b w))))) = word_of_nat (length (snd (fst (call_get i b w))))"
proof -
  have got: "reliable (snd (call_get i b w))" "sized (snd (call_get i b w))" using sized_call_get(1,2) [OF assms] by simp_all
  show ?thesis
  proof (cases "map_of (ew_srv w) i")
    case None
    then show ?thesis using sized_call_get(3,4) [OF assms, of i b] sized_call_getattr(3) [OF got, of i a] by simp
  next
    case (Some f)
    obtain f' where "map_of (ew_srv (snd (call_get i b w))) i = Some f'" "fi_buf f' = fi_buf f"
      using sized_call_get(5) [OF assms Some] by blast
    then show ?thesis
      using sized_call_get(3) [OF assms, of i b] sized_call_getattr(3) [OF got, of i a] Some by simp
  qed
qed

lemma sized_ec_get: "reliable w \<Longrightarrow> sized w \<Longrightarrow> sized (snd (ec_get i b w))"
  using sized_fetch [of w i "ce_attr new_extent" b] sized_call_get(1,2) [of w i b]
    sized_call_getattr(1) [of "snd (call_get i b w)" i "ce_attr new_extent"]
  by (cases "map_of (ew_list w) i") (auto simp: ec_get_def split_beta Let_def sized_def [of w])

lemma sized_ec_getattr: "reliable w \<Longrightarrow> sized w \<Longrightarrow> sized (snd (ec_getattr i w))"
  using sized_fetch [of w i "ce_attr new_extent" "ce_buf new_extent"] sized_call_get(1,2) [of w i "ce_buf new_extent"]
    sized_call_getattr(1) [of "snd (call_get i (ce_buf new_extent) w)" i "ce_attr new_extent"]
  by (cases "map_of (ew_list w) i") (auto simp: ec_getattr_def split_beta Let_def)

lemma sized_ec_put: "reliable w \<Longrightarrow> sized w \<Longrightarrow> sized (snd (ec_put i b w))"
  using sized_call_get(1,2) [of w i "ce_buf new_extent"]
    sized_call_getattr(1) [of "snd (call_get i (ce_buf new_extent) w)" i "ce_attr new_extent"]
  by (cases "map_of (ew_list w) i") (auto simp: ec_put_def split_beta Let_def)

text \<open>The size that \<^verbatim>\<open>getattr\<close> reports of an extent that the client sees.\<close>

lemma ec_getattr_size:
  assumes "reliable w" "sized w" "freshest (cached w i) (stored w i) = Some v"
  shows "fst (fst (ec_getattr i w)) = ex_OK \<and> at_size (snd (fst (ec_getattr i w))) = word_of_nat (length v)"
proof (cases "map_of (ew_list w) i")
  case (Some e)
  then show ?thesis using assms(2,3) by (auto simp: ec_getattr_def sized_def cached_def)
next
  case None
  then have "map_option fi_buf (map_of (ew_srv w) i) = Some v" using assms(3) by (simp add: cached_def stored_def)
  then obtain f where f: "map_of (ew_srv w) i = Some f" "fi_buf f = v" by blast
  obtain f' where "map_of (ew_srv (snd (call_get i (ce_buf new_extent) w))) i = Some f'" "fi_buf f' = fi_buf f"
    using sized_call_get(5) [OF assms(1,2) f(1)] by blast
  moreover have "reliable (snd (call_get i (ce_buf new_extent) w))" "sized (snd (call_get i (ce_buf new_extent) w))"
    using sized_call_get(1,2) [OF assms(1,2)] by simp_all
  ultimately show ?thesis
    using None f sized_call_getattr(3,4) [of "snd (call_get i (ce_buf new_extent) w)" i "ce_attr new_extent"]
    by (simp add: ec_getattr_def split_beta Let_def)
qed

text \<open>A client whose calls reach the server and whose attributes are right.\<close>

definition healthy :: "yfs \<Rightarrow> bool" where
  "healthy y \<longleftrightarrow> yfs_ok y \<and> sized (y_ec y)"

lemma reliable_ec:
  assumes "reliable w"
  shows "reliable (snd (ec_get i b w))" "reliable (snd (ec_getattr i w))" "reliable (snd (ec_put i b w))"
proof -
  show "reliable (snd (ec_get i b w))"
  proof (cases "cached w i")
    case None
    then show ?thesis using ec_get_miss [OF assms None, of b] by (auto split: option.splits)
  next
    case (Some db)
    then show ?thesis using ec_get_hit [OF assms, of i "fst db" "snd db" b] by auto
  qed
  show "reliable (snd (ec_getattr i w))" using ec_getattr_effect [OF assms, of i] by auto
  show "reliable (snd (ec_put i b w))" using ec_put_effect [OF assms, of i b] by auto
qed

lemma healthy_ops [simp]:
  "healthy (lc_acquire l y) = healthy y" "healthy (lc_release l y) = healthy y"
  "healthy y \<Longrightarrow> healthy (snd (on_ec (ec_get i b) y))" "healthy y \<Longrightarrow> healthy (snd (on_ec (ec_getattr i) y))"
  "healthy y \<Longrightarrow> healthy (snd (on_ec (ec_put i b) y))"
  by (simp_all add: healthy_def yfs_ok_def lc_acquire_def lc_release_def on_ec_def split_beta Let_def reliable_ec
      sized_ec_get sized_ec_getattr sized_ec_put)

lemma healthy_createFile: "healthy y \<Longrightarrow> createFile rnd i0 p n y = Inr (r, y') \<Longrightarrow> healthy y'"
  by (auto simp: createFile_def split_beta Let_def res_bind_eq_Inr_iff split: if_splits)

lemma healthy_writeFile: "healthy y \<Longrightarrow> healthy (snd (writeFile i b sz off y))"
  by (simp add: writeFile_def split_beta Let_def)

lemma healthy_lookup: "healthy y \<Longrightarrow> lookupResource p n y = Inr (r, y') \<Longrightarrow> healthy y'"
  by (auto simp: lookupResource_def split_beta Let_def res_bind_eq_Inr_iff split: if_splits)

lemma healthy_getfile: "healthy y \<Longrightarrow> healthy (snd (getfile i fin y))"
  by (simp add: getfile_def split_beta Let_def)

lemma seen_getattr: "yfs_ok y \<Longrightarrow> seen y i \<noteq> None \<Longrightarrow> seen (snd (on_ec (ec_getattr i) y)) = seen y"
  using ec_getattr_effect [of "y_ec y" i]
  by (auto simp: yfs_ok_def on_ec_def split_beta Let_def seen_def fun_eq_iff split: option.splits)

lemma getattr_file:
  assumes "healthy y" "seen y i = Some v" "isfile i"
  shows "\<exists>st y'. getattr i y = ((yfs_OK, st), y') \<and> healthy y' \<and> seen y' = seen y \<and>
    st_ino st = i \<and> st_mode st = S_IFREG OR 0x1B6 \<and> st_nlink st = 1 \<and> st_size st = ucast (word_of_nat (length v) :: u32)"
proof -
  let ?y = "lc_acquire i y"
  have "fst (fst (ec_getattr i (y_ec ?y))) = ex_OK \<and> at_size (snd (fst (ec_getattr i (y_ec ?y)))) = word_of_nat (length v)"
    using assms(1,2) by (intro ec_getattr_size) (auto simp: healthy_def yfs_ok_def seen_def lc_acquire_def)
  then have a: "fst (fst (on_ec (ec_getattr i) ?y)) = ex_OK" "at_size (snd (fst (on_ec (ec_getattr i) ?y))) = word_of_nat (length v)"
    by (simp_all add: on_ec_def split_beta Let_def)
  have s: "seen (snd (on_ec (ec_getattr i) ?y)) = seen y"
    using seen_getattr [of ?y i] assms(1,2) by (simp add: healthy_def)
  have h: "healthy (snd (on_ec (ec_getattr i) ?y))" using assms(1) by simp
  show ?thesis using assms(3) a s h
    by (simp add: getattr_def getfile_def split_beta Let_def stat_zero_def fileinfo_zero_def)
qed

lemma file_number_nonzero: "isfile i \<Longrightarrow> i \<noteq> 0"
  by (auto simp: isfile_def)

lemma unat_ucast_u64: "unat (ucast (x :: u32) :: u64) = unat x"
proof -
  have "unat x < 2 ^ 64" using unsigned_less [of x, where ?'a = nat] by simp
  then show ?thesis by (simp add: unsigned_ucast_eq take_bit_nat_eq_self)
qed

text \<open>
  C7: a file made through FUSE.  Creating a file under a new name answers with an entry for an empty
  regular file; writing to it is acknowledged with the number of bytes; a lookup of the name
  answers with the same inode number and the new size; and reading gives back the bytes written.
\<close>

theorem create_write_lookup_read:
  assumes "healthy y" and "dir_is y parent es" and "valid_name n" and "isdir parent" and "\<forall>e \<in> set es. de_name e \<noteq> n"
    and "sz \<le> length buf" and "off + sz < 2 ^ 32"
  shows "\<exists>e y1 y2 e' y3 y4.
    fuseserver_create rnd parent n y = Inr ([Reply_Create e], y1) \<and>
      isfile (en_ino e) \<and> st_mode (en_attr e) = S_IFREG OR 0x1B6 \<and> st_size (en_attr e) = 0 \<and>
    fuseserver_write (en_ino e) buf sz off y1 = ([Reply_Write sz], y2) \<and>
    fuseserver_lookup parent n y2 = Inr ([Reply_Entry e'], y3) \<and>
      en_ino e' = en_ino e \<and> unat (st_size (en_attr e')) = off + sz \<and>
    fuseserver_read (en_ino e) sz off y3 = ([Reply_Buf (take sz buf)], y4)"
proof -
  obtain i x1 where c: "createFile rnd 0 parent n y = Inr ((yfs_OK, i), x1)" "isfile i"
    "dir_is x1 parent (es @ [\<lparr>de_name = n, de_inum = i\<rparr>])"
    "seen x1 = (seen y)(i \<mapsto> [], parent \<mapsto> writeDirent (es @ [\<lparr>de_name = n, de_inum = i\<rparr>]))"
    using createFile_effect [OF _ assms(2,3,4), of rnd 0] assms(1,5) by (auto simp: healthy_def)
  have ip: "i \<noteq> parent" using c(2) assms(4) by (auto simp: isdir_def)
  have h1: "healthy x1" by (rule healthy_createFile [OF assms(1) c(1)])
  have s1: "seen x1 i = Some []" using c(4) ip by simp
  obtain st1 y1 where g1: "getattr i x1 = ((yfs_OK, st1), y1)" "healthy y1" "seen y1 = seen x1"
    "st_mode st1 = S_IFREG OR 0x1B6" "st_size st1 = 0"
    using getattr_file [OF h1 s1 c(2)] by auto
  let ?v = "str_write buf sz off []"
  obtain y2 where w: "writeFile i buf sz off y1 = (yfs_OK, y2)" "yfs_ok y2" "seen y2 = (seen y1)(i \<mapsto> ?v)"
    using write_effect [of y1 i "[]" buf sz off] g1(2,3) s1 by (auto simp: healthy_def)
  have h2: "healthy y2" using healthy_writeFile [OF g1(2), of i buf sz off] w(1) by simp
  have d2: "dir_is y2 parent (es @ [\<lparr>de_name = n, de_inum = i\<rparr>])"
    using c(3) ip by (simp add: dir_is_def w(3) g1(3))
  have "find (\<lambda>e. de_name e = n) (es @ [\<lparr>de_name = n, de_inum = i\<rparr>]) = Some \<lparr>de_name = n, de_inum = i\<rparr>"
    using assms(5) by (induction es) auto
  then obtain x3 where l: "lookupResource parent n y2 = Inr ((yfs_OK, i), x3)" "seen x3 = seen y2"
    using lookup_effect [OF w(2) d2, of n] assms(3) by (auto simp: valid_name_def)
  have h3: "healthy x3" by (rule healthy_lookup [OF h2 l(1)])
  have s3: "seen x3 i = Some ?v" using l(2) w(3) by simp
  have len: "length ?v = off + sz" using str_write_length [OF assms(6), of off "[]"] by simp
  obtain st3 y3 where g3: "getattr i x3 = ((yfs_OK, st3), y3)" "healthy y3" "seen y3 = seen x3"
    "st_size st3 = ucast (word_of_nat (off + sz) :: u32)"
    using getattr_file [OF h3 s3 c(2)] len by auto
  have "unat (word_of_nat k :: u32) = k" if "k < 2 ^ 32" for k using that by (simp add: unat_of_nat)
  then have "unat (word_of_nat (off + sz) :: u32) = off + sz" using assms(7) by blast
  then have size: "unat (st_size st3) = off + sz" by (simp only: g3(4) unat_ucast_u64)
  obtain y4 where r: "readFile i [] sz off y3 = ((yfs_OK, take sz buf), y4)"
    using read_effect [of y3 i ?v "[]" sz off] g3(2,3) s3 len str_write_read [OF assms(6), of off "[]"] by (auto simp: healthy_def)
  show ?thesis
    using c(1,2) g1 w(1) l(1) g3 size r file_number_nonzero [OF c(2)]
    by (intro exI [of _ "entry_zero\<lparr>en_ino := i, en_attr := st1\<rparr>"] exI [of _ y1] exI [of _ y2]
          exI [of _ "entry_zero\<lparr>en_ino := i, en_attr := st3\<rparr>"] exI [of _ y3] exI [of _ y4])
      (simp add: fuseserver_create_def fuseserver_createhelper_def fuseserver_write_def fuseserver_lookup_def fuseserver_read_def Let_def)
qed

theorem create_write_lookup_read_witness:
  "\<exists>e y1 y2 y4. fuseserver_create 5 1 ''notes'' empty_root = Inr ([Reply_Create e], y1) \<and>
     fuseserver_write (en_ino e) ''hello'' 5 0 y1 = ([Reply_Write 5], y2) \<and>
     (\<exists>e' y3. fuseserver_lookup 1 ''notes'' y2 = Inr ([Reply_Entry e'], y3) \<and> unat (st_size (en_attr e')) = 5 \<and>
       fuseserver_read (en_ino e) 5 0 y3 = ([Reply_Buf ''hello''], y4))"
proof -
  have "healthy empty_root" using empty_root_ok(1)
    by (simp add: healthy_def sized_def empty_root_def empty_world_def extent_server_new_def es_put_def)
  from create_write_lookup_read [OF this empty_root_ok(2) _ empty_root_ok(3), of "''notes''" 5 "''hello''" 0 5]
  show ?thesis by (auto simp: valid_name_def)
qed

section \<open>Types of answers\<close>

text \<open>
  Attributes belong to an inode number and have the file type it encodes; all zero but the number
  when \<^verbatim>\<open>getattr\<close> failed.
\<close>

definition type_bits :: "u64 \<Rightarrow> u32" where
  "type_bits i = (if isfile i then S_IFREG OR 0x1B6 else S_IFDIR OR 0x1FF)"

definition stat_of :: "u64 \<Rightarrow> stat \<Rightarrow> bool" where
  "stat_of i st \<longleftrightarrow> st_ino st = i \<and> (st = stat_zero\<lparr>st_ino := i\<rparr> \<or> st_mode st = type_bits i \<and> st_nlink st = (if isfile i then 1 else 2))"

fun reply_typed :: "fuse_req \<Rightarrow> fuse_reply \<Rightarrow> bool" where
  "reply_typed r (Reply_Attr st) \<longleftrightarrow> (\<exists>i sz to_set. r \<in> {Getattr i, Setattr i sz to_set} \<and> stat_of i st \<and> st_mode st = type_bits i)"
| "reply_typed r (Reply_Create e) \<longleftrightarrow> (\<exists>p n. r = Create p n) \<and> isfile (en_ino e) \<and> stat_of (en_ino e) (en_attr e)"
| "reply_typed r (Reply_Entry e) \<longleftrightarrow> stat_of (en_ino e) (en_attr e) \<and>
     (\<exists>p n. r = Lookup p n \<and> en_ino e \<noteq> 0 \<or> r = Mknod p n \<and> isfile (en_ino e) \<or> r = Mkdir p n \<and> isdir (en_ino e))"
| "reply_typed r (Reply_Buf b) \<longleftrightarrow> (\<exists>i sz off. r \<in> {Read i sz off, Readdir i sz off} \<and> length b \<le> sz)"
| "reply_typed r (Reply_Write k) \<longleftrightarrow> (\<exists>i b off. r = Write i b k off)"
| "reply_typed r Reply_Open \<longleftrightarrow> (\<exists>i. r = Open i)"
| "reply_typed r (Reply_Statfs v) \<longleftrightarrow> r = Statfs"
| "reply_typed r (Reply_Err c) \<longleftrightarrow> c \<in> {ENOENT, ENOSYS, ENOTDIR, EEXIST} \<or> c = 0 \<and> (\<exists>p n. r = Unlink p n)"

lemma getattr_typed:
  "stat_of i (snd (fst (getattr i y)))" "fst (fst (getattr i y)) = yfs_OK \<Longrightarrow> st_mode (snd (fst (getattr i y))) = type_bits i"
  by (auto simp: getattr_def stat_of_def type_bits_def split_beta Let_def)

lemma createFile_number: "createFile rnd i0 p n y = Inr ((yfs_OK, i), y') \<Longrightarrow> isfile i"
  by (auto simp: createFile_def split_beta Let_def res_bind_eq_Inr_iff status_distinct isfile_or split: if_splits)

lemma createDirectory_number: "createDirectory rnd i0 p n y = Inr ((yfs_OK, i), y') \<Longrightarrow> isdir i"
  by (auto simp: createDirectory_def split_beta Let_def res_bind_eq_Inr_iff status_distinct isdir_and split: if_splits)

lemma readFile_length: "fst (fst (readFile i b sz off y)) = yfs_OK \<Longrightarrow> length (snd (fst (readFile i b sz off y))) \<le> sz"
  by (auto simp: readFile_def split_beta Let_def yfs_IOERR_def yfs_OK_def split: if_splits)

lemma createhelper_typed:
  assumes "fuseserver_createhelper rnd p n y = Inr ((yfs_OK, e), y')"
  shows "isfile (en_ino e) \<and> stat_of (en_ino e) (en_attr e)"
  using assms getattr_typed(1)
  by (auto simp: fuseserver_createhelper_def res_bind_eq_Inr_iff split_beta Let_def status_distinct dest: createFile_number split: if_splits)

text \<open>
  C24: answers have the type the kernel asked for.  Whatever the file system client returns, an
  answer with attributes names the inode asked about and has its file type; created files have
  file numbers and created directories directory numbers; looked-up entries are not zero; and a
  read answers with no more bytes than were asked for.
\<close>

theorem replies_well_typed:
  assumes "fuseserver_oper ds ad rnd r y = Inr (rs, y')"
  shows "list_all (reply_typed r) rs"
proof (cases r)
  case (Getattr i)
  then show ?thesis using assms getattr_typed [of i y] by (auto simp: fuseserver_getattr_def split_beta Let_def split: if_splits)
next
  case (Setattr i sz ts)
  then show ?thesis using assms getattr_typed [of i "snd (setAttr i (fileinfo_zero\<lparr>fl_size := sz\<rparr>) y)"]
    by (auto simp: fuseserver_setattr_def split_beta Let_def split: if_splits)
next
  case (Create p n)
  then show ?thesis using assms createhelper_typed
    by (auto simp: fuseserver_create_def res_bind_eq_Inr_iff split: if_splits)
next
  case (Mknod p n)
  then show ?thesis using assms createhelper_typed
    by (auto simp: fuseserver_mknod_def res_bind_eq_Inr_iff split: if_splits)
next
  case (Mkdir p n)
  then show ?thesis using assms getattr_typed(1)
    by (auto simp: fuseserver_mkdir_def res_bind_eq_Inr_iff split_beta Let_def dest: createDirectory_number split: if_splits)
next
  case (Lookup p n)
  then show ?thesis using assms getattr_typed(1)
    by (auto simp: fuseserver_lookup_def res_bind_eq_Inr_iff split_beta Let_def split: if_splits)
next
  case (Read i sz off)
  then show ?thesis using assms readFile_length [of i "[]" sz off y] by (auto simp: fuseserver_read_def split_beta Let_def split: if_splits)
next
  case (Unlink p n)
  then show ?thesis using assms by (auto simp: fuseserver_unlink_def res_bind_eq_Inr_iff split: if_splits)
qed (use assms in \<open>auto simp: fuseserver_statfs_def fuseserver_open_def fuseserver_write_def fuseserver_readdir_def reply_buf_limited_def
    res_bind_eq_Inr_iff split_beta Let_def split: if_splits\<close>)

theorem replies_well_typed_witness:
  "\<exists>rs y'. fuseserver_oper id (\<lambda>_ _ _. []) 5 (Create 1 ''notes'') empty_root = Inr (rs, y') \<and> list_all (reply_typed (Create 1 ''notes'')) rs \<and> rs \<noteq> []"
proof -
  obtain i y1 where "createFile 5 0 1 ''notes'' empty_root = Inr ((yfs_OK, i), y1)"
    using createFile_effect [OF empty_root_ok(1,2) _ empty_root_ok(3), of "''notes''" 5 0] by (auto simp: valid_name_def)
  then have c: "\<exists>e y'. fuseserver_oper id (\<lambda>_ _ _. []) 5 (Create 1 ''notes'') empty_root = Inr ([Reply_Create e], y')"
    by (simp add: fuseserver_create_def fuseserver_createhelper_def split_beta Let_def)
  then obtain e y' where "fuseserver_oper id (\<lambda>_ _ _. []) 5 (Create 1 ''notes'') empty_root = Inr ([Reply_Create e], y')" by blast
  with replies_well_typed [OF this] show ?thesis by blast
qed

section \<open>Directory listings\<close>

text \<open>The bytes of a listing that starts at position \<open>pos\<close>, and the space of its entries.\<close>

fun listing :: "(nat \<Rightarrow> nat) \<Rightarrow> (string \<Rightarrow> u64 \<Rightarrow> nat \<Rightarrow> string) \<Rightarrow> nat \<Rightarrow> dirent list \<Rightarrow> string" where
  "listing ds ad pos [] = []"
| "listing ds ad pos (e # es) =
     (let nxt = pos + ds (length (de_name e)) in ad (de_name e) (de_inum e) nxt @ listing ds ad nxt es)"

definition listing_size :: "(nat \<Rightarrow> nat) \<Rightarrow> dirent list \<Rightarrow> nat" where
  "listing_size ds es = (\<Sum>e \<leftarrow> es. ds (length (de_name e)))"

lemma fold_dirbuf:
  assumes "entries_ok es"
  shows "fold (\<lambda>e. dirbuf_add ds ad (de_name e) (de_inum e)) es b =
    \<lparr>db_p = db_p b @ listing ds ad (db_size b) es, db_size = db_size b + listing_size ds es\<rparr>"
  using assms
proof (induction es arbitrary: b)
  case (Cons e es)
  have "c_str (de_name e) = de_name e" using Cons.prems by (simp add: entries_ok_def valid_c_str)
  with Cons show ?case by (simp add: dirbuf_add_def Let_def listing_size_def entries_ok_def)
qed (simp add: listing_size_def)

lemma listing_append: "listing ds ad pos (xs @ ys) = listing ds ad pos xs @ listing ds ad (pos + listing_size ds xs) ys"
  by (induction xs arbitrary: pos) (simp_all add: Let_def listing_size_def add.assoc)

lemma length_listing:
  assumes "\<And>n i k. length (ad n i k) = ds (length n)"
  shows "length (listing ds ad pos es) = listing_size ds es"
  by (induction es arbitrary: pos) (simp_all add: Let_def listing_size_def assms)

lemma contents_effect:
  assumes "yfs_ok y" "seen y d = Some v"
  shows "\<exists>y'. getDirContents d b0 y = ((yfs_OK, v), y') \<and> yfs_ok y' \<and> seen y' = seen y"
  using yfs_get [of "lc_acquire d y" d v b0] assms by (auto simp: getDirContents_def split_beta Let_def)

text \<open>
  C25: listing a directory in pieces.  Provided that the library writes an entry into exactly the
  space it asked for, a \<^verbatim>\<open>readdir\<close> from the offset that was stored in the last entry read answers
  with the following entries, from the first that was not read, cut off at the size asked for;
  from offset zero it starts with the first entry and at the end it answers with no bytes.
\<close>

theorem readdir_resumes:
  assumes "\<And>n i k. length (ad n i k) = ds (length n)" and "yfs_ok y" and "isdir d" and "dir_is y d (pre @ post)"
  shows "\<exists>y'. fuseserver_readdir ds ad d sz (listing_size ds pre) y =
      Inr ([Reply_Buf (take sz (listing ds ad (listing_size ds pre) post))], y') \<and> seen y' = seen y"
proof -
  let ?all = "listing ds ad 0 (pre @ post)"
  have ok: "entries_ok (pre @ post)" "seen y d = Some (writeDirent (pre @ post))" using assms(4) by (simp_all add: dir_is_def)
  obtain y' where y': "getDirContents d [] y = ((yfs_OK, writeDirent (pre @ post)), y')" "seen y' = seen y"
    using contents_effect [OF assms(2) ok(2)] by blast
  have len: "length ?all = listing_size ds (pre @ post)" by (rule length_listing [of ad ds, OF assms(1)])
  have pre: "length (listing ds ad 0 pre) = listing_size ds pre" by (rule length_listing [of ad ds, OF assms(1)])
  have drop: "drop (listing_size ds pre) ?all = listing ds ad (listing_size ds pre) post" by (simp add: listing_append flip: pre)
  have post: "length (listing ds ad (listing_size ds pre) post) = listing_size ds (pre @ post) - listing_size ds pre"
    using len drop by (metis length_drop)
  have "reply_buf_limited ?all (listing_size ds (pre @ post)) (listing_size ds pre) sz =
      Reply_Buf (take sz (listing ds ad (listing_size ds pre) post))"
    using post by (auto simp: reply_buf_limited_def drop min_def)
  then show ?thesis
    using assms(3) y' fold_dirbuf [OF ok(1), of ds ad "\<lparr>db_p = [], db_size = 0\<rparr>"]
    by (simp add: fuseserver_readdir_def parsebuf_writeDirent [OF ok(1)] Let_def)
qed

text \<open>A library that writes a name and two more bytes, and a directory with two entries.\<close>

definition two_entries :: yfs where
  "two_entries = \<lparr>y_ec = empty_world\<lparr>ew_srv := [(1, \<lparr>fi_attr = zero_attr, fi_id = 1,
     fi_buf = writeDirent [\<lparr>de_name = ''a'', de_inum = 6\<rparr>, \<lparr>de_name = ''bc'', de_inum = 7\<rparr>]\<rparr>)]\<rparr>, y_ev = []\<rparr>"

theorem readdir_resumes_witness:
  "\<exists>y'. fuseserver_readdir (\<lambda>k. k + 2) (\<lambda>n i k. n @ ''--'') 1 10 3 two_entries = Inr ([Reply_Buf ''bc--''], y')"
proof -
  have "yfs_ok two_entries" "isdir 1" "dir_is two_entries 1 ([\<lparr>de_name = ''a'', de_inum = 6\<rparr>] @ [\<lparr>de_name = ''bc'', de_inum = 7\<rparr>])"
    by (simp_all add: two_entries_def yfs_ok_def reliable_def empty_world_def dir_is_def seen_def cached_def stored_def
        entries_ok_def valid_name_def isdir_def isfile_def)
  from readdir_resumes [of "\<lambda>n i k. n @ ''--''" "\<lambda>k. k + 2", OF _ this, of 10]
  show ?thesis by (auto simp: listing_size_def Let_def numeral_3_eq_3)
qed

end
