(* ===== verification/Lock_Server.thy ===== *)
theory Lock_Server
  imports Rpc_Call
begin

text \<open>
  The lock protocol (\<^verbatim>\<open>lock_protocol.h\<close>), the simple lock server (\<^verbatim>\<open>lock_server.cc\<close>) and its client stubs
  (\<^verbatim>\<open>lock_client.cc\<close>), with the mutual exclusion the server gives to clients that call it in any
  order.
\<close>

section \<open>Protocol\<close>

type_synonym lockid_t = u64

definition lk_OK :: i32 where "lk_OK = 0"
definition lk_RETRY :: i32 where "lk_RETRY = 1"
definition lk_RPCERR :: i32 where "lk_RPCERR = 2"
definition lk_NOENT :: i32 where "lk_NOENT = 3"
definition lk_IOERR :: i32 where "lk_IOERR = 4"

definition rlk_OK :: i32 where "rlk_OK = 0"
definition rlk_RPCERR :: i32 where "rlk_RPCERR = 1"

lemma lk_distinct [simp]:
  "lk_OK \<noteq> lk_RETRY" "lk_RETRY \<noteq> lk_OK" "lk_OK \<noteq> lk_IOERR" "lk_IOERR \<noteq> lk_OK"
  by (simp_all add: lk_OK_def lk_RETRY_def lk_IOERR_def)

section \<open>Server\<close>

definition UNLOCKED :: i32 where "UNLOCKED = 999999999"

record lock_info =
  li_acquire_count :: i32
  li_clt :: i32

record lock_server =
  ls_nacquire :: i32
  ls_list :: "(lockid_t, lock_info) smap"

definition lock_server_new :: lock_server where
  "lock_server_new = \<lparr>ls_nacquire = 0, ls_list = []\<rparr>"

definition ls_stat :: "i32 \<Rightarrow> lockid_t \<Rightarrow> lock_server \<Rightarrow> i32 \<times> i32" where
  "ls_stat clt lid s = (lk_OK, ls_nacquire s)"

text \<open>
  One pass of \<^verbatim>\<open>acquire\<close> under the mutex.  \<^term>\<open>None\<close>: the lock is taken and the thread waits on the
  condition variable, to make another pass when it is woken; the iterator it keeps stays valid,
  so that a later pass takes the branch of the existing lock.
\<close>

definition ls_acquire :: "i32 \<Rightarrow> lockid_t \<Rightarrow> lock_server \<Rightarrow> (i32 \<times> lock_server) option" where
  "ls_acquire clt lid s =
     (case map_of (ls_list s) lid of
        None \<Rightarrow> Some (lk_OK, s\<lparr>ls_list := smap_set lid \<lparr>li_acquire_count = 1, li_clt = clt\<rparr> (ls_list s)\<rparr>)
      | Some k \<Rightarrow>
          if li_clt k \<noteq> UNLOCKED then None
          else Some (lk_OK, s\<lparr>ls_list := smap_set lid
                 (k\<lparr>li_acquire_count := li_acquire_count k + 1, li_clt := clt\<rparr>) (ls_list s)\<rparr>))"

definition ls_release :: "i32 \<Rightarrow> lockid_t \<Rightarrow> lock_server \<Rightarrow> (i32 \<times> lock_server) res" where
  "ls_release clt lid s =
     (case map_of (ls_list s) lid of
        None \<Rightarrow> Inl Out_Of_Bounds
      | Some k \<Rightarrow>
          if li_clt k = clt then Inr (lk_OK, s\<lparr>ls_list := smap_set lid (k\<lparr>li_clt := UNLOCKED\<rparr>) (ls_list s)\<rparr>)
          else Inr (lk_IOERR, s))"

section \<open>Client stubs\<close>

text \<open>
  \<open>ret\<close> is what \<^verbatim>\<open>cl->call\<close> returned and \<open>r\<close> the out-parameter of the reply, which is what the stubs
  return.
\<close>

definition lkc_stat :: "i32 \<Rightarrow> i32 \<Rightarrow> i32 res" where
  "lkc_stat ret r = (if ret = lk_OK then Inr r else Inl Verify_Failed)"

definition lkc_acquire :: "i32 \<Rightarrow> i32 \<Rightarrow> i32 res" where
  "lkc_acquire ret r = (if ret = lk_OK \<or> ret = lk_RETRY then Inr r else Inl Verify_Failed)"

definition lkc_release :: "i32 \<Rightarrow> i32 \<Rightarrow> i32 res" where
  "lkc_release ret r = (if ret = lk_OK then Inr r else Inl Verify_Failed)"

section \<open>Mutual exclusion\<close>

text \<open>
  Clients call the server in any order, also releases of locks they do not hold.  The second
  component lists the acquisitions that have returned and have not been released with success.
\<close>

definition ls_init :: "lock_server \<times> (i32 \<times> lockid_t) list \<Rightarrow> bool" where
  "ls_init st \<longleftrightarrow> st = (lock_server_new, [])"

inductive ls_step :: "lock_server \<times> (i32 \<times> lockid_t) list \<Rightarrow> lock_server \<times> (i32 \<times> lockid_t) list \<Rightarrow> bool" where
  ls_granted: "clt \<noteq> UNLOCKED \<Longrightarrow> ls_acquire clt lid s = Some (r, s') \<Longrightarrow> ls_step (s, hs) (s', (clt, lid) # hs)"
| ls_released: "clt \<noteq> UNLOCKED \<Longrightarrow> ls_release clt lid s = Inr (lk_OK, s') \<Longrightarrow> ls_step (s, hs) (s', remove1 (clt, lid) hs)"
| ls_refused: "clt \<noteq> UNLOCKED \<Longrightarrow> ls_release clt lid s = Inr (lk_IOERR, s') \<Longrightarrow> ls_step (s, hs) (s', hs)"

definition ls_inv :: "lock_server \<times> (i32 \<times> lockid_t) list \<Rightarrow> bool" where
  "ls_inv st \<longleftrightarrow> distinct (map snd (snd st)) \<and>
     (\<forall>c l. (c, l) \<in> set (snd st) \<longleftrightarrow>
        (\<exists>k. map_of (ls_list (fst st)) l = Some k \<and> li_clt k = c \<and> c \<noteq> UNLOCKED))"

lemma distinct_snd_remove1: "distinct (map snd xs) \<Longrightarrow> distinct (map snd (remove1 x xs))"
  by (induction xs) (auto dest: set_remove1_subset [THEN subsetD] simp: rev_image_eqI)

interpretation simple_lock: invariant_system ls_init ls_step ls_inv
proof
  show "ls_inv s" if "ls_init s" for s using that by (simp add: ls_init_def ls_inv_def lock_server_new_def)
next
  fix s t assume "ls_inv s" "ls_step s t"
  from this(2,1) show "ls_inv t"
  proof (induction rule: ls_step.induct)
    case (ls_granted clt lid s r s' hs)
    then show ?case
      by (auto simp: ls_inv_def ls_acquire_def split: option.splits if_splits)
  next
    case (ls_released clt lid s s' hs)
    then have "distinct hs" by (auto simp: ls_inv_def distinct_map)
    with ls_released show ?case
      by (auto simp: ls_inv_def ls_release_def distinct_snd_remove1 split: option.splits if_splits)
  next
    case (ls_refused clt lid s s' hs)
    then show ?case by (auto simp: ls_inv_def ls_release_def split: option.splits if_splits)
  qed
qed

text \<open>
  C34: mutual exclusion of the simple lock server.  Whatever clients call (none of them using the
  reserved number as its id), no lock is ever held twice, and the holder the server records is
  exactly the client whose acquisition has returned and not been released; releases by other
  clients are refused without effect.
\<close>

theorem simple_server_exclusive:
  assumes "reach ls_init ls_step (s, hs)"
  shows "distinct (map snd hs) \<and>
    (\<forall>c l. (c, l) \<in> set hs \<longleftrightarrow> (\<exists>k. map_of (ls_list s) l = Some k \<and> li_clt k = c \<and> c \<noteq> UNLOCKED))"
  using simple_lock.reach_inv [OF assms] by (simp add: ls_inv_def)

theorem simple_server_exclusive_witness:
  "let s = lock_server_new\<lparr>ls_list := [(7, \<lparr>li_acquire_count = 1, li_clt = 5\<rparr>)]\<rparr>
   in ls_acquire 5 7 lock_server_new = Some (lk_OK, s) \<and> ls_acquire 6 7 s = None \<and>
      distinct (map snd [(5 :: i32, 7 :: lockid_t)])"
proof -
  let ?s = "lock_server_new\<lparr>ls_list := [(7, \<lparr>li_acquire_count = 1, li_clt = 5\<rparr>)]\<rparr>"
  have a: "ls_acquire 5 7 lock_server_new = Some (lk_OK, ?s)" "ls_acquire 6 7 ?s = None"
    by (simp_all add: ls_acquire_def lock_server_new_def UNLOCKED_def)
  have "reach ls_init ls_step (lock_server_new, [])" by (rule reach_init) (simp add: ls_init_def)
  moreover have "ls_step (lock_server_new, []) (?s, [(5, 7)])"
    using a(1) by (rule ls_granted [rotated]) (simp add: UNLOCKED_def)
  ultimately have "reach ls_init ls_step (?s, [(5, 7)])" by (rule reach_step)
  from simple_server_exclusive [OF this] a show ?thesis by (simp only: Let_def)
qed

end
