(* ===== verification/Lock_Server_Cache.thy ===== *)
theory Lock_Server_Cache
  imports Lock_Server
begin

text \<open>
  The lock server for caching clients (\<^verbatim>\<open>lock_server_cache.cc\<close>): grants, the queue of waiting clients,
  the \<^verbatim>\<open>enforcer\<close> thread that decides which holders must give a lock back, and the \<^verbatim>\<open>revoker\<close> thread that
  tells them.
\<close>

definition SRV_FREE :: string where "SRV_FREE = ''MMMMM''"

record cached_lock_info =
  ci_holder :: string
  ci_revoked :: bool
  ci_queue :: "string list"

record revoke_request =
  rr_holder :: string
  rr_lid :: lockid_t

text \<open>The constructor leaves \<^verbatim>\<open>nacquire\<close> unset.\<close>

record lock_server_cache =
  sc_nacquire :: "i32 option"
  sc_list :: "(lockid_t, cached_lock_info) smap"
  sc_revoke_queue :: "revoke_request list"

definition lock_server_cache_new :: lock_server_cache where
  "lock_server_cache_new = \<lparr>sc_nacquire = None, sc_list = [], sc_revoke_queue = []\<rparr>"

definition sc_put :: "lockid_t \<Rightarrow> cached_lock_info \<Rightarrow> lock_server_cache \<Rightarrow> lock_server_cache" where
  "sc_put lid k s = s\<lparr>sc_list := smap_set lid k (sc_list s)\<rparr>"

text \<open>\<^verbatim>\<open>new cached_lock_info()\<close> zeroes the fields, so a new lock starts with \<^verbatim>\<open>revoked == false\<close>.\<close>

definition sc_acquire :: "lockid_t \<Rightarrow> string \<Rightarrow> lock_server_cache \<Rightarrow> i32 \<times> lock_server_cache" where
  "sc_acquire lid client s =
     (case map_of (sc_list s) lid of
        None \<Rightarrow> (lk_OK, sc_put lid \<lparr>ci_holder = client, ci_revoked = False, ci_queue = []\<rparr> s)
      | Some k \<Rightarrow>
          if ci_holder k = SRV_FREE then (lk_OK, sc_put lid (k\<lparr>ci_holder := client\<rparr>) s)
          else (lk_RETRY, sc_put lid (k\<lparr>ci_queue := ci_queue k @ [client]\<rparr>) s))"

text \<open>
  \<^verbatim>\<open>lock_list[lid]\<close> of an unknown lock creates a null pointer, which the next line follows.  The last
  component is the client that is then called with \<^verbatim>\<open>rlock_protocol::retry\<close>; the outcome of that call
  is ignored.
\<close>

definition sc_release :: "lockid_t \<Rightarrow> string \<Rightarrow> lock_server_cache \<Rightarrow> (i32 \<times> lock_server_cache \<times> string option) res" where
  "sc_release lid client s =
     (case map_of (sc_list s) lid of
        None \<Rightarrow> Inl Null_Deref
      | Some k \<Rightarrow>
          (let k = k\<lparr>ci_revoked := False\<rparr>
           in case ci_queue k of
                [] \<Rightarrow> Inr (lk_OK, sc_put lid (k\<lparr>ci_holder := SRV_FREE\<rparr>) s, None)
              | c # q \<Rightarrow> Inr (lk_OK, sc_put lid (k\<lparr>ci_queue := q, ci_holder := c\<rparr>) s, Some c)))"

definition sc_stat :: "lockid_t \<Rightarrow> lock_server_cache \<Rightarrow> (i32 \<times> i32) res" where
  "sc_stat lid s = (case sc_nacquire s of None \<Rightarrow> Inl Uninitialised | Some n \<Rightarrow> Inr (lk_OK, n))"

text \<open>\<^verbatim>\<open>revoke\<close> (no longer called): the client that is sent \<^verbatim>\<open>rlock_protocol::revoke\<close>.\<close>

definition sc_revoke :: "lockid_t \<Rightarrow> lock_server_cache \<Rightarrow> string res" where
  "sc_revoke lid s = (case map_of (sc_list s) lid of None \<Rightarrow> Inl Null_Deref | Some k \<Rightarrow> Inr (ci_holder k))"

section \<open>Enforcer and revoker\<close>

definition must_revoke :: "cached_lock_info \<Rightarrow> bool" where
  "must_revoke k \<longleftrightarrow> ci_queue k \<noteq> [] \<and> \<not> ci_revoked k"

fun enforce :: "(lockid_t, cached_lock_info) smap \<Rightarrow> revoke_request list \<Rightarrow> (lockid_t, cached_lock_info) smap \<times> revoke_request list" where
  "enforce [] q = ([], q)"
| "enforce ((l, k) # m) q =
     (if must_revoke k
      then let (m', q') = enforce m (q @ [\<lparr>rr_holder = ci_holder k, rr_lid = l\<rparr>]) in ((l, k\<lparr>ci_revoked := True\<rparr>) # m', q')
      else let (m', q') = enforce m q in ((l, k) # m', q'))"

text \<open>One round of the loop of \<^verbatim>\<open>enforcer\<close>, and the next request taken by the loop of \<^verbatim>\<open>revoker\<close>.\<close>

definition sc_enforcer :: "lock_server_cache \<Rightarrow> lock_server_cache" where
  "sc_enforcer s =
     (let (m, q) = enforce (sc_list s) (sc_revoke_queue s) in s\<lparr>sc_list := m, sc_revoke_queue := q\<rparr>)"

definition sc_revoker :: "lock_server_cache \<Rightarrow> (revoke_request \<times> lock_server_cache) option" where
  "sc_revoker s =
     (case sc_revoke_queue s of [] \<Rightarrow> None | r # q \<Rightarrow> Some (r, s\<lparr>sc_revoke_queue := q\<rparr>))"

lemma enforce_lookup:
  "map_of (fst (enforce m q)) l =
     map_option (\<lambda>k. if must_revoke k then k\<lparr>ci_revoked := True\<rparr> else k) (map_of m l)"
  by (induction m q rule: enforce.induct) (auto simp: Let_def split_beta)

lemma enforce_keys: "map fst (fst (enforce m q)) = map fst m"
  by (induction m q rule: enforce.induct) (auto simp: Let_def split_beta)

definition request_count :: "revoke_request list \<Rightarrow> string \<Rightarrow> lockid_t \<Rightarrow> nat" where
  "request_count q c l = count_list q \<lparr>rr_holder = c, rr_lid = l\<rparr>"

lemma request_count_simps [simp]:
  "request_count [] c l = 0"
  "request_count (r # q) c l = of_bool (rr_holder r = c \<and> rr_lid r = l) + request_count q c l"
  "request_count (q @ q') c l = request_count q c l + request_count q' c l"
  by (auto simp: request_count_def)

lemma enforce_requests:
  assumes "distinct (map fst m)"
  shows "request_count (snd (enforce m q)) c l =
     request_count q c l + (case map_of m l of None \<Rightarrow> 0 | Some k \<Rightarrow> of_bool (must_revoke k \<and> ci_holder k = c))"
  using assms
proof (induction m q rule: enforce.induct)
  case (2 l' k m q)
  have "map_of m l' = None" using 2(3) by (auto simp: map_of_eq_None_iff)
  with 2 show ?case by (auto simp: Let_def split_beta split: option.splits)
qed simp

end
