(* ===== verification/Lock_Client_Cache.thy ===== *)
theory Lock_Client_Cache
  imports Lock_Server_Cache
begin

text \<open>
  The caching lock client (\<^verbatim>\<open>lock_client_cache.cc\<close>).  Each definition is one stretch of code that runs
  under \<^verbatim>\<open>sync_root\<close>: the mutex is dropped around the remote calls and inside the waits, so
  \<^verbatim>\<open>acquire\<close> is several of them.  \<^verbatim>\<open>Lock_System\<close> composes the stretches into threads.
\<close>

definition CLT_FREE :: u64 where "CLT_FREE = 0"

text \<open>\<^verbatim>\<open>awaiting_lock\<close> counts threads of the process and is an integer of any size here.\<close>

record clt_lock_info =
  cl_lid :: lockid_t
  cl_acquiring :: bool
  cl_owned :: bool
  cl_revoked :: bool
  cl_awaiting_lock :: int
  cl_holder :: u64

record lock_client_cache =
  cc_id :: string
  cc_list :: "(lockid_t, clt_lock_info) smap"

text \<open>\<^verbatim>\<open>new lock_info()\<close> zeroes every field.\<close>

definition new_lock_info :: clt_lock_info where
  "new_lock_info = \<lparr>cl_lid = 0, cl_acquiring = False, cl_owned = False, cl_revoked = False, cl_awaiting_lock = 0, cl_holder = 0\<rparr>"

definition lock_client_cache_new :: "string \<Rightarrow> lock_client_cache" where
  "lock_client_cache_new port = \<lparr>cc_id = ''127.0.0.1:'' @ port, cc_list = []\<rparr>"

definition cc_put :: "lockid_t \<Rightarrow> clt_lock_info \<Rightarrow> lock_client_cache \<Rightarrow> lock_client_cache" where
  "cc_put lid k s = s\<lparr>cc_list := smap_set lid k (cc_list s)\<rparr>"

text \<open>\<^verbatim>\<open>lock_list[lid]\<close>, followed at once.\<close>

definition cc_lock :: "lockid_t \<Rightarrow> lock_client_cache \<Rightarrow> clt_lock_info res" where
  "cc_lock lid s = (case map_of (cc_list s) lid of None \<Rightarrow> Inl Null_Deref | Some k \<Rightarrow> Inr k)"

section \<open>Acquire\<close>

definition acquire_create :: "lockid_t \<Rightarrow> lock_client_cache \<Rightarrow> lock_client_cache" where
  "acquire_create lid s =
     (case map_of (cc_list s) lid of
        None \<Rightarrow> cc_put lid (new_lock_info\<lparr>cl_holder := CLT_FREE, cl_owned := False, cl_acquiring := False, cl_awaiting_lock := 0\<rparr>) s
      | Some k \<Rightarrow> s)"

text \<open>The result says whether the thread goes on to \<^verbatim>\<open>acquire_lock\<close>.\<close>

definition acquire_enter :: "lockid_t \<Rightarrow> lock_client_cache \<Rightarrow> (bool \<times> lock_client_cache) res" where
  "acquire_enter lid s = res_bind (cc_lock lid s) (\<lambda>k.
     Inr (\<not> cl_owned k \<and> \<not> cl_acquiring k, cc_put lid (k\<lparr>cl_awaiting_lock := cl_awaiting_lock k + 1\<rparr>) s))"

text \<open>\<^verbatim>\<open>acquire_lock\<close> before its remote call; the result says whether it makes the call.\<close>

definition acquire_lock_begin :: "lockid_t \<Rightarrow> lock_client_cache \<Rightarrow> (bool \<times> lock_client_cache) res" where
  "acquire_lock_begin lid s = res_bind (cc_lock lid s) (\<lambda>k.
     if \<not> cl_acquiring k \<and> \<not> cl_owned k then Inr (True, cc_put lid (k\<lparr>cl_acquiring := True\<rparr>) s)
     else Inr (False, s))"

definition acquire_lock_end :: "lockid_t \<Rightarrow> i32 \<Rightarrow> lock_client_cache \<Rightarrow> lock_client_cache res" where
  "acquire_lock_end lid ret s = res_bind (cc_lock lid s) (\<lambda>k.
     if cl_owned k then Inr s
     else if ret = lk_OK then Inr (cc_put lid (k\<lparr>cl_acquiring := False, cl_owned := True\<rparr>) s)
     else Inr (cc_put lid (k\<lparr>cl_acquiring := True, cl_owned := False\<rparr>) s))"

text \<open>
  The waits.  A thread first waits for the client to own the lock; once it does, it takes the
  lock or waits for the holding thread to let go, without looking at \<^verbatim>\<open>owned\<close> again.
\<close>

datatype waiting = Wait_Owned | Wait_Holder | Got lock_client_cache

definition acquire_take :: "u64 \<Rightarrow> lockid_t \<Rightarrow> clt_lock_info \<Rightarrow> lock_client_cache \<Rightarrow> waiting" where
  "acquire_take self lid k s =
     (if cl_holder k = CLT_FREE
      then Got (cc_put lid (k\<lparr>cl_holder := self, cl_awaiting_lock := cl_awaiting_lock k - 1\<rparr>) s)
      else Wait_Holder)"

definition acquire_wait_owned :: "u64 \<Rightarrow> lockid_t \<Rightarrow> lock_client_cache \<Rightarrow> waiting res" where
  "acquire_wait_owned self lid s = res_bind (cc_lock lid s) (\<lambda>k.
     if \<not> cl_owned k then Inr Wait_Owned else Inr (acquire_take self lid k s))"

definition acquire_wait_holder :: "u64 \<Rightarrow> lockid_t \<Rightarrow> lock_client_cache \<Rightarrow> waiting res" where
  "acquire_wait_holder self lid s = res_bind (cc_lock lid s) (\<lambda>k. Inr (acquire_take self lid k s))"

section \<open>Release and the handlers\<close>

text \<open>
  The result says whether the lock goes back: then, with the mutex dropped, \<^verbatim>\<open>lu->dorelease\<close> flushes
  the extent and \<^verbatim>\<open>lock_protocol::release\<close> is called.
\<close>

definition lcc_release :: "lockid_t \<Rightarrow> lock_client_cache \<Rightarrow> (bool \<times> lock_client_cache) res" where
  "lcc_release lid s = res_bind (cc_lock lid s) (\<lambda>k.
     let k = k\<lparr>cl_holder := CLT_FREE\<rparr>
     in if cl_awaiting_lock k = 0 \<and> cl_revoked k
        then Inr (True, cc_put lid (k\<lparr>cl_owned := False, cl_revoked := False, cl_acquiring := False, cl_holder := CLT_FREE\<rparr>) s)
        else Inr (False, cc_put lid k s))"

definition revoke_handler :: "lockid_t \<Rightarrow> lock_client_cache \<Rightarrow> bool \<times> lock_client_cache" where
  "revoke_handler lid s =
     (case map_of (cc_list s) lid of
        None \<Rightarrow> (False, cc_put lid (new_lock_info\<lparr>cl_holder := CLT_FREE, cl_revoked := True, cl_owned := True, cl_awaiting_lock := 0\<rparr>) s)
      | Some k \<Rightarrow>
          if cl_holder k = CLT_FREE \<and> cl_awaiting_lock k = 0 \<and> \<not> cl_acquiring k
          then (True, cc_put lid (k\<lparr>cl_owned := False, cl_revoked := False\<rparr>) s)
          else (False, cc_put lid (k\<lparr>cl_revoked := True\<rparr>) s))"

definition retry_handler :: "lockid_t \<Rightarrow> lock_client_cache \<Rightarrow> (i32 \<times> lock_client_cache) res" where
  "retry_handler lid s = res_bind (cc_lock lid s) (\<lambda>k.
     Inr (rlk_OK, cc_put lid (k\<lparr>cl_acquiring := False, cl_owned := True\<rparr>) s))"

lemma client_id_not_free: "cc_id (lock_client_cache_new port) \<noteq> SRV_FREE"
  by (simp add: lock_client_cache_new_def SRV_FREE_def)

end
