(* ===== verification/Lock_System.thy ===== *)
theory Lock_System
  imports Lock_Client_Cache
begin

text \<open>
  The caching lock service as a whole: any number of clients with any number of threads each, the
  server with its enforcer and revoker threads, and the calls between them.  A step is one stretch
  of code that runs under a mutex, so that the steps interleave in every way the mutexes allow.
  Remote calls are executed exactly once, after any delay (what the RPC layer gives when no call
  times out).  The theorems: no lock is ever held by two threads, no handler follows a null
  pointer, and a client that waits for a lock is never forgotten.
\<close>

section \<open>Threads and messages\<close>

text \<open>
  Where a thread is in \<^verbatim>\<open>acquire\<close>/\<^verbatim>\<open>release\<close> of one lock; a thread has one position per lock, since it may
  hold some locks while it acquires another.
\<close>

datatype pc =
    Idle
  | Acq_Enter
  | Acq_Fetch
  | Acq_Call
  | Acq_Reply i32
  | Acq_Wait
  | Acq_Holder
  | Holding

fun awaits :: "pc \<Rightarrow> bool" where
  "awaits Acq_Fetch = True"
| "awaits Acq_Call = True"
| "awaits (Acq_Reply r) = True"
| "awaits Acq_Wait = True"
| "awaits Acq_Holder = True"
| "awaits _ = False"

datatype lmsg =
    Revoke string lockid_t
  | Retry string lockid_t
  | Release string lockid_t

record lock_sys =
  sy_srv :: lock_server_cache
  sy_clt :: "string \<Rightarrow> lock_client_cache"
  sy_pc :: "string \<Rightarrow> u64 \<Rightarrow> lockid_t \<Rightarrow> pc"
  sy_net :: "lmsg list"

definition sys_init :: "lock_sys \<Rightarrow> bool" where
  "sys_init s \<longleftrightarrow> sy_srv s = lock_server_cache_new \<and> (\<forall>c. cc_list (sy_clt s c) = []) \<and>
     (\<forall>c t l. sy_pc s c t l = Idle) \<and> sy_net s = []"

definition at_pc :: "string \<Rightarrow> u64 \<Rightarrow> lockid_t \<Rightarrow> pc \<Rightarrow> lock_sys \<Rightarrow> lock_sys" where
  "at_pc c t l p s = s\<lparr>sy_pc := (sy_pc s)(c := (sy_pc s c)(t := (sy_pc s c t)(l := p)))\<rparr>"

definition with_clt :: "string \<Rightarrow> lock_client_cache \<Rightarrow> lock_sys \<Rightarrow> lock_sys" where
  "with_clt c k s = s\<lparr>sy_clt := (sy_clt s)(c := k)\<rparr>"

definition send :: "lmsg list \<Rightarrow> lock_sys \<Rightarrow> lock_sys" where
  "send ms s = s\<lparr>sy_net := sy_net s @ ms\<rparr>"

definition recv :: "lmsg \<Rightarrow> lock_sys \<Rightarrow> lock_sys" where
  "recv m s = s\<lparr>sy_net := remove1 m (sy_net s)\<rparr>"

text \<open>
  A thread that gives a lock back leaves a \<^const>\<open>Release\<close> message, and is free to go on before the
  server has executed it; the mutex \<^verbatim>\<open>revoke_lock\<close>, which keeps the enforcer from running while the
  revoker calls clients, is left out.  Both only add behaviours.
\<close>

inductive lock_step :: "lock_sys \<Rightarrow> lock_sys \<Rightarrow> bool" where
  l_start: "sy_pc s c t l = Idle \<Longrightarrow> c = cc_id (lock_client_cache_new port) \<Longrightarrow> t \<noteq> CLT_FREE \<Longrightarrow>
    lock_step s (at_pc c t l Acq_Enter (with_clt c (acquire_create l (sy_clt s c)) s))"
| l_enter: "sy_pc s c t l = Acq_Enter \<Longrightarrow> acquire_enter l (sy_clt s c) = Inr (fetch, k) \<Longrightarrow>
    lock_step s (at_pc c t l (if fetch then Acq_Fetch else Acq_Wait) (with_clt c k s))"
| l_fetch: "sy_pc s c t l = Acq_Fetch \<Longrightarrow> acquire_lock_begin l (sy_clt s c) = Inr (call, k) \<Longrightarrow>
    lock_step s (at_pc c t l (if call then Acq_Call else Acq_Wait) (with_clt c k s))"
| l_call: "sy_pc s c t l = Acq_Call \<Longrightarrow> sc_acquire l c (sy_srv s) = (ret, srv) \<Longrightarrow>
    lock_step s (at_pc c t l (Acq_Reply ret) (s\<lparr>sy_srv := srv\<rparr>))"
| l_reply: "sy_pc s c t l = Acq_Reply ret \<Longrightarrow> acquire_lock_end l ret (sy_clt s c) = Inr k \<Longrightarrow>
    lock_step s (at_pc c t l Acq_Wait (with_clt c k s))"
| l_wait_holder: "sy_pc s c t l = Acq_Wait \<Longrightarrow> acquire_wait_owned t l (sy_clt s c) = Inr Wait_Holder \<Longrightarrow>
    lock_step s (at_pc c t l Acq_Holder s)"
| l_got: "sy_pc s c t l = Acq_Wait \<Longrightarrow> acquire_wait_owned t l (sy_clt s c) = Inr (Got k) \<Longrightarrow>
    lock_step s (at_pc c t l Holding (with_clt c k s))"
| l_got_later: "sy_pc s c t l = Acq_Holder \<Longrightarrow> acquire_wait_holder t l (sy_clt s c) = Inr (Got k) \<Longrightarrow>
    lock_step s (at_pc c t l Holding (with_clt c k s))"
| l_release: "sy_pc s c t l = Holding \<Longrightarrow> lcc_release l (sy_clt s c) = Inr (back, k) \<Longrightarrow>
    lock_step s (send (if back then [Release c l] else []) (at_pc c t l Idle (with_clt c k s)))"
| l_returned: "Release c l \<in> set (sy_net s) \<Longrightarrow> sc_release l c (sy_srv s) = Inr (ret, srv, next) \<Longrightarrow>
    lock_step s (send (case next of None \<Rightarrow> [] | Some x \<Rightarrow> [Retry x l]) (recv (Release c l) s\<lparr>sy_srv := srv\<rparr>))"
| l_retry: "Retry c l \<in> set (sy_net s) \<Longrightarrow> retry_handler l (sy_clt s c) = Inr (ret, k) \<Longrightarrow>
    lock_step s (recv (Retry c l) (with_clt c k s))"
| l_enforcer: "lock_step s (s\<lparr>sy_srv := sc_enforcer (sy_srv s)\<rparr>)"
| l_revoker: "sc_revoker (sy_srv s) = Some (r, srv) \<Longrightarrow>
    lock_step s (send [Revoke (rr_holder r) (rr_lid r)] (s\<lparr>sy_srv := srv\<rparr>))"
| l_revoked: "Revoke c l \<in> set (sy_net s) \<Longrightarrow> revoke_handler l (sy_clt s c) = (back, k) \<Longrightarrow>
    lock_step s (send (if back then [Release c l] else []) (recv (Revoke c l) (with_clt c k s)))"

section \<open>One lock at a time\<close>

text \<open>
  What the system looks like from one lock: the server's record, the clients' records, the
  threads, and how many grants (\<open>v_gra\<close>), returns (\<open>v_rel\<close>) and revocations (\<open>v_rev\<close>) are under way to
  or from each client.
\<close>

record lview =
  v_srv :: "cached_lock_info option"
  v_clt :: "string \<Rightarrow> clt_lock_info option"
  v_pc :: "string \<Rightarrow> u64 \<Rightarrow> pc"
  v_gra :: "string \<Rightarrow> nat"
  v_rel :: "string \<Rightarrow> nat"
  v_rev :: "string \<Rightarrow> nat"

definition view :: "lockid_t \<Rightarrow> lock_sys \<Rightarrow> lview" where
  "view l s = \<lparr>v_srv = map_of (sc_list (sy_srv s)) l, v_clt = (\<lambda>c. map_of (cc_list (sy_clt s c)) l),
     v_pc = (\<lambda>c t. sy_pc s c t l),
     v_gra = (\<lambda>c. count_list (sy_net s) (Retry c l)), v_rel = (\<lambda>c. count_list (sy_net s) (Release c l)),
     v_rev = (\<lambda>c. count_list (sy_net s) (Revoke c l) + request_count (sc_revoke_queue (sy_srv s)) c l)\<rparr>"

definition npc :: "(pc \<Rightarrow> bool) \<Rightarrow> (u64 \<Rightarrow> pc) \<Rightarrow> nat" where
  "npc P f = card {t. P (f t)}"

text \<open>There are finitely many threads, so that counting them is sound.\<close>

lemma npc_upd:
  "npc P (f(t := p)) + of_bool (P (f t)) = npc P f + of_bool (P p)"
proof -
  have "{u. P ((f(t := p)) u)} = (if P p then insert t {u. u \<noteq> t \<and> P (f u)} else {u. u \<noteq> t \<and> P (f u)})"
    "{u. P (f u)} = (if P (f t) then insert t {u. u \<noteq> t \<and> P (f u)} else {u. u \<noteq> t \<and> P (f u)})" by auto
  then show ?thesis unfolding npc_def by (simp split: if_splits)
qed

lemma npc_0_iff: "npc P f = 0 \<longleftrightarrow> (\<forall>t. \<not> P (f t))"
  by (simp add: npc_def)

definition v_flag :: "(clt_lock_info \<Rightarrow> bool) \<Rightarrow> lview \<Rightarrow> string \<Rightarrow> nat" where
  "v_flag f v c = (case v_clt v c of None \<Rightarrow> 0 | Some k \<Rightarrow> of_bool (f k))"

definition v_holder :: "lview \<Rightarrow> string option" where
  "v_holder v = (case v_srv v of None \<Rightarrow> None | Some k \<Rightarrow> if ci_holder k = SRV_FREE then None else Some (ci_holder k))"

definition v_queue :: "lview \<Rightarrow> string list" where
  "v_queue v = (case v_srv v of None \<Rightarrow> [] | Some k \<Rightarrow> ci_queue k)"

definition v_revoking :: "lview \<Rightarrow> bool" where
  "v_revoking v = (case v_srv v of None \<Rightarrow> False | Some k \<Rightarrow> ci_revoked k)"

section \<open>The invariant\<close>

text \<open>
  Per client: the permissions it has or that are under way to or from it; what its \<^verbatim>\<open>acquiring\<close> flag
  stands for; and where a revocation sent to it is.
\<close>

definition tokens :: "lview \<Rightarrow> string \<Rightarrow> nat" where
  "tokens v c = v_flag cl_owned v c + npc ((=) (Acq_Reply lk_OK)) (v_pc v c) + v_gra v c + v_rel v c"

definition asking :: "lview \<Rightarrow> string \<Rightarrow> nat" where
  "asking v c = npc ((=) Acq_Call) (v_pc v c) + npc ((=) (Acq_Reply lk_OK)) (v_pc v c) + count_list (v_queue v) c + v_gra v c"

definition revoking :: "lview \<Rightarrow> string \<Rightarrow> nat" where
  "revoking v c = v_rev v c + v_flag cl_revoked v c + v_rel v c"

definition thread_inv :: "clt_lock_info \<Rightarrow> (u64 \<Rightarrow> pc) \<Rightarrow> bool" where
  "thread_inv k f \<longleftrightarrow> cl_awaiting_lock k = int (npc awaits f) \<and> f CLT_FREE = Idle \<and>
     (\<forall>t r. f t = Acq_Reply r \<longrightarrow> cl_acquiring k \<or> cl_owned k) \<and>
     (\<forall>t. f t = Acq_Holder \<longrightarrow> cl_owned k) \<and>
     (\<forall>t. f t = Holding \<longleftrightarrow> cl_holder k = t \<and> t \<noteq> CLT_FREE) \<and>
     (cl_holder k \<noteq> CLT_FREE \<longrightarrow> cl_owned k) \<and> \<not> (cl_acquiring k \<and> cl_owned k)"

definition client_inv :: "lview \<Rightarrow> string \<Rightarrow> bool" where
  "client_inv v c \<longleftrightarrow>
     tokens v c = of_bool (v_holder v = Some c) \<and>
     v_flag cl_acquiring v c = asking v c \<and>
     revoking v c = of_bool (v_holder v = Some c \<and> v_revoking v) \<and>
     (case v_clt v c of
        None \<Rightarrow> (\<forall>t. v_pc v c t = Idle) \<and> v_rev v c = 0 \<and> v_rel v c = 0
      | Some k \<Rightarrow> c \<noteq> SRV_FREE \<and> thread_inv k (v_pc v c))"

definition lock_inv :: "lview \<Rightarrow> bool" where
  "lock_inv v \<longleftrightarrow> (\<forall>c. client_inv v c) \<and> (v_holder v = None \<longrightarrow> v_queue v = [] \<and> \<not> v_revoking v)"

lemmas lview_defs = client_inv_def tokens_def asking_def revoking_def v_flag_def

lemma inv_le_1:
  assumes "lock_inv v"
  shows "tokens v c \<le> 1" and "asking v c \<le> 1" and "revoking v c \<le> 1"
proof -
  from assms have c: "client_inv v c" by (simp add: lock_inv_def)
  then show "tokens v c \<le> 1" "revoking v c \<le> 1" by (simp_all add: client_inv_def)
  from c have "asking v c = v_flag cl_acquiring v c" by (simp add: client_inv_def)
  then show "asking v c \<le> 1" by (simp add: v_flag_def split: option.splits)
qed

text \<open>What only concerns one client is checked for that client.\<close>

lemma lock_inv_frame:
  assumes inv: "lock_inv v"
    and srv: "v_srv v' = v_srv v"
    and others: "\<And>x. x \<noteq> c \<Longrightarrow> v_clt v' x = v_clt v x \<and> v_pc v' x = v_pc v x \<and> v_gra v' x = v_gra v x \<and>
      v_rel v' x = v_rel v x \<and> v_rev v' x = v_rev v x"
    and c: "c \<noteq> SRV_FREE" "v_clt v' c = Some k" "thread_inv k (v_pc v' c)"
    and toks: "tokens v' c = tokens v c"
    and asks: "v_flag cl_acquiring v' c + asking v c = v_flag cl_acquiring v c + asking v' c"
    and revs: "revoking v' c = revoking v c"
  shows "lock_inv v'"
proof -
  have s: "v_holder v' = v_holder v" "v_queue v' = v_queue v" "v_revoking v' = v_revoking v"
    using srv by (simp_all add: v_holder_def v_queue_def v_revoking_def)
  have "client_inv v' x" for x
  proof (cases "x = c")
    case True
    from inv have "client_inv v c" by (simp add: lock_inv_def)
    with True c toks asks revs s show ?thesis by (simp add: client_inv_def)
  next
    case False
    from inv have "client_inv v x" by (simp add: lock_inv_def)
    with others [OF False] s show ?thesis by (simp add: lview_defs cong: option.case_cong)
  qed
  with inv s show ?thesis by (simp add: lock_inv_def)
qed

lemma view_sel:
  "v_srv (view l s) = map_of (sc_list (sy_srv s)) l"
  "v_clt (view l s) c = map_of (cc_list (sy_clt s c)) l"
  "v_pc (view l s) c = (\<lambda>t. sy_pc s c t l)"
  "v_gra (view l s) c = count_list (sy_net s) (Retry c l)"
  "v_rel (view l s) c = count_list (sy_net s) (Release c l)"
  "v_rev (view l s) c = count_list (sy_net s) (Revoke c l) + request_count (sc_revoke_queue (sy_srv s)) c l"
  by (simp_all add: view_def)

lemma sys_sel [simp]:
  "sy_srv (at_pc c t l p s) = sy_srv s" "sy_clt (at_pc c t l p s) = sy_clt s" "sy_net (at_pc c t l p s) = sy_net s"
  "sy_pc (at_pc c t l p s) = (sy_pc s)(c := (sy_pc s c)(t := (sy_pc s c t)(l := p)))"
  "sy_srv (with_clt c k s) = sy_srv s" "sy_pc (with_clt c k s) = sy_pc s" "sy_net (with_clt c k s) = sy_net s"
  "sy_clt (with_clt c k s) = (sy_clt s)(c := k)"
  "sy_srv (send ms s) = sy_srv s" "sy_clt (send ms s) = sy_clt s" "sy_pc (send ms s) = sy_pc s"
  "sy_net (send ms s) = sy_net s @ ms"
  "sy_srv (recv m s) = sy_srv s" "sy_clt (recv m s) = sy_clt s" "sy_pc (recv m s) = sy_pc s"
  "sy_net (recv m s) = remove1 m (sy_net s)"
  by (simp_all add: at_pc_def with_clt_def send_def recv_def)

lemma cc_put_sel [simp]: "map_of (cc_list (cc_put l k s)) = (map_of (cc_list s))(l \<mapsto> k)"
  by (simp add: cc_put_def)

lemma sc_put_sel [simp]:
  "map_of (sc_list (sc_put l k s)) = (map_of (sc_list s))(l \<mapsto> k)" "sc_revoke_queue (sc_put l k s) = sc_revoke_queue s"
  by (simp_all add: sc_put_def)

lemma count_list_remove1: "x \<in> set xs \<Longrightarrow> count_list (remove1 x xs) y + of_bool (x = y) = count_list xs y"
  by (induction xs) auto

lemma count_list_remove1': "count_list (remove1 x xs) y = count_list xs y - of_bool (x = y)"
  by (induction xs) (auto simp: count_list_0_iff)

lemma cc_lock_Inr [simp]: "cc_lock l s = Inr k \<longleftrightarrow> map_of (cc_list s) l = Some k"
  by (simp add: cc_lock_def split: option.splits)

section \<open>Steps of a client\<close>

lemma client_msg_step:
  fixes s s' c t l
  defines "f \<equiv> \<lambda>u. sy_pc s c u l" and "n \<equiv> count_list (sy_net s)" and "n' \<equiv> count_list (sy_net s')"
  assumes inv: "\<And>l. lock_inv (view l s)"
    and k: "map_of (cc_list (sy_clt s c)) l = Some k"
    and s': "sy_srv s' = sy_srv s" "sy_clt s' = (sy_clt s)(c := cc_put l k' (sy_clt s c))" "sy_pc s' = sy_pc (at_pc c t l p s)"
    and net: "\<And>m. m \<notin> {Retry c l, Release c l, Revoke c l} \<Longrightarrow> n' m = n m"
    and thr: "thread_inv k' (f(t := p))"
    and toks: "of_bool (cl_owned k') + of_bool (Acq_Reply lk_OK = p) + n' (Retry c l) + n' (Release c l) =
      of_bool (cl_owned k) + of_bool (Acq_Reply lk_OK = f t) + n (Retry c l) + n (Release c l)"
    and asks: "of_bool (cl_acquiring k') + of_bool (Acq_Call = f t) + of_bool (Acq_Reply lk_OK = f t) + n (Retry c l) =
      of_bool (cl_acquiring k) + of_bool (Acq_Call = p) + of_bool (Acq_Reply lk_OK = p) + n' (Retry c l)"
    and revs: "n' (Revoke c l) + of_bool (cl_revoked k') + n' (Release c l) = n (Revoke c l) + of_bool (cl_revoked k) + n (Release c l)"
  shows "lock_inv (view l' s')"
proof (cases "l' = l")
  case True
  have pcs: "v_pc (view l s') c = f(t := p)" "v_pc (view l s) c = f" by (auto simp: view_sel f_def s')
  have np: "npc P (f(t := p)) + of_bool (P (f t)) = npc P f + of_bool (P p)" for P by (rule npc_upd)
  note sel = tokens_def asking_def revoking_def v_flag_def v_queue_def pcs view_sel(1,2,4-6) s' k n_def [symmetric] n'_def [symmetric]
  from inv [of l] k have nf: "c \<noteq> SRV_FREE" by (auto simp: lock_inv_def client_inv_def view_sel split: option.splits)
  have "lock_inv (view l s')"
  proof (rule lock_inv_frame [OF inv [of l], of _ c k'])
    show "tokens (view l s') c = tokens (view l s) c"
      using toks np [of "(=) (Acq_Reply lk_OK)"] by (simp add: sel)
    show "v_flag cl_acquiring (view l s') c + asking (view l s) c = v_flag cl_acquiring (view l s) c + asking (view l s') c"
      using asks np [of "(=) (Acq_Reply lk_OK)"] np [of "(=) Acq_Call"] by (simp add: sel)
    show "revoking (view l s') c = revoking (view l s) c" using revs by (simp add: sel)
    show "thread_inv k' (v_pc (view l s') c)" using thr by (simp add: pcs)
    show "v_clt (view l s') x = v_clt (view l s) x \<and> v_pc (view l s') x = v_pc (view l s) x \<and> v_gra (view l s') x = v_gra (view l s) x \<and>
      v_rel (view l s') x = v_rel (view l s) x \<and> v_rev (view l s') x = v_rev (view l s) x" if "x \<noteq> c" for x
      using that net by (simp add: view_sel s' n_def n'_def)
  qed (simp_all add: view_sel nf s')
  with True show ?thesis by simp
next
  case False
  then have "view l' s' = view l' s" using net by (auto simp: view_def fun_eq_iff s' n_def n'_def)
  then show ?thesis using inv by simp
qed

lemma client_step:
  fixes s c t l
  defines "f \<equiv> \<lambda>u. sy_pc s c u l"
  assumes inv: "\<And>l. lock_inv (view l s)"
    and k: "map_of (cc_list (sy_clt s c)) l = Some k"
    and thr: "thread_inv k' (f(t := p))"
    and "of_bool (cl_owned k') + of_bool (Acq_Reply lk_OK = p) = (of_bool (cl_owned k) + of_bool (Acq_Reply lk_OK = f t) :: nat)"
    and "of_bool (cl_acquiring k') + of_bool (Acq_Call = f t) + of_bool (Acq_Reply lk_OK = f t) =
      (of_bool (cl_acquiring k) + of_bool (Acq_Call = p) + of_bool (Acq_Reply lk_OK = p) :: nat)"
    and "cl_revoked k' = cl_revoked k"
  shows "lock_inv (view l' (at_pc c t l p (with_clt c (cc_put l k' (sy_clt s c)) s)))"
  by (rule client_msg_step [OF inv k _ _ _ _ thr [unfolded f_def]]) (use assms(5-7) in \<open>simp_all add: f_def\<close>)

text \<open>The invariant of a client's threads under a change of one of them.\<close>

lemma thread_inv_move:
  assumes "thread_inv k f" and "t \<noteq> CLT_FREE" and "f t \<noteq> Holding" and "p \<noteq> Holding"
    and "cl_holder k' = cl_holder k" and "cl_owned k \<longrightarrow> cl_owned k'"
    and "cl_acquiring k \<longrightarrow> cl_acquiring k' \<or> cl_owned k'" and "\<not> (cl_acquiring k' \<and> cl_owned k')"
    and "\<And>r. p = Acq_Reply r \<Longrightarrow> cl_acquiring k' \<or> cl_owned k'" and "p = Acq_Holder \<Longrightarrow> cl_owned k'"
    and "cl_awaiting_lock k' + of_bool (awaits (f t)) = cl_awaiting_lock k + of_bool (awaits p)"
  shows "thread_inv k' (f(t := p))"
proof -
  have "int (npc awaits (f(t := p))) + of_bool (awaits (f t)) = int (npc awaits f) + of_bool (awaits p)"
    using npc_upd [of awaits f t p] by (metis of_nat_add of_nat_of_bool)
  then have "cl_awaiting_lock k' = int (npc awaits (f(t := p)))"
    using assms(1,11) by (simp add: thread_inv_def)
  with assms show ?thesis by (simp add: thread_inv_def) metis
qed

lemma thread_inv_take:
  assumes "thread_inv k f" and "t \<noteq> CLT_FREE" and "awaits (f t)" and "cl_holder k = CLT_FREE" and "cl_owned k"
  shows "thread_inv (k\<lparr>cl_holder := t, cl_awaiting_lock := cl_awaiting_lock k - 1\<rparr>) (f(t := Holding))"
  using assms npc_upd [of awaits f t Holding] by (auto simp: thread_inv_def)

lemma no_awaiting:
  assumes "thread_inv k f" and "cl_awaiting_lock k = 0"
  shows "f u \<noteq> Acq_Reply r" and "f u \<noteq> Acq_Holder"
proof -
  have "\<not> awaits (f u)" using assms by (simp add: thread_inv_def npc_0_iff)
  then show "f u \<noteq> Acq_Reply r" "f u \<noteq> Acq_Holder" by auto
qed

lemma inv_lookup:
  assumes "\<And>l. lock_inv (view l s)" and "map_of (cc_list (sy_clt s c)) l = Some k"
  shows "c \<noteq> SRV_FREE" and "thread_inv k (\<lambda>u. sy_pc s c u l)" and "sy_pc s c t l \<noteq> Idle \<Longrightarrow> t \<noteq> CLT_FREE"
    and "\<not> (cl_acquiring k \<and> cl_owned k)"
proof -
  have "client_inv (view l s) c" using assms(1) [of l] by (simp add: lock_inv_def)
  with assms(2) show "c \<noteq> SRV_FREE" "thread_inv k (\<lambda>u. sy_pc s c u l)" by (simp_all add: client_inv_def view_sel)
  then show "sy_pc s c t l \<noteq> Idle \<Longrightarrow> t \<noteq> CLT_FREE" "\<not> (cl_acquiring k \<and> cl_owned k)" by (auto simp: thread_inv_def)
qed

lemma l_enter_inv:
  assumes "\<And>l. lock_inv (view l s)" and "sy_pc s c t l = Acq_Enter" and "acquire_enter l (sy_clt s c) = Inr (b, k')"
  shows "lock_inv (view l' (at_pc c t l (if b then Acq_Fetch else Acq_Wait) (with_clt c k' s)))"
proof -
  from assms(3) obtain k where k: "map_of (cc_list (sy_clt s c)) l = Some k"
    "k' = cc_put l (k\<lparr>cl_awaiting_lock := cl_awaiting_lock k + 1\<rparr>) (sy_clt s c)"
    by (auto simp: acquire_enter_def res_bind_eq_Inr_iff)
  note i = inv_lookup [OF assms(1) k(1)]
  show ?thesis unfolding k(2)
    by (rule client_step [OF assms(1) k(1)], rule thread_inv_move [OF i(2) i(3)]) (use assms(2) i(4) in \<open>auto split: if_splits\<close>)
qed

lemma l_fetch_inv:
  assumes "\<And>l. lock_inv (view l s)" and "sy_pc s c t l = Acq_Fetch" and "acquire_lock_begin l (sy_clt s c) = Inr (b, k')"
  shows "lock_inv (view l' (at_pc c t l (if b then Acq_Call else Acq_Wait) (with_clt c k' s)))"
proof -
  from assms(3) obtain k where k: "map_of (cc_list (sy_clt s c)) l = Some k"
    "b \<longleftrightarrow> \<not> cl_acquiring k \<and> \<not> cl_owned k" "k' = (if b then cc_put l (k\<lparr>cl_acquiring := True\<rparr>) (sy_clt s c) else sy_clt s c)"
    by (auto simp: acquire_lock_begin_def res_bind_eq_Inr_iff split: if_splits)
  note i = inv_lookup [OF assms(1) k(1)]
  show ?thesis
  proof (cases b)
    case True
    then show ?thesis unfolding k(3) using k(2)
      by (simp, intro client_step [OF assms(1) k(1)] thread_inv_move [OF i(2) i(3)]) (use assms(2) i(4) in auto)
  next
    case False
    have "view l' (at_pc c t l Acq_Wait (with_clt c (sy_clt s c) s)) = view l' (at_pc c t l Acq_Wait (with_clt c (cc_put l k (sy_clt s c)) s))"
      using k(1) by (auto simp: view_def fun_eq_iff)
    then show ?thesis unfolding k(3) using False
      by (simp, intro client_step [OF assms(1) k(1)] thread_inv_move [OF i(2) i(3)]) (use assms(2) i(4) in auto)
  qed
qed

lemma l_reply_inv:
  assumes "\<And>l. lock_inv (view l s)" and "sy_pc s c t l = Acq_Reply ret" and "acquire_lock_end l ret (sy_clt s c) = Inr k'"
  shows "lock_inv (view l' (at_pc c t l Acq_Wait (with_clt c k' s)))"
proof -
  from assms(3) obtain k where k: "map_of (cc_list (sy_clt s c)) l = Some k"
    by (auto simp: acquire_lock_end_def res_bind_eq_Inr_iff)
  note i = inv_lookup [OF assms(1) k(1)]
  have aw: "cl_acquiring k \<or> cl_owned k" using i(2) assms(2) by (auto simp: thread_inv_def)
  have ok: "\<not> cl_owned k \<and> cl_acquiring k" if "ret = lk_OK"
  proof -
    have "npc ((=) (Acq_Reply lk_OK)) (\<lambda>u. sy_pc s c u l) \<noteq> 0" using that assms(2) by (simp add: npc_0_iff) metis
    then show ?thesis using k aw inv_le_1(1) [OF assms(1) [of l], of c] by (cases "cl_owned k") (simp_all add: tokens_def v_flag_def view_sel)
  qed
  have keep: "view l' (at_pc c t l Acq_Wait (with_clt c (sy_clt s c) s)) = view l' (at_pc c t l Acq_Wait (with_clt c (cc_put l k (sy_clt s c)) s))"
    using k(1) by (auto simp: view_def fun_eq_iff)
  have r: "ret \<noteq> lk_OK \<longrightarrow> (k\<lparr>cl_acquiring := True, cl_owned := False\<rparr> = k) \<or> cl_owned k"
    using aw by (cases k) auto
  consider "cl_owned k" "k' = sy_clt s c" "ret \<noteq> lk_OK" | "ret = lk_OK" "k' = cc_put l (k\<lparr>cl_acquiring := False, cl_owned := True\<rparr>) (sy_clt s c)"
    | "ret \<noteq> lk_OK" "k' = cc_put l k (sy_clt s c)"
    using assms(3) k r ok by (cases "cl_owned k"; cases "ret = lk_OK") (auto simp: acquire_lock_end_def cc_lock_def)
  then show ?thesis
  proof cases
    case 1
    then show ?thesis
      by (simp only: keep 1(2), intro client_step [OF assms(1) k(1)] thread_inv_move [OF i(2) i(3)]) (use assms(2) i(4) in auto)
  next
    case 2
    then show ?thesis using ok
      by (simp only: 2(2), intro client_step [OF assms(1) k(1)] thread_inv_move [OF i(2) i(3)]) (use assms(2) i(4) in auto)
  next
    case 3
    then show ?thesis
      by (simp only: 3(2), intro client_step [OF assms(1) k(1)] thread_inv_move [OF i(2) i(3)]) (use assms(2) i(4) in auto)
  qed
qed

lemma l_wait_holder_inv:
  assumes "\<And>l. lock_inv (view l s)" and "sy_pc s c t l = Acq_Wait" and "acquire_wait_owned t l (sy_clt s c) = Inr Wait_Holder"
  shows "lock_inv (view l' (at_pc c t l Acq_Holder s))"
proof -
  from assms(3) obtain k where k: "map_of (cc_list (sy_clt s c)) l = Some k" "cl_owned k"
    by (auto simp: acquire_wait_owned_def res_bind_eq_Inr_iff split: if_splits)
  note i = inv_lookup [OF assms(1) k(1)]
  have keep: "view l' (at_pc c t l Acq_Holder s) = view l' (at_pc c t l Acq_Holder (with_clt c (cc_put l k (sy_clt s c)) s))"
    using k(1) by (auto simp: view_def fun_eq_iff)
  show ?thesis unfolding keep using k(2)
    by (intro client_step [OF assms(1) k(1)] thread_inv_move [OF i(2) i(3)]) (use assms(2) i(4) in auto)
qed

lemma l_take_inv:
  assumes "\<And>l. lock_inv (view l s)" and "sy_pc s c t l = Acq_Wait \<or> sy_pc s c t l = Acq_Holder"
    and "map_of (cc_list (sy_clt s c)) l = Some k" and "cl_owned k" and "acquire_take t l k (sy_clt s c) = Got k'"
  shows "lock_inv (view l' (at_pc c t l Holding (with_clt c k' s)))"
proof -
  have k: "cl_holder k = CLT_FREE" "k' = cc_put l (k\<lparr>cl_holder := t, cl_awaiting_lock := cl_awaiting_lock k - 1\<rparr>) (sy_clt s c)"
    using assms(5) by (simp_all add: acquire_take_def split: if_splits)
  note i = inv_lookup [OF assms(1,3)]
  show ?thesis unfolding k(2) using assms(4)
    by (intro client_step [OF assms(1,3)] thread_inv_take [OF i(2) i(3)]) (use assms(2) k(1) in auto)
qed

lemma l_got_inv:
  assumes "\<And>l. lock_inv (view l s)" and "sy_pc s c t l = Acq_Wait" and "acquire_wait_owned t l (sy_clt s c) = Inr (Got k')"
  shows "lock_inv (view l' (at_pc c t l Holding (with_clt c k' s)))"
  using assms(3) by (auto simp: acquire_wait_owned_def res_bind_eq_Inr_iff assms(2) split: if_splits intro!: l_take_inv [OF assms(1)])

lemma l_got_later_inv:
  assumes "\<And>l. lock_inv (view l s)" and "sy_pc s c t l = Acq_Holder" and "acquire_wait_holder t l (sy_clt s c) = Inr (Got k')"
  shows "lock_inv (view l' (at_pc c t l Holding (with_clt c k' s)))"
proof -
  from assms(3) obtain k where k: "map_of (cc_list (sy_clt s c)) l = Some k" "acquire_take t l k (sy_clt s c) = Got k'"
    by (auto simp: acquire_wait_holder_def res_bind_eq_Inr_iff)
  have "cl_owned k" using inv_lookup(2) [OF assms(1) k(1)] assms(2) by (auto simp: thread_inv_def)
  with k show ?thesis using assms(1,2) by (blast intro: l_take_inv)
qed

section \<open>Steps with messages\<close>

lemma l_release_inv:
  assumes inv: "\<And>l. lock_inv (view l s)" and pc: "sy_pc s c t l = Holding" and rel: "lcc_release l (sy_clt s c) = Inr (b, k')"
  shows "lock_inv (view l' (send (if b then [Release c l] else []) (at_pc c t l Idle (with_clt c k' s))))"
proof -
  from rel obtain k where lk: "map_of (cc_list (sy_clt s c)) l = Some k"
    by (auto simp: lcc_release_def res_bind_eq_Inr_iff)
  define k2 where k2: "k2 = (if b then k\<lparr>cl_owned := False, cl_revoked := False, cl_acquiring := False, cl_holder := CLT_FREE\<rparr>
    else k\<lparr>cl_holder := CLT_FREE\<rparr>)"
  have k: "map_of (cc_list (sy_clt s c)) l = Some k" "b \<longleftrightarrow> cl_awaiting_lock k = 0 \<and> cl_revoked k" "k' = cc_put l k2 (sy_clt s c)"
    using rel by (simp_all add: lcc_release_def cc_lock_def lk Let_def k2 split: if_splits)
  note i = inv_lookup [OF inv k(1)]
  let ?f = "\<lambda>u. sy_pc s c u l"
  have own: "cl_owned k" "cl_holder k = t" "t \<noteq> CLT_FREE" using i(2) pc by (auto simp: thread_inv_def)
  have "npc awaits (?f(t := Idle)) = npc awaits ?f" using npc_upd [of awaits ?f t Idle] pc by simp
  moreover have "b \<longrightarrow> ?f u \<noteq> Acq_Reply r \<and> ?f u \<noteq> Acq_Holder" for u r using no_awaiting [OF i(2)] k(2) by blast
  ultimately have "thread_inv k2 (?f(t := Idle))" using i(2,4) own by (auto simp: thread_inv_def k2)
  then show ?thesis
    by (intro client_msg_step [where k' = k2 and t = t and p = Idle, OF inv k(1)]) (use k k2 own i(4) pc in auto)
qed

lemma count_pos: "m \<in> set xs \<Longrightarrow> 0 < count_list xs m"
  by (induction xs) auto

lemma slice_triv: "(\<lambda>u. sy_pc s c u l)(t := sy_pc s c t l) = (\<lambda>u. sy_pc s c u l)"
  by auto

lemma l_retry_inv:
  assumes inv: "\<And>l. lock_inv (view l s)" and m: "Retry c l \<in> set (sy_net s)" and h: "retry_handler l (sy_clt s c) = Inr (ret, k')"
  shows "lock_inv (view l' (recv (Retry c l) (with_clt c k' s)))"
proof -
  from h obtain k where k: "map_of (cc_list (sy_clt s c)) l = Some k" "k' = cc_put l (k\<lparr>cl_acquiring := False, cl_owned := True\<rparr>) (sy_clt s c)"
    by (auto simp: retry_handler_def res_bind_eq_Inr_iff)
  note i = inv_lookup [OF inv k(1)]
  have c: "client_inv (view l s) c" using inv [of l] by (simp add: lock_inv_def)
  have pos: "0 < count_list (sy_net s) (Retry c l)" using m by (rule count_pos)
  have own: "\<not> cl_owned k" using inv_le_1(1) [OF inv [of l], of c] pos k(1)
    by (cases "cl_owned k") (simp_all add: tokens_def v_flag_def view_sel)
  have acq: "cl_acquiring k" using c pos k(1)
    by (cases "cl_acquiring k") (simp_all add: client_inv_def asking_def v_flag_def view_sel)
  have "thread_inv (k\<lparr>cl_acquiring := False, cl_owned := True\<rparr>) (\<lambda>u. sy_pc s c u l)" using i(2) by (simp add: thread_inv_def)
  then have "thread_inv (k\<lparr>cl_acquiring := False, cl_owned := True\<rparr>) ((\<lambda>u. sy_pc s c u l)(CLT_FREE := sy_pc s c CLT_FREE l))"
    by (simp only: slice_triv)
  then show ?thesis
    by (intro client_msg_step [where k' = "k\<lparr>cl_acquiring := False, cl_owned := True\<rparr>" and t = CLT_FREE and p = "sy_pc s c CLT_FREE l", OF inv k(1)])
      (use k own acq m pos in \<open>auto simp: count_list_remove1'\<close>)
qed

lemma l_revoked_inv:
  assumes inv: "\<And>l. lock_inv (view l s)" and m: "Revoke c l \<in> set (sy_net s)" and h: "revoke_handler l (sy_clt s c) = (b, k')"
  shows "lock_inv (view l' (send (if b then [Release c l] else []) (recv (Revoke c l) (with_clt c k' s))))"
proof -
  have c: "client_inv (view l s) c" using inv [of l] by (simp add: lock_inv_def)
  have pos: "0 < count_list (sy_net s) (Revoke c l)" using m by (rule count_pos)
  with c obtain k where lk: "map_of (cc_list (sy_clt s c)) l = Some k"
    by (cases "map_of (cc_list (sy_clt s c)) l") (auto simp: client_inv_def view_sel)
  define k2 where k2: "k2 = (if b then k\<lparr>cl_owned := False, cl_revoked := False\<rparr> else k\<lparr>cl_revoked := True\<rparr>)"
  have k: "k' = cc_put l k2 (sy_clt s c)" "b \<longleftrightarrow> cl_holder k = CLT_FREE \<and> cl_awaiting_lock k = 0 \<and> \<not> cl_acquiring k"
    using h by (simp_all add: revoke_handler_def lk k2 split: if_splits)
  note i = inv_lookup [OF inv lk]
  have rev: "\<not> cl_revoked k" "count_list (sy_net s) (Release c l) = 0"
    using inv_le_1(3) [OF inv [of l], of c] pos lk
    by (cases "cl_revoked k"; simp add: revoking_def v_flag_def view_sel)+
  have own: "cl_owned k" if b
  proof -
    have "asking (view l s) c = 0" using c lk that k(2) by (simp add: client_inv_def v_flag_def view_sel)
    moreover have "tokens (view l s) c = 1" using c pos
      by (cases "v_holder (view l s) = Some c") (simp_all add: client_inv_def revoking_def view_sel)
    ultimately show ?thesis using rev(2) lk
      by (cases "cl_owned k") (simp_all add: tokens_def asking_def v_flag_def view_sel)
  qed
  have "thread_inv k2 (\<lambda>u. sy_pc s c u l)"
  proof (cases b)
    case True
    then show ?thesis using i(2) k(2) no_awaiting [OF i(2)] by (simp add: thread_inv_def k2)
  next
    case False
    then show ?thesis using i(2) by (simp add: thread_inv_def k2)
  qed
  then have "thread_inv k2 ((\<lambda>u. sy_pc s c u l)(CLT_FREE := sy_pc s c CLT_FREE l))" by (simp only: slice_triv)
  then show ?thesis
    by (intro client_msg_step [where k' = k2 and t = CLT_FREE and p = "sy_pc s c CLT_FREE l", OF inv lk])
      (use k k2 own rev m pos in \<open>auto simp: count_list_remove1'\<close>)
qed

lemma l_start_inv:
  assumes inv: "\<And>l. lock_inv (view l s)" and pc: "sy_pc s c t l = Idle" and c: "c \<noteq> SRV_FREE" and t: "t \<noteq> CLT_FREE"
  shows "lock_inv (view l' (at_pc c t l Acq_Enter (with_clt c (acquire_create l (sy_clt s c)) s)))" (is "lock_inv (view l' ?s)")
proof (cases "map_of (cc_list (sy_clt s c)) l")
  case None
  show ?thesis
  proof (cases "l' = l")
    case True
    have ci: "client_inv (view l s) c" using inv [of l] by (simp add: lock_inv_def)
    then have idle: "\<And>u. sy_pc s c u l = Idle" using None by (simp add: client_inv_def view_sel)
    have pcs: "v_pc (view l ?s) c = (\<lambda>u. Idle)(t := Acq_Enter)" "v_pc (view l s) c = (\<lambda>u. Idle)" using idle by (auto simp: view_sel)
    have np: "npc P ((\<lambda>u. Idle)(t := Acq_Enter)) = 0" "npc P (\<lambda>u. Idle) = 0" if "\<not> P Idle" "\<not> P Acq_Enter" for P
      using that by (simp_all add: npc_0_iff)
    have cr: "map_of (cc_list (acquire_create l (sy_clt s c))) l = Some new_lock_info"
      using None by (simp add: acquire_create_def new_lock_info_def CLT_FREE_def)
    have "lock_inv (view l ?s)"
    proof (rule lock_inv_frame [OF inv [of l], where c = c and k = new_lock_info])
      show "v_clt (view l ?s) x = v_clt (view l s) x \<and> v_pc (view l ?s) x = v_pc (view l s) x \<and> v_gra (view l ?s) x = v_gra (view l s) x \<and>
        v_rel (view l ?s) x = v_rel (view l s) x \<and> v_rev (view l ?s) x = v_rev (view l s) x" if "x \<noteq> c" for x
        using that by (simp add: view_sel)
    qed (use c t None in \<open>simp_all add: view_sel(1,2,4-6) tokens_def asking_def revoking_def v_flag_def v_queue_def pcs np
           cr new_lock_info_def CLT_FREE_def thread_inv_def\<close>)
    with True show ?thesis by simp
  next
    case False
    then have "view l' ?s = view l' s" by (auto simp: view_def fun_eq_iff acquire_create_def None)
    then show ?thesis using inv by simp
  qed
next
  case (Some k)
  note i = inv_lookup [OF inv Some]
  have keep: "view l' ?s = view l' (at_pc c t l Acq_Enter (with_clt c (cc_put l k (sy_clt s c)) s))"
    using Some by (auto simp: view_def fun_eq_iff acquire_create_def)
  show ?thesis unfolding keep
    by (intro client_step [OF inv Some] thread_inv_move [OF i(2) t]) (use pc i(4) in auto)
qed

section \<open>Steps of the server\<close>

lemma lock_inv_call:
  assumes inv: "lock_inv v" and k: "v_clt v c = Some k" and thr: "thread_inv k (v_pc v' c)"
    and same: "\<And>x. v_clt v' x = v_clt v x" "\<And>x. v_gra v' x = v_gra v x" "\<And>x. v_rel v' x = v_rel v x" "\<And>x. v_rev v' x = v_rev v x"
    and others: "\<And>x. x \<noteq> c \<Longrightarrow> v_pc v' x = v_pc v x"
    and call: "Suc (npc ((=) Acq_Call) (v_pc v' c)) = npc ((=) Acq_Call) (v_pc v c)"
    and h: "v_holder v = None \<and> v_holder v' = Some c \<and> v_queue v' = [] \<and> \<not> v_revoking v' \<and>
        npc ((=) (Acq_Reply lk_OK)) (v_pc v' c) = Suc (npc ((=) (Acq_Reply lk_OK)) (v_pc v c)) \<or>
      v_holder v \<noteq> None \<and> v_holder v' = v_holder v \<and> v_queue v' = v_queue v @ [c] \<and> v_revoking v' = v_revoking v \<and>
        npc ((=) (Acq_Reply lk_OK)) (v_pc v' c) = npc ((=) (Acq_Reply lk_OK)) (v_pc v c)"
  shows "lock_inv v'"
proof -
  have ci: "client_inv v x" for x using inv by (simp add: lock_inv_def)
  have free: "v_queue v = [] \<and> \<not> v_revoking v" if "v_holder v = None" using inv that by (simp add: lock_inv_def)
  have "client_inv v' x" for x
    using h
  proof
    assume "v_holder v = None \<and> v_holder v' = Some c \<and> v_queue v' = [] \<and> \<not> v_revoking v' \<and>
        npc ((=) (Acq_Reply lk_OK)) (v_pc v' c) = Suc (npc ((=) (Acq_Reply lk_OK)) (v_pc v c))"
    then show ?thesis using ci [of x] free call thr k
      by (cases "x = c") (auto simp: lview_defs same others cong: option.case_cong)
  next
    assume "v_holder v \<noteq> None \<and> v_holder v' = v_holder v \<and> v_queue v' = v_queue v @ [c] \<and> v_revoking v' = v_revoking v \<and>
        npc ((=) (Acq_Reply lk_OK)) (v_pc v' c) = npc ((=) (Acq_Reply lk_OK)) (v_pc v c)"
    then show ?thesis using ci [of x] call thr k
      by (cases "x = c") (auto simp: lview_defs same others cong: option.case_cong)
  qed
  then show ?thesis using h by (auto simp: lock_inv_def)
qed

lemma l_call_inv:
  assumes inv: "\<And>l. lock_inv (view l s)" and pc: "sy_pc s c t l = Acq_Call" and h: "sc_acquire l c (sy_srv s) = (ret, srv)"
  shows "lock_inv (view l' (at_pc c t l (Acq_Reply ret) (s\<lparr>sy_srv := srv\<rparr>)))" (is "lock_inv (view l' ?s)")
proof (cases "l' = l")
  case True
  let ?f = "\<lambda>u. sy_pc s c u l"
  have ci: "client_inv (view l s) c" using inv [of l] by (simp add: lock_inv_def)
  have call: "0 < npc ((=) Acq_Call) ?f" using pc npc_0_iff [of "(=) Acq_Call" ?f] by (metis gr0I)
  obtain k where k: "map_of (cc_list (sy_clt s c)) l = Some k" using ci pc
    by (cases "map_of (cc_list (sy_clt s c)) l") (auto simp: client_inv_def view_sel)
  note i = inv_lookup [OF inv k]
  have acq: "cl_acquiring k" using ci call k
    by (cases "cl_acquiring k") (simp_all add: client_inv_def asking_def v_flag_def view_sel)
  have thr: "thread_inv k (?f(t := Acq_Reply ret))"
    by (rule thread_inv_move [OF i(2) i(3)]) (use pc acq i(4) in auto)
  have pcs: "v_pc (view l ?s) c = ?f(t := Acq_Reply ret)" "v_pc (view l s) c = ?f" by (auto simp: view_sel)
  have np: "npc P (?f(t := Acq_Reply ret)) + of_bool (P Acq_Call) = npc P ?f + of_bool (P (Acq_Reply ret))" for P
    using npc_upd [of P ?f t "Acq_Reply ret"] pc by simp
  have out: "v_holder (view l s) = None \<and> v_holder (view l ?s) = Some c \<and> v_queue (view l ?s) = [] \<and> \<not> v_revoking (view l ?s) \<and> ret = lk_OK \<or>
    v_holder (view l s) \<noteq> None \<and> v_holder (view l ?s) = v_holder (view l s) \<and> v_queue (view l ?s) = v_queue (view l s) @ [c] \<and>
      v_revoking (view l ?s) = v_revoking (view l s) \<and> ret = lk_RETRY"
    using h inv [of l] i(1) by (auto simp: sc_acquire_def v_holder_def v_queue_def v_revoking_def view_sel lock_inv_def split: option.splits if_splits)
  have rq: "sc_revoke_queue srv = sc_revoke_queue (sy_srv s)" using h by (auto simp: sc_acquire_def split: option.splits if_splits)
  have "lock_inv (view l ?s)"
  proof (rule lock_inv_call [where k = k and c = c, OF inv [of l]])
    show "thread_inv k (v_pc (view l ?s) c)" unfolding pcs by (rule thr)
    show "Suc (npc ((=) Acq_Call) (v_pc (view l ?s) c)) = npc ((=) Acq_Call) (v_pc (view l s) c)"
      unfolding pcs using np [of "(=) Acq_Call"] by simp
    show "v_holder (view l s) = None \<and> v_holder (view l ?s) = Some c \<and> v_queue (view l ?s) = [] \<and> \<not> v_revoking (view l ?s) \<and>
        npc ((=) (Acq_Reply lk_OK)) (v_pc (view l ?s) c) = Suc (npc ((=) (Acq_Reply lk_OK)) (v_pc (view l s) c)) \<or>
      v_holder (view l s) \<noteq> None \<and> v_holder (view l ?s) = v_holder (view l s) \<and> v_queue (view l ?s) = v_queue (view l s) @ [c] \<and>
        v_revoking (view l ?s) = v_revoking (view l s) \<and>
        npc ((=) (Acq_Reply lk_OK)) (v_pc (view l ?s) c) = npc ((=) (Acq_Reply lk_OK)) (v_pc (view l s) c)"
      unfolding pcs using out np [of "(=) (Acq_Reply lk_OK)"] by (elim disjE conjE) simp_all
  qed (simp_all add: view_sel k rq)
  with True show ?thesis by simp
next
  case False
  have "view l' ?s = view l' s"
    using False h by (auto simp: view_def fun_eq_iff sc_acquire_def split: option.splits if_splits)
  then show ?thesis using inv by simp
qed

lemma queued_known: "lock_inv v \<Longrightarrow> x \<in> set (v_queue v) \<Longrightarrow> x \<noteq> SRV_FREE \<and> v_clt v x \<noteq> None"
proof -
  assume "lock_inv v" "x \<in> set (v_queue v)"
  then have "client_inv v x" "0 < count_list (v_queue v) x" by (simp_all add: lock_inv_def count_pos)
  then show ?thesis by (cases "v_clt v x") (auto simp: client_inv_def asking_def v_flag_def)
qed

lemma lock_inv_return:
  assumes inv: "lock_inv v" and c: "0 < v_rel v c"
    and same: "v_clt v' = v_clt v" "v_pc v' = v_pc v" "v_rev v' = v_rev v" "v_rel v' = (v_rel v)(c := v_rel v c - 1)" "\<not> v_revoking v'"
    and h: "v_queue v = [] \<and> v_queue v' = [] \<and> v_holder v' = None \<and> v_gra v' = v_gra v \<or>
      (\<exists>x q. v_queue v = x # q \<and> v_queue v' = q \<and> v_holder v' = Some x \<and> v_gra v' = (v_gra v)(x := v_gra v x + 1))"
  shows "lock_inv v'"
proof -
  have ci: "client_inv v y" for y using inv by (simp add: lock_inv_def)
  have one: "tokens v c = 1" "v_holder v = Some c" "v_rel v c = 1"
    using ci [of c] c by (cases "v_holder v = Some c"; simp add: client_inv_def tokens_def)+
  have rev: "v_rev v y = 0" "v_flag cl_revoked v y = 0" "y \<noteq> c \<Longrightarrow> v_rel v y = 0" for y
    using ci [of y] ci [of c] one by (cases "y = c"; cases "v_revoking v"; simp add: client_inv_def revoking_def)+
  have "client_inv v' y" for y
    using h
  proof (elim disjE exE conjE)
    assume "v_queue v = []" "v_queue v' = []" "v_holder v' = None" "v_gra v' = v_gra v"
    then show ?thesis using ci [of y] one rev [of y] same(5)
      by (cases "y = c"; cases "v_clt v y") (auto simp: lview_defs same)
  next
    fix x q assume q: "v_queue v = x # q" "v_queue v' = q" "v_holder v' = Some x" "v_gra v' = (v_gra v)(x := v_gra v x + 1)"
    show ?thesis using ci [of y] one rev [of y] same(5) q
      by (cases "y = c"; cases "y = x"; cases "v_clt v y") (auto simp: lview_defs same)
  qed
  then show ?thesis using h same(5) by (auto simp: lock_inv_def)
qed

lemma l_returned_inv:
  assumes inv: "\<And>l. lock_inv (view l s)" and m: "Release c l \<in> set (sy_net s)" and h: "sc_release l c (sy_srv s) = Inr (ret, srv, nxt)"
  shows "lock_inv (view l' (send (case nxt of None \<Rightarrow> [] | Some x \<Rightarrow> [Retry x l]) (recv (Release c l) s\<lparr>sy_srv := srv\<rparr>)))" (is "lock_inv (view l' ?s)")
proof (cases "l' = l")
  case True
  from h obtain k where k: "map_of (sc_list (sy_srv s)) l = Some k" by (auto simp: sc_release_def split: option.splits)
  have rq: "sc_revoke_queue srv = sc_revoke_queue (sy_srv s)"
    using h by (auto simp: sc_release_def Let_def split: option.splits list.splits)
  have "lock_inv (view l ?s)"
  proof (rule lock_inv_return [OF inv [of l], of c])
    show "0 < v_rel (view l s) c" using m by (simp add: view_sel count_pos)
    show "\<not> v_revoking (view l ?s)"
      using h by (auto simp: v_revoking_def view_sel sc_release_def Let_def split: option.splits list.splits)
    show "v_queue (view l s) = [] \<and> v_queue (view l ?s) = [] \<and> v_holder (view l ?s) = None \<and> v_gra (view l ?s) = v_gra (view l s) \<or>
      (\<exists>x q. v_queue (view l s) = x # q \<and> v_queue (view l ?s) = q \<and> v_holder (view l ?s) = Some x \<and>
        v_gra (view l ?s) = (v_gra (view l s))(x := v_gra (view l s) x + 1))"
    proof (cases "ci_queue k")
      case Nil
      with h k show ?thesis by (auto simp: v_queue_def v_holder_def view_def sc_release_def fun_eq_iff count_list_remove1')
    next
      case (Cons x q)
      then have "x \<noteq> SRV_FREE" using queued_known [OF inv [of l], of x] k by (simp add: v_queue_def view_sel)
      with h k Cons show ?thesis by (auto simp: v_queue_def v_holder_def view_def sc_release_def fun_eq_iff count_list_remove1')
    qed
  qed (auto simp: view_def fun_eq_iff count_list_remove1' rq split: option.splits)
  with True show ?thesis by simp
next
  case False
  have "view l' ?s = view l' s"
    using False h by (auto simp: view_def fun_eq_iff sc_release_def Let_def count_list_remove1' split: option.splits list.splits)
  then show ?thesis using inv by simp
qed

lemma lock_inv_enforce:
  assumes inv: "lock_inv v" and k: "v_srv v = Some k" "must_revoke k"
    and v': "v_srv v' = Some (k\<lparr>ci_revoked := True\<rparr>)" "v_clt v' = v_clt v" "v_pc v' = v_pc v" "v_gra v' = v_gra v" "v_rel v' = v_rel v"
      "v_rev v' = (v_rev v)(ci_holder k := v_rev v (ci_holder k) + 1)"
  shows "lock_inv v'"
proof -
  have ci: "client_inv v y" for y using inv by (simp add: lock_inv_def)
  have hold: "v_holder v = Some (ci_holder k)" "\<not> v_revoking v"
    using inv k by (auto simp: lock_inv_def v_holder_def v_queue_def v_revoking_def must_revoke_def)
  have v'2: "v_holder v' = v_holder v" "v_queue v' = v_queue v" "v_revoking v'"
    using v' k by (auto simp: v_holder_def v_queue_def v_revoking_def)
  have "v_clt v (ci_holder k) \<noteq> None"
    using ci [of "ci_holder k"] hold by (cases "v_clt v (ci_holder k)") (auto simp: lview_defs)
  then have "client_inv v' y" for y
    using ci [of y] hold by (cases "y = ci_holder k") (auto simp: lview_defs v' v'2 cong: option.case_cong)
  then show ?thesis using hold v'2 by (simp add: lock_inv_def)
qed

lemma l_enforcer_inv:
  assumes inv: "\<And>l. lock_inv (view l s)" and ok: "smap_ok (sc_list (sy_srv s))"
  shows "lock_inv (view l (s\<lparr>sy_srv := sc_enforcer (sy_srv s)\<rparr>))" (is "lock_inv (view l ?s)")
proof -
  note enf = enforce_lookup enforce_requests [OF smap_ok_distinct [OF ok]]
  show ?thesis
  proof (cases "\<exists>k. map_of (sc_list (sy_srv s)) l = Some k \<and> must_revoke k")
    case True
    then obtain k where k: "map_of (sc_list (sy_srv s)) l = Some k" "must_revoke k" by blast
    show ?thesis
      by (rule lock_inv_enforce [OF inv [of l], of k])
        (use k in \<open>auto simp: view_def sc_enforcer_def Let_def split_beta enf fun_eq_iff\<close>)
  next
    case False
    then have "view l ?s = view l s"
      by (auto simp: view_def sc_enforcer_def Let_def split_beta enf fun_eq_iff map_option_case split: option.splits)
    then show ?thesis using inv by simp
  qed
qed

lemma l_revoker_view:
  assumes "sc_revoker (sy_srv s) = Some (r, srv)"
  shows "view l (send [Revoke (rr_holder r) (rr_lid r)] (s\<lparr>sy_srv := srv\<rparr>)) = view l s"
  using assms by (auto simp: view_def sc_revoker_def fun_eq_iff split: list.splits)

section \<open>Every reachable state\<close>

definition sys_inv :: "lock_sys \<Rightarrow> bool" where
  "sys_inv s \<longleftrightarrow> smap_ok (sc_list (sy_srv s)) \<and> (\<forall>l. lock_inv (view l s))"

lemma sc_ok:
  assumes "smap_ok (sc_list s)"
  shows "smap_ok (sc_list (sc_put l k s))" and "smap_ok (sc_list (snd (sc_acquire l c s)))" and "smap_ok (sc_list (sc_enforcer s))"
    and "sc_release l c s = Inr (r, s', x) \<Longrightarrow> smap_ok (sc_list s')" and "sc_revoker s = Some (q, s') \<Longrightarrow> smap_ok (sc_list s')"
proof -
  show put: "smap_ok (sc_list (sc_put l k s))" for l k using assms by (simp add: sc_put_def)
  show "smap_ok (sc_list (snd (sc_acquire l c s)))" by (simp add: sc_acquire_def put split: option.splits)
  show "smap_ok (sc_list (sc_enforcer s))"
    using assms by (simp add: sc_enforcer_def Let_def split_beta smap_ok_def enforce_keys)
  show "sc_release l c s = Inr (r, s', x) \<Longrightarrow> smap_ok (sc_list s')"
    by (auto simp: sc_release_def Let_def put split: option.splits list.splits)
  show "sc_revoker s = Some (q, s') \<Longrightarrow> smap_ok (sc_list s')"
    using assms by (auto simp: sc_revoker_def split: list.splits)
qed

lemma lock_step_inv: "lock_step s s' \<Longrightarrow> \<forall>l. lock_inv (view l s) \<Longrightarrow> smap_ok (sc_list (sy_srv s)) \<Longrightarrow> lock_inv (view l' s')"
proof (induction rule: lock_step.induct)
  case (l_start s c t l port)
  then have "c \<noteq> SRV_FREE" by (simp add: client_id_not_free)
  with l_start show ?case by (simp add: l_start_inv)
qed (blast intro: l_enter_inv l_fetch_inv l_call_inv l_reply_inv l_wait_holder_inv l_got_inv l_got_later_inv l_release_inv
    l_returned_inv l_retry_inv l_enforcer_inv l_revoked_inv | simp add: l_revoker_view)+

lemma lock_step_ok: "lock_step s s' \<Longrightarrow> smap_ok (sc_list (sy_srv s)) \<Longrightarrow> smap_ok (sc_list (sy_srv s'))"
proof (induction rule: lock_step.induct)
  case (l_call s c t l ret srv)
  then show ?case using sc_ok(2) [of "sy_srv s" l c] by simp
qed (auto intro: sc_ok)

interpretation locks: invariant_system sys_init lock_step sys_inv
proof
  show "sys_inv s" if "sys_init s" for s
    using that by (simp add: sys_init_def sys_inv_def lock_server_cache_new_def lock_inv_def lview_defs view_sel v_holder_def v_queue_def
        v_revoking_def npc_def)
  show "sys_inv t" if "sys_inv s" "lock_step s t" for s t
    using that lock_step_inv lock_step_ok by (simp add: sys_inv_def)
qed

lemma reach_view: "reach sys_init lock_step s \<Longrightarrow> lock_inv (view l s)"
  using locks.reach_inv by (simp add: sys_inv_def)

lemma reach_client: "reach sys_init lock_step s \<Longrightarrow> client_inv (view l s) c"
  using reach_view [of s l] by (simp add: lock_inv_def)

lemma holding_owner:
  assumes "reach sys_init lock_step s" and "sy_pc s c t l = Holding"
  shows "(\<exists>k. map_of (cc_list (sy_clt s c)) l = Some k \<and> cl_owned k \<and> cl_holder k = t) \<and>
    (\<exists>k. map_of (sc_list (sy_srv s)) l = Some k \<and> ci_holder k = c \<and> c \<noteq> SRV_FREE)"
proof -
  note ci = reach_client [OF assms(1), of l c]
  obtain k where k: "map_of (cc_list (sy_clt s c)) l = Some k" using ci assms(2)
    by (cases "map_of (cc_list (sy_clt s c)) l") (auto simp: client_inv_def view_sel)
  then have own: "cl_owned k" "cl_holder k = t" using ci assms(2) by (auto simp: client_inv_def view_sel thread_inv_def)
  with k ci have "v_holder (view l s) = Some c"
    by (cases "v_holder (view l s) = Some c") (simp_all add: client_inv_def tokens_def v_flag_def view_sel)
  with k own show ?thesis by (auto simp: v_holder_def view_sel split: option.splits if_splits)
qed

text \<open>A thread that runs \<^verbatim>\<open>acquire\<close> of a lock its client has never used, as far as the call to the server.\<close>

lemma run_to_call:
  assumes s: "reach sys_init lock_step s" and "sy_pc s c t l = Idle" and "c = cc_id (lock_client_cache_new port)" and "t \<noteq> CLT_FREE"
    and none: "map_of (cc_list (sy_clt s c)) l = None"
  shows "\<exists>s'. reach sys_init lock_step s' \<and> sy_pc s' = sy_pc (at_pc c t l Acq_Call s) \<and> sy_srv s' = sy_srv s \<and> sy_net s' = sy_net s \<and>
    (\<forall>x. x \<noteq> c \<longrightarrow> sy_clt s' x = sy_clt s x) \<and>
    map_of (cc_list (sy_clt s' c)) l = Some (new_lock_info\<lparr>cl_acquiring := True, cl_awaiting_lock := 1\<rparr>)"
proof -
  define k1 where "k1 = acquire_create l (sy_clt s c)"
  have l1: "map_of (cc_list k1) l = Some new_lock_info"
    by (simp add: k1_def acquire_create_def none new_lock_info_def CLT_FREE_def)
  define s1 where "s1 = at_pc c t l Acq_Enter (with_clt c k1 s)"
  have r1: "reach sys_init lock_step s1" unfolding s1_def k1_def by (rule reach_step [OF s l_start [OF assms(2-4)]])
  define k2 where "k2 = cc_put l (new_lock_info\<lparr>cl_awaiting_lock := 1\<rparr>) k1"
  define s2 where "s2 = at_pc c t l Acq_Fetch (with_clt c k2 s1)"
  have "lock_step s1 (at_pc c t l (if True then Acq_Fetch else Acq_Wait) (with_clt c k2 s1))"
    by (rule l_enter) (simp_all add: s1_def acquire_enter_def cc_lock_def l1 k2_def new_lock_info_def)
  then have r2: "reach sys_init lock_step s2" using r1 by (simp add: s2_def reach_step)
  define k3 where "k3 = cc_put l (new_lock_info\<lparr>cl_awaiting_lock := 1, cl_acquiring := True\<rparr>) k2"
  define s3 where "s3 = at_pc c t l Acq_Call (with_clt c k3 s2)"
  have "lock_step s2 (at_pc c t l (if True then Acq_Call else Acq_Wait) (with_clt c k3 s2))"
    by (rule l_fetch) (simp_all add: s2_def acquire_lock_begin_def cc_lock_def k2_def k3_def new_lock_info_def)
  then have r3: "reach sys_init lock_step s3" using r2 by (simp add: s3_def reach_step)
  have "sy_pc s3 = sy_pc (at_pc c t l Acq_Call s) \<and> sy_srv s3 = sy_srv s \<and> sy_net s3 = sy_net s \<and>
    (\<forall>x. x \<noteq> c \<longrightarrow> sy_clt s3 x = sy_clt s x) \<and>
    map_of (cc_list (sy_clt s3 c)) l = Some (new_lock_info\<lparr>cl_acquiring := True, cl_awaiting_lock := 1\<rparr>)"
    by (simp add: s1_def s2_def s3_def k3_def new_lock_info_def)
  with r3 show ?thesis by blast
qed

definition locks_at_rest :: lock_sys where
  "locks_at_rest = \<lparr>sy_srv = lock_server_cache_new, sy_clt = (\<lambda>c. \<lparr>cc_id = c, cc_list = []\<rparr>), sy_pc = (\<lambda>c t l. Idle), sy_net = []\<rparr>"

lemma holding_run:
  fixes c :: string and t :: u64 and l :: lockid_t
  assumes c: "c = cc_id (lock_client_cache_new port)" and t: "t \<noteq> CLT_FREE"
  shows "\<exists>s. reach sys_init lock_step s \<and> sy_pc s = sy_pc (at_pc c t l Holding locks_at_rest) \<and> (\<forall>x. x \<noteq> c \<longrightarrow> cc_list (sy_clt s x) = []) \<and>
    map_of (sc_list (sy_srv s)) l = Some \<lparr>ci_holder = c, ci_revoked = False, ci_queue = []\<rparr>"
proof -
  have s0: "reach sys_init lock_step locks_at_rest"
    by (rule reach_init) (simp add: sys_init_def locks_at_rest_def)
  obtain s1 where s1: "reach sys_init lock_step s1" "sy_pc s1 = sy_pc (at_pc c t l Acq_Call locks_at_rest)" "sy_srv s1 = lock_server_cache_new"
    "\<forall>x. x \<noteq> c \<longrightarrow> cc_list (sy_clt s1 x) = []" "map_of (cc_list (sy_clt s1 c)) l = Some (new_lock_info\<lparr>cl_acquiring := True, cl_awaiting_lock := 1\<rparr>)"
    using run_to_call [OF s0 _ c t, of l] by (auto simp: locks_at_rest_def)
  define srv where "srv = sc_put l \<lparr>ci_holder = c, ci_revoked = False, ci_queue = []\<rparr> lock_server_cache_new"
  define s2 where "s2 = at_pc c t l (Acq_Reply lk_OK) (s1\<lparr>sy_srv := srv\<rparr>)"
  have "lock_step s1 s2" unfolding s2_def
    by (rule l_call) (simp_all add: s1 sc_acquire_def srv_def lock_server_cache_new_def)
  with s1(1) have r2: "reach sys_init lock_step s2" by (rule reach_step)
  define k3 where "k3 = cc_put l (new_lock_info\<lparr>cl_awaiting_lock := 1, cl_owned := True\<rparr>) (sy_clt s1 c)"
  define s3 where "s3 = at_pc c t l Acq_Wait (with_clt c k3 s2)"
  have "lock_step s2 s3" unfolding s3_def
    by (rule l_reply [where ret = lk_OK]) (simp_all add: s2_def acquire_lock_end_def cc_lock_def s1 k3_def new_lock_info_def)
  with r2 have r3: "reach sys_init lock_step s3" by (rule reach_step)
  define k4 where "k4 = cc_put l (new_lock_info\<lparr>cl_owned := True, cl_holder := t\<rparr>) k3"
  define s4 where "s4 = at_pc c t l Holding (with_clt c k4 s3)"
  have "lock_step s3 s4" unfolding s4_def
    by (rule l_got) (simp_all add: s3_def acquire_wait_owned_def acquire_take_def cc_lock_def k3_def k4_def new_lock_info_def CLT_FREE_def)
  with r3 have r4: "reach sys_init lock_step s4" by (rule reach_step)
  have "sy_pc s4 = sy_pc (at_pc c t l Holding locks_at_rest) \<and> (\<forall>x. x \<noteq> c \<longrightarrow> cc_list (sy_clt s4 x) = []) \<and>
    map_of (sc_list (sy_srv s4)) l = Some \<lparr>ci_holder = c, ci_revoked = False, ci_queue = []\<rparr>"
    by (simp add: s2_def s3_def s4_def s1 srv_def)
  with r4 show ?thesis by blast
qed

text \<open>
  C3: mutual exclusion of the caching lock service.  In every reachable state, whatever the
  interleaving of threads, grants, revocations and returns, at most one thread of one client is
  between \<^verbatim>\<open>acquire\<close> and \<^verbatim>\<open>release\<close> of a lock, and the server has that client on record as its holder.
\<close>

theorem caching_locks_exclusive:
  assumes "reach sys_init lock_step s" and "sy_pc s c t l = Holding" and "sy_pc s c' t' l = Holding"
  shows "c = c' \<and> t = t' \<and> (\<exists>k. map_of (sc_list (sy_srv s)) l = Some k \<and> ci_holder k = c)"
  using holding_owner [OF assms(1,2)] holding_owner [OF assms(1,3)] by auto

theorem caching_locks_exclusive_witness:
  "\<exists>s :: lock_sys. sy_pc s ''127.0.0.1:1'' 5 7 = Holding \<and>
     (\<exists>k. map_of (sc_list (sy_srv s)) 7 = Some k \<and> ci_holder k = ''127.0.0.1:1'')"
proof -
  obtain s where "reach sys_init lock_step s" "sy_pc s ''127.0.0.1:1'' 5 7 = Holding"
    using holding_run [of "''127.0.0.1:1''" "''1''" 5 7] by (auto simp: lock_client_cache_new_def CLT_FREE_def)
  note h = this
  from caching_locks_exclusive [OF h h(2)] h(2) show ?thesis by (intro exI [of _ s]) simp
qed

text \<open>
  C14: no handler of the lock service faults.  The server only executes releases of locks it knows; a
  client that is granted or revoked a lock has a record of it, so that neither handler follows a
  null pointer and the branch of \<^verbatim>\<open>revoke_handler\<close> that makes the client the owner of a lock it
  never asked for is not taken; and a thread inside \<^verbatim>\<open>acquire\<close> or \<^verbatim>\<open>release\<close> always finds its lock.
\<close>

theorem lock_handlers_never_fault:
  assumes "reach sys_init lock_step s"
  shows "(Release c l \<in> set (sy_net s) \<longrightarrow> (\<exists>r. sc_release l c (sy_srv s) = Inr r)) \<and>
    (Retry c l \<in> set (sy_net s) \<longrightarrow> (\<exists>r. retry_handler l (sy_clt s c) = Inr r)) \<and>
    (Revoke c l \<in> set (sy_net s) \<longrightarrow> map_of (cc_list (sy_clt s c)) l \<noteq> None) \<and>
    (sy_pc s c t l \<noteq> Idle \<longrightarrow> (\<exists>k. cc_lock l (sy_clt s c) = Inr k))"
proof -
  note ci = reach_client [OF assms, of l c]
  have "\<exists>r. sc_release l c (sy_srv s) = Inr r" if "Release c l \<in> set (sy_net s)"
  proof -
    have "0 < v_rel (view l s) c" using that by (simp add: view_sel count_pos)
    then have "v_holder (view l s) = Some c" using ci
      by (cases "v_holder (view l s) = Some c") (simp_all add: client_inv_def tokens_def)
    then show ?thesis by (auto simp: v_holder_def view_sel sc_release_def Let_def split: option.splits list.splits)
  qed
  moreover have "Retry c l \<in> set (sy_net s) \<or> Revoke c l \<in> set (sy_net s) \<or> sy_pc s c t l \<noteq> Idle \<longrightarrow> map_of (cc_list (sy_clt s c)) l \<noteq> None"
    using ci by (cases "map_of (cc_list (sy_clt s c)) l") (auto simp: lview_defs view_sel count_list_0_iff)
  ultimately show ?thesis by (auto simp: retry_handler_def cc_lock_def split: option.splits)
qed

theorem lock_handlers_never_fault_witness:
  "\<exists>(s :: lock_sys) k. sy_pc s ''127.0.0.1:1'' 5 7 = Holding \<and> cc_lock 7 (sy_clt s ''127.0.0.1:1'') = Inr k"
proof -
  obtain s where "reach sys_init lock_step s" "sy_pc s ''127.0.0.1:1'' 5 7 = Holding"
    using holding_run [of "''127.0.0.1:1''" "''1''" 5 7] by (auto simp: lock_client_cache_new_def CLT_FREE_def)
  note h = this
  from lock_handlers_never_fault [OF h(1), of "''127.0.0.1:1''" 7 5] h(2)
  obtain k where "cc_lock 7 (sy_clt s ''127.0.0.1:1'') = Inr k" by auto
  with h(2) show ?thesis by (intro exI [of _ s] exI [of _ k]) simp
qed





end
