(* ===== verification/Paxos_Protocol.thy ===== *)
theory Paxos_Protocol
  imports Wire
begin

text \<open>
  Proposal numbers and the messages of Paxos (\<^verbatim>\<open>paxos_protocol.h\<close>, with the order of proposal numbers
  from \<^verbatim>\<open>paxos.cc\<close>), and the codecs of the messages.
\<close>

section \<open>Proposal numbers\<close>

datatype prop_t = Prop (pn: u32) (pm: string)

definition prop_greater :: "prop_t \<Rightarrow> prop_t \<Rightarrow> bool" where
  "prop_greater a b \<longleftrightarrow> pn a > pn b \<or> pn a = pn b \<and> pm a > pm b"

definition prop_greater_eq :: "prop_t \<Rightarrow> prop_t \<Rightarrow> bool" where
  "prop_greater_eq a b \<longleftrightarrow> pn a > pn b \<or> pn a = pn b \<and> pm a \<ge> pm b"

text \<open>The two operators of the sources are a linear order.\<close>

instantiation prop_t :: linorder
begin

definition less_eq_prop_t :: "prop_t \<Rightarrow> prop_t \<Rightarrow> bool" where
  "less_eq_prop_t a b \<longleftrightarrow> prop_greater_eq b a"

definition less_prop_t :: "prop_t \<Rightarrow> prop_t \<Rightarrow> bool" where
  "less_prop_t a b \<longleftrightarrow> prop_greater b a"

instance
proof
  fix a b c :: prop_t
  note defs = less_eq_prop_t_def less_prop_t_def prop_greater_def prop_greater_eq_def
  show "a < b \<longleftrightarrow> a \<le> b \<and> \<not> b \<le> a" by (auto simp: defs)
  show "a \<le> a" by (simp add: defs)
  show "a \<le> b \<Longrightarrow> b \<le> c \<Longrightarrow> a \<le> c" by (auto simp: defs)
  show "a \<le> b \<Longrightarrow> b \<le> a \<Longrightarrow> a = b" by (cases a; cases b) (auto simp: defs)
  show "a \<le> b \<or> b \<le> a" by (auto simp: defs)
qed

end

lemma prop_order:
  "prop_greater a b \<longleftrightarrow> b < a" "prop_greater_eq a b \<longleftrightarrow> b \<le> a"
  by (simp_all add: less_eq_prop_t_def less_prop_t_def)

lemma prop_less_pn: "pn a < pn b \<Longrightarrow> a < b"
  by (simp add: less_prop_t_def prop_greater_def)

lemma prop_le_pn: "a \<le> b \<Longrightarrow> pn a \<le> pn b"
  by (auto simp: less_eq_prop_t_def prop_greater_eq_def)

section \<open>Messages\<close>

definition px_OK :: i32 where "px_OK = 0"
definition px_ERR :: i32 where "px_ERR = 1"

record preparearg =
  pa_instance :: u32
  pa_n :: prop_t

record prepareres =
  pr_oldinstance :: bool
  pr_accept :: bool
  pr_n_a :: prop_t
  pr_v_a :: string

record acceptarg =
  aa_instance :: u32
  aa_n :: prop_t
  aa_v :: string

record decidearg =
  da_instance :: u32
  da_v :: string

definition get_prop :: "prop_t getter" where
  "get_prop u = res_bind (Inr (get_uint u)) (\<lambda>(n, u). res_bind (get_string u) (\<lambda>(m, u). Inr (Prop n m, u)))"

definition put_prop :: "prop_t \<Rightarrow> marshall \<Rightarrow> marshall" where
  "put_prop a m = put_string (pm a) (put_uint (pn a) m)"

definition get_preparearg :: "preparearg getter" where
  "get_preparearg u = res_bind (Inr (get_uint u)) (\<lambda>(i, u). res_bind (get_prop u) (\<lambda>(n, u).
     Inr (\<lparr>pa_instance = i, pa_n = n\<rparr>, u)))"

definition put_preparearg :: "preparearg \<Rightarrow> marshall \<Rightarrow> marshall" where
  "put_preparearg a m = put_prop (pa_n a) (put_uint (pa_instance a) m)"

definition get_prepareres :: "prepareres getter" where
  "get_prepareres u = res_bind (Inr (get_bool u)) (\<lambda>(b, u). res_bind (Inr (get_bool u)) (\<lambda>(c, u).
     res_bind (get_prop u) (\<lambda>(n, u). res_bind (get_string u) (\<lambda>(v, u).
     Inr (\<lparr>pr_oldinstance = b, pr_accept = c, pr_n_a = n, pr_v_a = v\<rparr>, u)))))"

definition put_prepareres :: "prepareres \<Rightarrow> marshall \<Rightarrow> marshall" where
  "put_prepareres r m = put_string (pr_v_a r) (put_prop (pr_n_a r) (put_bool (pr_accept r) (put_bool (pr_oldinstance r) m)))"

definition get_acceptarg :: "acceptarg getter" where
  "get_acceptarg u = res_bind (Inr (get_uint u)) (\<lambda>(i, u). res_bind (get_prop u) (\<lambda>(n, u). res_bind (get_string u) (\<lambda>(v, u).
     Inr (\<lparr>aa_instance = i, aa_n = n, aa_v = v\<rparr>, u))))"

definition put_acceptarg :: "acceptarg \<Rightarrow> marshall \<Rightarrow> marshall" where
  "put_acceptarg a m = put_string (aa_v a) (put_prop (aa_n a) (put_uint (aa_instance a) m))"

definition get_decidearg :: "decidearg getter" where
  "get_decidearg u = res_bind (Inr (get_uint u)) (\<lambda>(i, u). res_bind (get_string u) (\<lambda>(v, u).
     Inr (\<lparr>da_instance = i, da_v = v\<rparr>, u)))"

definition put_decidearg :: "decidearg \<Rightarrow> marshall \<Rightarrow> marshall" where
  "put_decidearg a m = put_string (da_v a) (put_uint (da_instance a) m)"

section \<open>Codecs\<close>

text \<open>
  A structure whose operators write and read its fields in turn is a codec: it has the codec of
  the tuple of its fields, through the functions that take a structure apart and build it.
\<close>

locale codec_struct = codec put get enc
  for put :: "'a \<Rightarrow> marshall \<Rightarrow> marshall" and get enc +
  fixes fields :: "'b \<Rightarrow> 'a" and build :: "'a \<Rightarrow> 'b"
  assumes build_fields: "build (fields b) = b"
begin

lemma struct_codec:
  "codec (\<lambda>b. put (fields b)) (\<lambda>u. res_bind (get u) (\<lambda>(a, u). Inr (build a, u))) (\<lambda>b. enc (fields b))"
proof (unfold_locales, goal_cases)
  case (1 m hdr bs x)
  then show ?case by (rule put_holds)
next
  case (2 m hdr bs x)
  then show ?case by (rule put_capa)
next
  case (3 u x bs)
  then show ?case using get_reads [OF 3] by (simp add: build_fields)
next
  case (4 x)
  then show ?case by (rule enc_nonempty)
qed

end

definition enc_prop :: "prop_t \<Rightarrow> u8 list" where
  "enc_prop a = enc_uint (pn a) @ enc_string (pm a)"

interpretation uint_string: codec_pair put_uint "\<lambda>u. Inr (get_uint u)" enc_uint put_string get_string enc_string ..

interpretation prop_struct: codec_struct "\<lambda>(a, b) m. put_string b (put_uint a m)" "get_pair (\<lambda>u. Inr (get_uint u)) get_string"
  "\<lambda>(a, b). enc_uint a @ enc_string b" "\<lambda>p. (pn p, pm p)" "\<lambda>(n, m). Prop n m"
  by (rule codec_struct.intro [OF uint_string.pair_codec], unfold_locales) simp

lemmas struct_ops = get_pair_def case_prod_unfold res_bind_assoc

interpretation prop_codec: codec put_prop get_prop enc_prop
  using prop_struct.struct_codec
  by (simp add: put_prop_def [abs_def] get_prop_def [abs_def] enc_prop_def [abs_def] struct_ops)

interpretation uint_prop: codec_pair put_uint "\<lambda>u. Inr (get_uint u)" enc_uint put_prop get_prop enc_prop ..

interpretation preparearg_struct: codec_struct "\<lambda>(a, b) m. put_prop b (put_uint a m)" "get_pair (\<lambda>u. Inr (get_uint u)) get_prop"
  "\<lambda>(a, b). enc_uint a @ enc_prop b" "\<lambda>a. (pa_instance a, pa_n a)" "\<lambda>(i, n). \<lparr>pa_instance = i, pa_n = n\<rparr>"
  by (rule codec_struct.intro [OF uint_prop.pair_codec], unfold_locales) simp

definition enc_preparearg :: "preparearg \<Rightarrow> u8 list" where
  "enc_preparearg a = enc_uint (pa_instance a) @ enc_prop (pa_n a)"

interpretation preparearg_codec: codec put_preparearg get_preparearg enc_preparearg
  using preparearg_struct.struct_codec
  by (simp add: put_preparearg_def [abs_def] get_preparearg_def [abs_def] enc_preparearg_def [abs_def] struct_ops)

interpretation prop_string: codec_pair put_prop get_prop enc_prop put_string get_string enc_string ..

interpretation uint_prop_string: codec_pair put_uint "\<lambda>u. Inr (get_uint u)" enc_uint
  "\<lambda>(a, b) m. put_string b (put_prop a m)" "get_pair get_prop get_string" "\<lambda>(a, b). enc_prop a @ enc_string b"
  by (rule codec_pair.intro [OF uint_codec.codec_axioms prop_string.pair_codec])

definition enc_acceptarg :: "acceptarg \<Rightarrow> u8 list" where
  "enc_acceptarg a = enc_uint (aa_instance a) @ enc_prop (aa_n a) @ enc_string (aa_v a)"

interpretation acceptarg_struct: codec_struct "\<lambda>(a, b) m. (\<lambda>(a, b) m. put_string b (put_prop a m)) b (put_uint a m)"
  "get_pair (\<lambda>u. Inr (get_uint u)) (get_pair get_prop get_string)" "\<lambda>(a, b). enc_uint a @ (\<lambda>(a, b). enc_prop a @ enc_string b) b"
  "\<lambda>a. (aa_instance a, aa_n a, aa_v a)" "\<lambda>(i, n, v). \<lparr>aa_instance = i, aa_n = n, aa_v = v\<rparr>"
  by (rule codec_struct.intro [OF uint_prop_string.pair_codec], unfold_locales) simp

interpretation acceptarg_codec: codec put_acceptarg get_acceptarg enc_acceptarg
  using acceptarg_struct.struct_codec
  by (simp add: put_acceptarg_def [abs_def] get_acceptarg_def [abs_def] enc_acceptarg_def [abs_def] struct_ops)

definition enc_decidearg :: "decidearg \<Rightarrow> u8 list" where
  "enc_decidearg a = enc_uint (da_instance a) @ enc_string (da_v a)"

interpretation decidearg_struct: codec_struct "\<lambda>(a, b) m. put_string b (put_uint a m)" "get_pair (\<lambda>u. Inr (get_uint u)) get_string"
  "\<lambda>(a, b). enc_uint a @ enc_string b" "\<lambda>a. (da_instance a, da_v a)" "\<lambda>(i, v). \<lparr>da_instance = i, da_v = v\<rparr>"
  by (rule codec_struct.intro [OF uint_string.pair_codec], unfold_locales) simp

interpretation decidearg_codec: codec put_decidearg get_decidearg enc_decidearg
  using decidearg_struct.struct_codec
  by (simp add: put_decidearg_def [abs_def] get_decidearg_def [abs_def] enc_decidearg_def [abs_def] struct_ops)

interpretation bool_prop_string: codec_pair put_bool "\<lambda>u. Inr (get_bool u)" "\<lambda>x. [if x then 1 else 0]"
  "\<lambda>(a, b) m. put_string b (put_prop a m)" "get_pair get_prop get_string" "\<lambda>(a, b). enc_prop a @ enc_string b"
  by (rule codec_pair.intro [OF bool_codec.codec_axioms prop_string.pair_codec])

interpretation prepareres_pair: codec_pair put_bool "\<lambda>u. Inr (get_bool u)" "\<lambda>x. [if x then 1 else 0]"
  "\<lambda>(a, b) m. (\<lambda>(a, b) m. put_string b (put_prop a m)) b (put_bool a m)"
  "get_pair (\<lambda>u. Inr (get_bool u)) (get_pair get_prop get_string)"
  "\<lambda>(a, b). [if a then 1 else 0] @ (\<lambda>(a, b). enc_prop a @ enc_string b) b"
  by (rule codec_pair.intro [OF bool_codec.codec_axioms bool_prop_string.pair_codec])

definition enc_prepareres :: "prepareres \<Rightarrow> u8 list" where
  "enc_prepareres r = (if pr_oldinstance r then 1 else 0) # (if pr_accept r then 1 else 0) # enc_prop (pr_n_a r) @ enc_string (pr_v_a r)"

interpretation prepareres_codec: codec put_prepareres get_prepareres enc_prepareres
proof -
  have "codec_struct_axioms (\<lambda>r. (pr_oldinstance r, pr_accept r, pr_n_a r, pr_v_a r))
      (\<lambda>(b, c, n, v). \<lparr>pr_oldinstance = b, pr_accept = c, pr_n_a = n, pr_v_a = v\<rparr>)"
    by unfold_locales simp
  from codec_struct.struct_codec [OF codec_struct.intro [OF prepareres_pair.pair_codec this]]
  show "codec put_prepareres get_prepareres enc_prepareres"
    by (simp add: put_prepareres_def [abs_def] get_prepareres_def [abs_def] enc_prepareres_def [abs_def] struct_ops)
qed

end
