(* ===== verification/Streams.thy ===== *)
theory Streams
  imports Yfs_Dir
begin

text \<open>
  The operations of standard input streams that \<^verbatim>\<open>log.cc\<close> and \<^verbatim>\<open>config.cc\<close> use: a stream is the text
  that is left and whether it is still good; an operation on a bad stream does nothing.
\<close>

record istrm =
  is_rest :: string
  is_ok :: bool

definition istrm_of :: "string \<Rightarrow> istrm" where
  "istrm_of s = \<lparr>is_rest = s, is_ok = True\<rparr>"

definition not_space :: "char \<Rightarrow> bool" where
  "not_space c \<longleftrightarrow> \<not> is_space c"

text \<open>\<^verbatim>\<open>st >> s\<close> for a string: \<^term>\<open>None\<close> when \<^verbatim>\<open>s\<close> is left alone.\<close>

definition is_word :: "istrm \<Rightarrow> string option \<times> istrm" where
  "is_word st =
     (let s = dropWhile is_space (is_rest st)
      in if \<not> is_ok st then (None, st)
         else if s = [] then (None, \<lparr>is_rest = [], is_ok = False\<rparr>)
         else (Some (takeWhile not_space s), st\<lparr>is_rest := dropWhile not_space s\<rparr>))"

text \<open>\<^verbatim>\<open>st >> n\<close> for an \<^verbatim>\<open>unsigned\<close>: a text without digits stores 0 and one beyond the range the largest value, and both fail.\<close>

definition is_uint :: "istrm \<Rightarrow> u32 option \<times> istrm" where
  "is_uint st =
     (let s = dropWhile is_space (is_rest st);
          neg = (s \<noteq> [] \<and> hd s = CHR ''-'');
          s' = (if s \<noteq> [] \<and> (hd s = CHR ''-'' \<or> hd s = CHR ''+'') then tl s else s);
          ds = takeWhile is_digit s'; rest = dropWhile is_digit s'
      in if \<not> is_ok st then (None, st)
         else if s = [] then (None, \<lparr>is_rest = [], is_ok = False\<rparr>)
         else if ds = [] then (Some 0, \<lparr>is_rest = rest, is_ok = False\<rparr>)
         else if dec_val ds \<ge> 2 ^ 32 then (Some (- 1), \<lparr>is_rest = rest, is_ok = False\<rparr>)
         else (Some (if neg then - word_of_nat (dec_val ds) else word_of_nat (dec_val ds)), st\<lparr>is_rest := rest\<rparr>))"

text \<open>\<^verbatim>\<open>st.get()\<close> with its result thrown away, and \<^verbatim>\<open>getline(st, s)\<close> into an empty string.\<close>

definition is_get :: "istrm \<Rightarrow> istrm" where
  "is_get st = (if \<not> is_ok st then st else if is_rest st = [] then st\<lparr>is_ok := False\<rparr> else st\<lparr>is_rest := tl (is_rest st)\<rparr>)"

definition is_line :: "istrm \<Rightarrow> string \<times> istrm" where
  "is_line st =
     (if \<not> is_ok st then ([], st)
      else if is_rest st = [] then ([], st\<lparr>is_ok := False\<rparr>)
      else (takeWhile (\<lambda>c. c \<noteq> CHR 0x0A) (is_rest st), st\<lparr>is_rest := tl (dropWhile (\<lambda>c. c \<noteq> CHR 0x0A) (is_rest st))\<rparr>))"

section \<open>Reading what was written\<close>

definition is_text_word :: "string \<Rightarrow> bool" where
  "is_text_word w \<longleftrightarrow> w \<noteq> [] \<and> (\<forall>c \<in> set w. not_space c)"

lemma takeWhile_stop: "\<forall>c \<in> set w. P c \<Longrightarrow> \<not> P d \<Longrightarrow> takeWhile P (w @ d # r) = w"
  by (induction w) auto

lemma dropWhile_stop: "\<forall>c \<in> set w. P c \<Longrightarrow> \<not> P d \<Longrightarrow> dropWhile P (w @ d # r) = d # r"
  by (induction w) auto

lemma dropWhile_blank: "is_space b \<Longrightarrow> w \<noteq> [] \<Longrightarrow> \<not> is_space (hd w) \<Longrightarrow> dropWhile is_space (b # w @ r) = w @ r"
  by (cases w) auto

lemma dropWhile_word: "w \<noteq> [] \<Longrightarrow> \<not> is_space (hd w) \<Longrightarrow> dropWhile is_space (w @ r) = w @ r"
  by (cases w) auto

lemma blanks [simp]: "is_space CHR 0x0A" "is_space CHR '' ''"
  by (simp_all add: is_space_def)

text \<open>A word at the start of the stream or after one blank, up to the blank that ends it.\<close>

lemma is_word_reads:
  assumes "is_text_word w" and "is_space d" and "s = w @ d # r \<or> (\<exists>b. is_space b \<and> s = b # w @ d # r)"
  shows "is_word (istrm_of s) = (Some w, istrm_of (d # r))"
proof -
  have w: "w \<noteq> []" "\<not> is_space (hd w)" "\<forall>c \<in> set w. not_space c"
    using assms(1) by (auto simp: is_text_word_def not_space_def)
  then have "dropWhile is_space s = w @ d # r"
    using assms(3) dropWhile_blank [of _ w "d # r"] dropWhile_word [of w "d # r"] by auto
  then show ?thesis
    using w assms(2) by (simp add: is_word_def istrm_of_def Let_def takeWhile_stop dropWhile_stop not_space_def)
qed

lemma is_uint_reads:
  assumes "is_space d" and "is_space b"
  shows "is_uint (istrm_of (b # dec_string (unat n) @ d # r)) = (Some n, istrm_of (d # r))"
proof -
  let ?w = "dec_string (unat n)"
  have all: "\<forall>c \<in> set ?w. is_digit c" using dec_string_digits by blast
  have w: "?w \<noteq> []" by (rule dec_string_nonempty)
  then have hd: "is_digit (hd ?w)" using all by simp
  note nd = digit_not_special [OF hd]
  have d: "\<not> is_digit d" using assms(1) digit_not_special by blast
  have "dropWhile is_space (b # ?w @ d # r) = ?w @ d # r" using dropWhile_blank [OF assms(2) w] nd by simp
  moreover have "hd (?w @ d # r) = hd ?w" using w by simp
  moreover have "unat n < 2 ^ 32" using unsigned_less [of n, where ?'a = nat] by simp
  ultimately show ?thesis
    using w nd by (simp add: is_uint_def istrm_of_def Let_def takeWhile_stop [OF all d] dropWhile_stop [OF all d] dec_val_string)
qed

lemma is_get_reads: "is_get (istrm_of (c # r)) = istrm_of r"
  by (simp add: is_get_def istrm_of_def)

lemma is_line_reads:
  assumes "CHR 0x0A \<notin> set v"
  shows "is_line (istrm_of (v @ CHR 0x0A # r)) = (v, istrm_of r)"
proof -
  have "\<forall>c \<in> set v. c \<noteq> CHR 0x0A" using assms by auto
  then show ?thesis by (simp add: is_line_def istrm_of_def takeWhile_stop dropWhile_stop)
qed

lemma is_word_end: "is_word (istrm_of []) = (None, \<lparr>is_rest = [], is_ok = False\<rparr>)"
  by (simp add: is_word_def istrm_of_def)

text \<open>No operation gives characters back, and a word that was read took at least one.\<close>

lemma is_lengths:
  "length (is_rest (snd (is_uint st))) \<le> length (is_rest st)"
  "length (is_rest (is_get st)) \<le> length (is_rest st)"
  "length (is_rest (snd (is_line st))) \<le> length (is_rest st)"
  "length (is_rest (snd (is_word st))) \<le> length (is_rest st)"
  "fst (is_word st) = Some w \<Longrightarrow> length (is_rest (snd (is_word st))) < length (is_rest st)"
proof -
  have d: "length (dropWhile P xs) \<le> length xs" for P and xs :: string by (rule length_dropWhile_le)
  have t: "length (dropWhile P (tl xs)) \<le> length xs" for P and xs :: string using d [of P "tl xs"] by simp
  show "length (is_rest (snd (is_uint st))) \<le> length (is_rest st)"
    using d [of is_digit "dropWhile is_space (is_rest st)"] d [of is_space "is_rest st"] t [of is_digit "dropWhile is_space (is_rest st)"]
    by (auto simp: is_uint_def Let_def intro: order_trans)
  show "length (is_rest (is_get st)) \<le> length (is_rest st)" by (simp add: is_get_def)
  show "length (is_rest (snd (is_line st))) \<le> length (is_rest st)"
    using d [of "\<lambda>c. c \<noteq> CHR 0x0A" "is_rest st"] by (auto simp: is_line_def)
  show "length (is_rest (snd (is_word st))) \<le> length (is_rest st)"
    using d [of not_space "dropWhile is_space (is_rest st)"] d [of is_space "is_rest st"] by (auto simp: is_word_def Let_def)
  assume "fst (is_word st) = Some w"
  then have ok: "is_ok st" "dropWhile is_space (is_rest st) \<noteq> []" by (auto simp: is_word_def Let_def split: if_splits)
  then obtain c r where s: "dropWhile is_space (is_rest st) = c # r" by (cases "dropWhile is_space (is_rest st)") auto
  then have "not_space c" using hd_dropWhile [of is_space "is_rest st"] by (simp add: not_space_def)
  with ok s d [of not_space r] d [of is_space "is_rest st"] show "length (is_rest (snd (is_word st))) < length (is_rest st)"
    by (simp add: is_word_def)
qed

end
