(* ===== verification/Paxos_Log.thy ===== *)
theory Paxos_Log
  imports Paxos_Protocol Streams
begin

text \<open>
  The durable state of a Paxos acceptor (\<^verbatim>\<open>log.cc\<close>): the text every logging operation appends to the
  log file, and \<^verbatim>\<open>logread\<close>, which rebuilds the acceptor from the file when it starts.
\<close>

section \<open>The acceptor and its log\<close>

text \<open>
  The log file is kept as the list of the writes that made it; \<open>Restored\<close> is a file that was
  written as a whole.  \<open>log_text\<close> is the contents of the file.
\<close>

datatype log_rec =
    Done u32 string
  | Propseen prop_t
  | Accepted prop_t string
  | Restored string

definition newline :: char where "newline = CHR 0x0A"

fun rec_text :: "log_rec \<Rightarrow> string" where
  "rec_text (Done i v) = ''done'' @ '' '' @ dec_string (unat i) @ '' '' @ v @ [newline]"
| "rec_text (Propseen n) = ''propseen'' @ '' '' @ dec_string (unat (pn n)) @ '' '' @ pm n @ [newline]"
| "rec_text (Accepted n v) = ''accepted'' @ '' '' @ dec_string (unat (pn n)) @ '' '' @ pm n @ '' '' @ v @ [newline]"
| "rec_text (Restored s) = s"

definition log_text :: "log_rec list \<Rightarrow> string" where
  "log_text l = concat (map rec_text l)"

record acceptor =
  ac_me :: string
  ac_n_h :: prop_t
  ac_n_a :: prop_t
  ac_v_a :: string
  ac_instance_h :: u32
  ac_values :: "(u32, string) smap"
  ac_log :: "log_rec list"

definition loginstance :: "u32 \<Rightarrow> string \<Rightarrow> acceptor \<Rightarrow> acceptor" where
  "loginstance i v a = a\<lparr>ac_log := ac_log a @ [Done i v]\<rparr>"

definition logprop :: "prop_t \<Rightarrow> acceptor \<Rightarrow> acceptor" where
  "logprop n a = a\<lparr>ac_log := ac_log a @ [Propseen n]\<rparr>"

definition logaccept :: "prop_t \<Rightarrow> string \<Rightarrow> acceptor \<Rightarrow> acceptor" where
  "logaccept n v a = a\<lparr>ac_log := ac_log a @ [Accepted n v]\<rparr>"

definition log_restore :: "string \<Rightarrow> acceptor \<Rightarrow> acceptor" where
  "log_restore s a = a\<lparr>ac_log := [Restored s]\<rparr>"

text \<open>\<^verbatim>\<open>dump\<close> reads the file line by line and puts the line ends back.\<close>

function dump_lines :: "istrm \<Rightarrow> string" where
  "dump_lines st = (let (v, st') = is_line st in if is_ok st' then v @ [newline] @ dump_lines st' else [])"
  by pat_completeness auto

termination
proof (relation "measure (\<lambda>st. length (is_rest st))", rule wf_measure)
  fix st v st' x
  assume a: "x = is_line st" "(v, st') = x" "is_ok st'"
  then have ne: "is_rest st \<noteq> []" "is_ok st" by (auto simp: is_line_def split: if_splits)
  have "length (tl (dropWhile (\<lambda>c. c \<noteq> CHR 0x0A) (is_rest st))) < length (is_rest st)"
    using ne(1) length_dropWhile_le [of "\<lambda>c. c \<noteq> CHR 0x0A" "is_rest st"] by (cases "is_rest st") auto
  then show "(st', st) \<in> measure (\<lambda>st. length (is_rest st))" using a ne by (simp add: is_line_def)
qed

declare dump_lines.simps [simp del]

definition log_dump :: "acceptor \<Rightarrow> string" where
  "log_dump a = dump_lines (istrm_of (log_text (ac_log a)))"

section \<open>logread\<close>

text \<open>A variable that an extraction may leave alone.\<close>

definition keep :: "'a \<Rightarrow> 'a option \<Rightarrow> 'a" where
  "keep old new = (case new of None \<Rightarrow> old | Some x \<Rightarrow> x)"

text \<open>
  The local \<^verbatim>\<open>instance\<close> is not initialised: \<^term>\<open>None\<close> until a number has been stored in it.
\<close>

definition logread_done :: "istrm \<Rightarrow> u32 option \<Rightarrow> acceptor \<Rightarrow> (istrm \<times> u32 option \<times> acceptor) res" where
  "logread_done st inst a =
     (let (n, st) = is_uint st; inst = (if n = None then inst else n); st = is_get st; (v, st) = is_line st
      in case inst of
           None \<Rightarrow> Inl Uninitialised
         | Some i \<Rightarrow> Inr (st, inst, a\<lparr>ac_values := smap_set i v (ac_values a), ac_instance_h := i, ac_v_a := [],
             ac_n_h := Prop 0 (pm (ac_n_h a)), ac_n_a := Prop 0 (pm (ac_n_a a))\<rparr>))"

definition logread_propseen :: "istrm \<Rightarrow> acceptor \<Rightarrow> istrm \<times> acceptor" where
  "logread_propseen st a =
     (let (n, st) = is_uint st; (m, st) = is_word st
      in (st, a\<lparr>ac_n_h := Prop (keep (pn (ac_n_h a)) n) (keep (pm (ac_n_h a)) m)\<rparr>))"

definition logread_accepted :: "istrm \<Rightarrow> acceptor \<Rightarrow> istrm \<times> acceptor" where
  "logread_accepted st a =
     (let (n, st) = is_uint st; (m, st) = is_word st; st = is_get st; (v, st) = is_line st
      in (st, a\<lparr>ac_n_a := Prop (keep (pn (ac_n_a a)) n) (keep (pm (ac_n_a a)) m), ac_v_a := v\<rparr>))"

definition logread_record :: "string \<Rightarrow> istrm \<Rightarrow> u32 option \<Rightarrow> acceptor \<Rightarrow> (istrm \<times> u32 option \<times> acceptor) res" where
  "logread_record kind st inst a =
     (if kind = ''done'' then logread_done st inst a
      else if kind = ''propseen'' then let (st, a) = logread_propseen st a in Inr (st, inst, a)
      else if kind = ''accepted'' then let (st, a) = logread_accepted st a in Inr (st, inst, a)
      else Inl Verify_Failed)"

lemma logread_record_shorter:
  assumes "logread_record kind st inst a = Inr (st', inst', a')"
  shows "length (is_rest st') \<le> length (is_rest st)"
proof -
  note l = is_lengths(1) [of st] is_lengths(2) [of "snd (is_uint st)"] is_lengths(3) [of "is_get (snd (is_uint st))"]
    is_lengths(4) [of "snd (is_uint st)"] is_lengths(2) [of "snd (is_word (snd (is_uint st)))"]
    is_lengths(3) [of "is_get (snd (is_word (snd (is_uint st))))"]
  show ?thesis using assms l
    by (auto simp: logread_record_def logread_done_def logread_propseen_def logread_accepted_def Let_def split_beta
        split: if_splits option.splits)
qed

lemma is_word_shorter: "is_word st = (Some w, st') \<Longrightarrow> length (is_rest st') < length (is_rest st)"
  using is_lengths(5) [of st w] by simp

function logread_loop :: "istrm \<Rightarrow> u32 option \<Rightarrow> acceptor \<Rightarrow> acceptor res" where
  "logread_loop st inst a =
     (case is_word st of
        (None, _) \<Rightarrow> Inr a
      | (Some kind, st') \<Rightarrow>
          (case logread_record kind st' inst a of
             Inl e \<Rightarrow> Inl e
           | Inr (st'', inst', a') \<Rightarrow> logread_loop st'' inst' a'))"
  by pat_completeness auto

termination
  by (relation "measure (\<lambda>(st, _, _). length (is_rest st))")
    (auto dest!: logread_record_shorter is_word_shorter [OF sym] is_word_shorter)

declare logread_loop.simps [simp del]

definition logread :: "acceptor \<Rightarrow> acceptor res" where
  "logread a = logread_loop (istrm_of (log_text (ac_log a))) None a"

section \<open>Reading back a log\<close>

text \<open>What a record does to the acceptor that reads it, and the records that the text can represent.\<close>

fun replay_rec :: "log_rec \<Rightarrow> acceptor \<Rightarrow> acceptor" where
  "replay_rec (Done i v) a = a\<lparr>ac_values := smap_set i v (ac_values a), ac_instance_h := i, ac_v_a := [],
     ac_n_h := Prop 0 (pm (ac_n_h a)), ac_n_a := Prop 0 (pm (ac_n_a a))\<rparr>"
| "replay_rec (Propseen n) a = a\<lparr>ac_n_h := n\<rparr>"
| "replay_rec (Accepted n v) a = a\<lparr>ac_n_a := n, ac_v_a := v\<rparr>"
| "replay_rec (Restored s) a = a"

fun rec_ok :: "log_rec \<Rightarrow> bool" where
  "rec_ok (Done i v) \<longleftrightarrow> newline \<notin> set v"
| "rec_ok (Propseen n) \<longleftrightarrow> is_text_word (pm n)"
| "rec_ok (Accepted n v) \<longleftrightarrow> is_text_word (pm n) \<and> newline \<notin> set v"
| "rec_ok (Restored s) \<longleftrightarrow> False"

lemma kind_words: "is_text_word ''done''" "is_text_word ''propseen''" "is_text_word ''accepted''"
  by (simp_all add: is_text_word_def not_space_def is_space_def)

lemma newline_space: "is_space newline" "newline = CHR 0x0A"
  by (simp_all add: newline_def)

text \<open>One record: the stream stands at its first character or at the end of the line before.\<close>

lemma logread_one:
  assumes "rec_ok r" and "s = rec_text r @ rest \<or> s = newline # rec_text r @ rest"
  shows "\<exists>s' inst'. logread_loop (istrm_of s) inst a = logread_loop (istrm_of s') inst' (replay_rec r a) \<and>
    (s' = rest \<or> s' = newline # rest)"
proof (cases r)
  case (Done i v)
  let ?t = "CHR '' '' # dec_string (unat i) @ CHR '' '' # v @ newline # rest"
  have "is_word (istrm_of s) = (Some ''done'', istrm_of ?t)"
    by (rule is_word_reads) (use kind_words assms Done newline_space in auto)
  moreover have "logread_record ''done'' (istrm_of ?t) inst a = Inr (istrm_of rest, Some i, replay_rec r a)"
    using assms Done is_uint_reads [of "CHR '' ''" "CHR '' ''" i "v @ newline # rest"] is_line_reads [of v rest]
    by (simp add: logread_record_def logread_done_def Let_def is_get_reads newline_def)
  ultimately have "logread_loop (istrm_of s) inst a = logread_loop (istrm_of rest) (Some i) (replay_rec r a)"
    by (subst logread_loop.simps) simp
  then show ?thesis by blast
next
  case (Propseen n)
  let ?t = "CHR '' '' # dec_string (unat (pn n)) @ CHR '' '' # pm n @ newline # rest"
  have "is_word (istrm_of s) = (Some ''propseen'', istrm_of ?t)"
    by (rule is_word_reads) (use kind_words assms Propseen newline_space in auto)
  moreover have "is_word (istrm_of (CHR '' '' # pm n @ newline # rest)) = (Some (pm n), istrm_of (newline # rest))"
    by (rule is_word_reads) (use assms Propseen newline_space in auto)
  then have "logread_record ''propseen'' (istrm_of ?t) inst a = Inr (istrm_of (newline # rest), inst, replay_rec r a)"
    using Propseen is_uint_reads [of "CHR '' ''" "CHR '' ''" "pn n" "pm n @ newline # rest"]
    by (simp add: logread_record_def logread_propseen_def Let_def keep_def)
  ultimately have "logread_loop (istrm_of s) inst a = logread_loop (istrm_of (newline # rest)) inst (replay_rec r a)"
    by (subst logread_loop.simps) simp
  then show ?thesis by blast
next
  case (Accepted n v)
  let ?t = "CHR '' '' # dec_string (unat (pn n)) @ CHR '' '' # pm n @ CHR '' '' # v @ newline # rest"
  have "is_word (istrm_of s) = (Some ''accepted'', istrm_of ?t)"
    by (rule is_word_reads) (use kind_words assms Accepted newline_space in auto)
  moreover have "is_word (istrm_of (CHR '' '' # pm n @ CHR '' '' # v @ newline # rest)) = (Some (pm n), istrm_of (CHR '' '' # v @ newline # rest))"
    by (rule is_word_reads) (use assms Accepted in auto)
  then have "logread_record ''accepted'' (istrm_of ?t) inst a = Inr (istrm_of rest, inst, replay_rec r a)"
    using assms Accepted is_uint_reads [of "CHR '' ''" "CHR '' ''" "pn n" "pm n @ CHR '' '' # v @ newline # rest"] is_line_reads [of v rest]
    by (simp add: logread_record_def logread_accepted_def Let_def keep_def is_get_reads newline_def)
  ultimately have "logread_loop (istrm_of s) inst a = logread_loop (istrm_of rest) inst (replay_rec r a)"
    by (subst logread_loop.simps) simp
  then show ?thesis by blast
qed (use assms in simp)

lemma logread_end: "s = [] \<or> s = [newline] \<Longrightarrow> logread_loop (istrm_of s) inst a = Inr a"
  by (subst logread_loop.simps) (auto simp: is_word_def istrm_of_def newline_space)

lemma logread_replay:
  assumes "\<forall>r \<in> set l. rec_ok r" and "s = log_text l \<or> s = newline # log_text l"
  shows "logread_loop (istrm_of s) inst a = Inr (fold replay_rec l a)"
  using assms
proof (induction l arbitrary: s inst a)
  case Nil
  then show ?case using logread_end by (auto simp: log_text_def)
next
  case (Cons r l)
  then have "s = rec_text r @ log_text l \<or> s = newline # rec_text r @ log_text l" by (simp add: log_text_def)
  with logread_one [of r s "log_text l" inst a] Cons.prems(1) obtain s' inst' where
    "logread_loop (istrm_of s) inst a = logread_loop (istrm_of s') inst' (replay_rec r a)" "s' = log_text l \<or> s' = newline # log_text l"
    by auto
  with Cons.IH [of s' inst' "replay_rec r a"] Cons.prems(1) show ?case by simp
qed

text \<open>The file that \<^verbatim>\<open>dump\<close> reads and \<^verbatim>\<open>restore\<close> writes back is the same.\<close>

lemma dump_line: "newline \<notin> set v \<Longrightarrow> dump_lines (istrm_of (v @ newline # s)) = v @ newline # dump_lines (istrm_of s)"
  using is_line_reads [of v s] by (subst dump_lines.simps) (simp add: newline_def istrm_of_def)

lemma dec_no_newline: "newline \<notin> set (dec_string n)"
  using dec_string_digits [of newline n] digit_not_special newline_space by blast

lemma dump_records:
  assumes "\<forall>r \<in> set l. rec_ok r"
  shows "dump_lines (istrm_of (log_text l)) = log_text l"
  using assms
proof (induction l)
  case Nil
  then show ?case by (subst dump_lines.simps) (simp add: log_text_def is_line_def istrm_of_def)
next
  case (Cons r l)
  obtain v where "rec_text r = v @ [newline]" "newline \<notin> set v"
  proof (cases r)
    case (Done i v)
    then show ?thesis using Cons.prems dec_no_newline that [of "''done'' @ '' '' @ dec_string (unat i) @ '' '' @ v"] by (auto simp: newline_def)
  next
    case (Propseen n)
    have "newline \<notin> set (pm n)" using Cons.prems Propseen newline_space by (auto simp: is_text_word_def not_space_def)
    then show ?thesis using Propseen dec_no_newline that [of "''propseen'' @ '' '' @ dec_string (unat (pn n)) @ '' '' @ pm n"] by (auto simp: newline_def)
  next
    case (Accepted n v)
    have "newline \<notin> set (pm n)" "newline \<notin> set v" using Cons.prems Accepted newline_space by (auto simp: is_text_word_def not_space_def)
    then show ?thesis using Accepted dec_no_newline that [of "''accepted'' @ '' '' @ dec_string (unat (pn n)) @ '' '' @ pm n @ '' '' @ v"] by (auto simp: newline_def)
  qed (use Cons.prems in simp)
  with Cons dump_line [of v "log_text l"] show ?case by (simp add: log_text_def)
qed

end
