(* ===== verification/Paxos.thy ===== *)
theory Paxos
  imports Paxos_Log
begin

text \<open>
  The acceptor and the proposer of \<^verbatim>\<open>paxos.cc\<close>.  Each handler of the acceptor is one definition (they
  run under \<^verbatim>\<open>pxs_mutex\<close>); \<^verbatim>\<open>proposer::run\<close> drops its mutex around every remote call, so it is a machine
  whose steps are the stretches between the calls.  The last section shows that an acceptor that
  is restarted from its log comes back with the state it had.
\<close>

section \<open>Members and majorities\<close>

fun print_members :: "string list \<Rightarrow> string" where
  "print_members [] = []"
| "print_members [x] = x"
| "print_members (x # y # xs) = x @ '','' @ print_members (y # xs)"

definition isamember :: "string \<Rightarrow> string list \<Rightarrow> bool" where
  "isamember m nodes \<longleftrightarrow> list_ex (\<lambda>x. x = m) nodes"

definition majority :: "string list \<Rightarrow> string list \<Rightarrow> bool" where
  "majority l1 l2 \<longleftrightarrow> length (filter (\<lambda>x. isamember x l2) l1) \<ge> length l1 div 2 + 1"

lemma isamember_iff: "isamember m nodes \<longleftrightarrow> m \<in> set nodes"
  by (auto simp: isamember_def list_ex_iff)

text \<open>Two majorities of one list have a member in common.\<close>

lemma majorities_meet:
  assumes "majority l a" and "majority l b"
  shows "\<exists>x \<in> set l. x \<in> set a \<and> x \<in> set b"
proof (rule ccontr)
  assume "\<not> ?thesis"
  then have "length (filter (\<lambda>x. x \<in> set a) l) + length (filter (\<lambda>x. x \<in> set b) l) \<le> length l"
    by (induction l) auto
  with assms show False by (simp add: majority_def isamember_iff)
qed

section \<open>Acceptor\<close>

text \<open>
  The constructor: \<open>file\<close> is what is on disk under the name of the log.
\<close>

definition acceptor_fresh :: "string \<Rightarrow> log_rec list \<Rightarrow> acceptor" where
  "acceptor_fresh me file = \<lparr>ac_me = me, ac_n_h = Prop 0 me, ac_n_a = Prop 0 me, ac_v_a = [], ac_instance_h = 0, ac_values = [], ac_log = file\<rparr>"

definition acceptor_new :: "bool \<Rightarrow> string \<Rightarrow> string \<Rightarrow> log_rec list \<Rightarrow> acceptor res" where
  "acceptor_new first me val file =
     res_bind (logread (acceptor_fresh me file)) (\<lambda>a.
       if ac_instance_h a = 0 \<and> first
       then Inr ((loginstance 1 val (a\<lparr>ac_values := smap_set 1 val (ac_values a)\<rparr>))\<lparr>ac_instance_h := 1\<rparr>)
       else Inr a)"

text \<open>\<^verbatim>\<open>values[i]\<close>, which creates a missing entry.\<close>

definition values_at :: "u32 \<Rightarrow> acceptor \<Rightarrow> string \<times> acceptor" where
  "values_at i a =
     (case map_of (ac_values a) i of
        Some v \<Rightarrow> (v, a)
      | None \<Rightarrow> ([], a\<lparr>ac_values := smap_set i [] (ac_values a)\<rparr>))"

text \<open>\<open>r\<close> is the reply as the RPC layer made it: the handler leaves some fields alone.\<close>

definition preparereq :: "preparearg \<Rightarrow> prepareres \<Rightarrow> acceptor \<Rightarrow> i32 \<times> prepareres \<times> acceptor" where
  "preparereq a r st =
     (if ac_instance_h st \<ge> pa_instance a
      then let (v, st) = values_at (pa_instance a) st in (px_OK, r\<lparr>pr_accept := False, pr_oldinstance := True, pr_v_a := v\<rparr>, st)
      else if prop_greater (pa_n a) (ac_n_h st)
      then (px_OK, r\<lparr>pr_accept := True, pr_n_a := ac_n_a st, pr_oldinstance := False, pr_v_a := ac_v_a st\<rparr>,
            logprop (pa_n a) (st\<lparr>ac_n_h := pa_n a\<rparr>))
      else (px_OK, r\<lparr>pr_accept := False, pr_oldinstance := False\<rparr>, st))"

definition acceptreq :: "acceptarg \<Rightarrow> acceptor \<Rightarrow> i32 \<times> bool \<times> acceptor" where
  "acceptreq a st =
     (if prop_greater_eq (aa_n a) (ac_n_h st)
      then (px_OK, True, logaccept (aa_n a) (aa_v a) (st\<lparr>ac_n_a := aa_n a, ac_v_a := aa_v a\<rparr>))
      else (px_OK, False, st))"

text \<open>The second component is the upcall \<^verbatim>\<open>cfg->paxos_commit\<close>, made with the mutex dropped.\<close>

definition commit_wo :: "u32 \<Rightarrow> string \<Rightarrow> acceptor \<Rightarrow> acceptor \<times> (u32 \<times> string) option" where
  "commit_wo i v st =
     (if i > ac_instance_h st
      then ((loginstance i v (st\<lparr>ac_values := smap_set i v (ac_values st)\<rparr>))\<lparr>ac_instance_h := i,
              ac_n_h := Prop 0 (ac_me st), ac_n_a := Prop 0 (ac_me st), ac_v_a := []\<rparr>, Some (i, v))
      else (st, None))"

definition acceptor_commit :: "u32 \<Rightarrow> string \<Rightarrow> acceptor \<Rightarrow> acceptor \<times> (u32 \<times> string) option" where
  "acceptor_commit i v st = commit_wo i v st"

definition decidereq :: "decidearg \<Rightarrow> acceptor \<Rightarrow> (i32 \<times> acceptor \<times> (u32 \<times> string) option) res" where
  "decidereq a st =
     (if da_instance a = ac_instance_h st + 1
      then if ac_v_a st = da_v a then let (st, up) = commit_wo (da_instance a) (ac_v_a st) st in Inr (px_OK, st, up)
           else Inl Verify_Failed
      else if da_instance a \<le> ac_instance_h st then Inr (px_OK, st, None)
      else Inl Verify_Failed)"

definition acceptor_dump :: "acceptor \<Rightarrow> string" where
  "acceptor_dump st = log_dump st"

definition acceptor_restore :: "string \<Rightarrow> acceptor \<Rightarrow> acceptor res" where
  "acceptor_restore s st = logread (log_restore s st)"

section \<open>Proposer\<close>

text \<open>
  Where \<^verbatim>\<open>run\<close> is: in the loop of one of its three phases, at the \<open>k\<close>-th node, with the call to that node
  outstanding or not.
\<close>

datatype ppc =
    P_Idle
  | P_Prepare nat bool
  | P_Accept nat bool
  | P_Decide nat bool

record proposer =
  pp_me :: string
  pp_break1 :: bool
  pp_break2 :: bool
  pp_stable :: bool
  pp_my_n :: prop_t
  pp_pc :: ppc
  pp_instance :: u32
  pp_cur_nodes :: "string list"
  pp_newv :: string
  pp_accepts :: "string list"
  pp_nodes :: "string list"
  pp_v :: string
  pp_highest :: prop_t
  pp_ret :: bool

definition proposer_new :: "string \<Rightarrow> proposer" where
  "proposer_new me = \<lparr>pp_me = me, pp_break1 = False, pp_break2 = False, pp_stable = True, pp_my_n = Prop 0 me, pp_pc = P_Idle,
     pp_instance = 0, pp_cur_nodes = [], pp_newv = [], pp_accepts = [], pp_nodes = [], pp_v = [], pp_highest = Prop 0 [], pp_ret = False\<rparr>"

definition isrunning :: "proposer \<Rightarrow> bool" where
  "isrunning p \<longleftrightarrow> \<not> pp_stable p"

definition setn :: "prop_t \<Rightarrow> proposer \<Rightarrow> proposer" where
  "setn n_h p = p\<lparr>pp_my_n := Prop (if pn n_h + 1 > pn (pp_my_n p) + 1 then pn n_h + 1 else pn (pp_my_n p) + 1) (pm (pp_my_n p))\<rparr>"

definition breakpoint :: "int \<Rightarrow> proposer \<Rightarrow> proposer" where
  "breakpoint b p = (if b = 3 then p\<lparr>pp_break1 := True\<rparr> else if b = 4 then p\<lparr>pp_break2 := True\<rparr> else p)"

definition run_finish :: "bool \<Rightarrow> proposer \<Rightarrow> proposer" where
  "run_finish r p = p\<lparr>pp_stable := True, pp_pc := P_Idle, pp_ret := r\<rparr>"

text \<open>\<^verbatim>\<open>run\<close> up to the loop of \<^verbatim>\<open>prepare\<close>; \<^term>\<open>None\<close> when the proposer is running already and \<^verbatim>\<open>run\<close> returns \<^verbatim>\<open>false\<close>.\<close>

definition run_begin :: "u32 \<Rightarrow> string list \<Rightarrow> string \<Rightarrow> prop_t \<Rightarrow> proposer \<Rightarrow> proposer option" where
  "run_begin i cur newv n_h p =
     (if \<not> pp_stable p then None
      else Some ((setn n_h (p\<lparr>pp_stable := False\<rparr>))\<lparr>pp_pc := P_Prepare 0 False, pp_instance := i, pp_cur_nodes := cur,
             pp_newv := newv, pp_accepts := [], pp_v := [], pp_highest := Prop 0 []\<rparr>))"

definition prepare_args :: "proposer \<Rightarrow> preparearg" where
  "prepare_args p = \<lparr>pa_instance = pp_instance p, pa_n = pp_my_n p\<rparr>"

text \<open>
  What \<^verbatim>\<open>prepare\<close> does with the reply of node \<open>x\<close>: \<open>Inl v\<close> is the reply of an old instance, after which \<^verbatim>\<open>v\<close>
  is committed and \<^verbatim>\<open>run\<close> ends.
\<close>

definition prepare_reply :: "string \<Rightarrow> i32 \<Rightarrow> prepareres \<Rightarrow> proposer \<Rightarrow> string + proposer" where
  "prepare_reply x ret r p =
     (if ret \<noteq> px_OK then Inr p
      else if pr_oldinstance r then Inl (pr_v_a r)
      else if pr_accept r
      then let p = (if prop_greater (pr_n_a r) (pp_highest p) then p\<lparr>pp_highest := pr_n_a r, pp_v := pr_v_a r\<rparr> else p)
           in Inr (p\<lparr>pp_accepts := pp_accepts p @ [x]\<rparr>)
      else Inr p)"

text \<open>\<^verbatim>\<open>run\<close> between the loops of \<^verbatim>\<open>prepare\<close> and \<^verbatim>\<open>accept\<close>.\<close>

definition run_prepared :: "proposer \<Rightarrow> proposer res" where
  "run_prepared p =
     (if majority (pp_cur_nodes p) (pp_accepts p)
      then let p = (if length (pp_v p) = 0 then p\<lparr>pp_v := pp_newv p\<rparr> else p)
           in if pp_break1 p then Inl Exited
              else Inr (p\<lparr>pp_nodes := pp_accepts p, pp_accepts := [], pp_pc := P_Accept 0 False\<rparr>)
      else Inr (run_finish False p))"

definition accept_args :: "proposer \<Rightarrow> acceptarg" where
  "accept_args p = \<lparr>aa_instance = pp_instance p, aa_n = pp_my_n p, aa_v = pp_v p\<rparr>"

definition accept_reply :: "string \<Rightarrow> i32 \<Rightarrow> bool \<Rightarrow> proposer \<Rightarrow> proposer" where
  "accept_reply x ret ok p = (if ret = px_OK \<and> ok then p\<lparr>pp_accepts := pp_accepts p @ [x]\<rparr> else p)"

text \<open>\<^verbatim>\<open>run\<close> between the loops of \<^verbatim>\<open>accept\<close> and \<^verbatim>\<open>decide\<close>.\<close>

definition run_accepted :: "proposer \<Rightarrow> proposer res" where
  "run_accepted p =
     (if majority (pp_cur_nodes p) (pp_accepts p)
      then if pp_break2 p then Inl Exited else Inr (p\<lparr>pp_pc := P_Decide 0 False\<rparr>)
      else Inr (run_finish False p))"

definition decide_args :: "proposer \<Rightarrow> decidearg" where
  "decide_args p = \<lparr>da_instance = pp_instance p, da_v = pp_v p\<rparr>"

section \<open>Restarting an acceptor\<close>

text \<open>
  An acceptor handles requests and commits in any order; the names and values in them are ones the
  log can represent.  It starts from an empty file or from one that already records a decision
  where it is the first node.
\<close>

definition acc_init :: "acceptor \<Rightarrow> bool" where
  "acc_init a \<longleftrightarrow> (\<exists>first me val file. acceptor_new first me val file = Inr a \<and> (\<forall>r \<in> set file. rec_ok r) \<and> newline \<notin> set val \<and>
     (file = [] \<or> ac_log a = file))"

inductive acc_step :: "acceptor \<Rightarrow> acceptor \<Rightarrow> bool" where
  acc_prepare: "is_text_word (pm (pa_n q)) \<Longrightarrow> preparereq q r a = (ret, r', a') \<Longrightarrow> acc_step a a'"
| acc_accept: "is_text_word (pm (aa_n q)) \<Longrightarrow> newline \<notin> set (aa_v q) \<Longrightarrow> acceptreq q a = (ret, ok, a') \<Longrightarrow> acc_step a a'"
| acc_decide: "newline \<notin> set (da_v q) \<Longrightarrow> decidereq q a = Inr (ret, a', up) \<Longrightarrow> acc_step a a'"
| acc_commit: "newline \<notin> set v \<Longrightarrow> acceptor_commit i v a = (a', up) \<Longrightarrow> acc_step a a'"

text \<open>
  The same acceptor, up to the name in a proposal number that is still zero and up to entries of
  \<^verbatim>\<open>values\<close> that hold the empty string, which is what a missing one reads as.
\<close>

definition same_prop :: "prop_t \<Rightarrow> prop_t \<Rightarrow> bool" where
  "same_prop p q \<longleftrightarrow> p = q \<or> pn p = 0 \<and> pn q = 0"

definition value_in :: "(u32, string) smap \<Rightarrow> u32 \<Rightarrow> string" where
  "value_in m i = (case map_of m i of None \<Rightarrow> [] | Some v \<Rightarrow> v)"

definition same_acceptor :: "acceptor \<Rightarrow> acceptor \<Rightarrow> bool" where
  "same_acceptor a b \<longleftrightarrow> ac_instance_h a = ac_instance_h b \<and> ac_v_a a = ac_v_a b \<and> same_prop (ac_n_h a) (ac_n_h b) \<and>
     same_prop (ac_n_a a) (ac_n_a b) \<and> value_in (ac_values a) = value_in (ac_values b)"

definition replayed :: "acceptor \<Rightarrow> acceptor" where
  "replayed a = fold replay_rec (ac_log a) (acceptor_fresh (ac_me a) (ac_log a))"

definition acc_inv :: "acceptor \<Rightarrow> bool" where
  "acc_inv a \<longleftrightarrow> (\<forall>r \<in> set (ac_log a). rec_ok r) \<and> same_acceptor (replayed a) a"

lemma replay_log [simp]: "ac_log (replay_rec r a) = ac_log a" "ac_me (replay_rec r a) = ac_me a"
  by (cases r; simp)+

lemma fold_replay_log: "ac_log (fold replay_rec l a) = ac_log a" "ac_me (fold replay_rec l a) = ac_me a"
  by (induction l arbitrary: a) simp_all

lemma replay_rec_upd: "replay_rec r (a\<lparr>ac_log := l\<rparr>) = (replay_rec r a)\<lparr>ac_log := l\<rparr>"
  by (cases r) simp_all

lemma fold_replay_upd: "fold replay_rec rs (a\<lparr>ac_log := l\<rparr>) = (fold replay_rec rs a)\<lparr>ac_log := l\<rparr>"
  by (induction rs arbitrary: a) (simp_all add: replay_rec_upd)

lemma fresh_upd: "acceptor_fresh me l = (acceptor_fresh me l')\<lparr>ac_log := l\<rparr>"
  by (simp add: acceptor_fresh_def)

text \<open>Appending a record to the log and applying it.\<close>

lemma same_acceptor_log: "same_acceptor (a\<lparr>ac_log := l\<rparr>) b \<longleftrightarrow> same_acceptor a b"
  by (simp add: same_acceptor_def)

lemma value_in_set [simp]: "value_in (smap_set i v m) = (value_in m)(i := v)"
  by (auto simp: value_in_def fun_eq_iff)

lemma replayed_snoc:
  assumes "ac_log a' = ac_log a @ [r]" and "ac_me a' = ac_me a"
  shows "same_acceptor (replayed a') a' \<longleftrightarrow> same_acceptor (replay_rec r (replayed a)) a'"
proof -
  have "replayed a' = (replay_rec r (replayed a))\<lparr>ac_log := ac_log a'\<rparr>"
    using fresh_upd [of "ac_me a" "ac_log a'" "ac_log a"] by (simp add: replayed_def assms fold_replay_upd replay_rec_upd)
  then show ?thesis by (simp add: same_acceptor_log)
qed

lemma values_at_log [simp]: "ac_log (snd (values_at i a)) = ac_log a" "ac_me (snd (values_at i a)) = ac_me a"
  by (simp_all add: values_at_def split: option.splits)

lemma values_at_same: "same_acceptor x a \<Longrightarrow> same_acceptor x (snd (values_at i a))"
  by (auto simp: same_acceptor_def values_at_def value_in_def fun_eq_iff split: option.splits)

lemma acc_inv_commit:
  assumes "acc_inv a" and "newline \<notin> set v"
  shows "acc_inv (fst (commit_wo i v a))"
proof (cases "i > ac_instance_h a")
  case True
  let ?a = "fst (commit_wo i v a)"
  have l: "ac_log ?a = ac_log a @ [Done i v]" "ac_me ?a = ac_me a" using True by (simp_all add: commit_wo_def loginstance_def)
  have "same_acceptor (replay_rec (Done i v) (replayed a)) ?a"
    using True assms(1)
    by (auto simp: acc_inv_def same_acceptor_def same_prop_def commit_wo_def loginstance_def)
  then show ?thesis using assms l replayed_snoc [OF l] by (auto simp: acc_inv_def)
qed (use assms in \<open>simp add: commit_wo_def\<close>)

lemma acc_step_inv: "acc_step a a' \<Longrightarrow> acc_inv a \<Longrightarrow> acc_inv a'"
proof (induction rule: acc_step.induct)
  case (acc_prepare q r a ret r' a')
  show ?case
  proof (cases "ac_instance_h a \<ge> pa_instance q")
    case True
    then have a': "a' = snd (values_at (pa_instance q) a)" using acc_prepare by (simp add: preparereq_def split_beta Let_def)
    then have "replayed a' = replayed a" by (simp add: replayed_def)
    then show ?thesis using acc_prepare(3) a' values_at_same by (simp add: acc_inv_def)
  next
    case False
    show ?thesis
    proof (cases "prop_greater (pa_n q) (ac_n_h a)")
      case True
      then have a': "a' = logprop (pa_n q) (a\<lparr>ac_n_h := pa_n q\<rparr>)" using acc_prepare False by (simp add: preparereq_def)
      then have l: "ac_log a' = ac_log a @ [Propseen (pa_n q)]" "ac_me a' = ac_me a" by (simp_all add: logprop_def)
      have "same_acceptor (replay_rec (Propseen (pa_n q)) (replayed a)) a'"
        using acc_prepare(3)
        by (simp add: acc_inv_def a' logprop_def same_acceptor_def same_prop_def)
      then show ?thesis using acc_prepare l replayed_snoc [OF l] by (auto simp: acc_inv_def)
    qed (use acc_prepare False in \<open>simp add: preparereq_def\<close>)
  qed
next
  case (acc_accept q a ret ok a')
  show ?case
  proof (cases "prop_greater_eq (aa_n q) (ac_n_h a)")
    case True
    then have a': "a' = logaccept (aa_n q) (aa_v q) (a\<lparr>ac_n_a := aa_n q, ac_v_a := aa_v q\<rparr>)" using acc_accept by (simp add: acceptreq_def)
    then have l: "ac_log a' = ac_log a @ [Accepted (aa_n q) (aa_v q)]" "ac_me a' = ac_me a" by (simp_all add: logaccept_def)
    have "same_acceptor (replay_rec (Accepted (aa_n q) (aa_v q)) (replayed a)) a'"
      using acc_accept(4)
      by (simp add: acc_inv_def a' logaccept_def same_acceptor_def same_prop_def)
    then show ?thesis using acc_accept l replayed_snoc [OF l] by (auto simp: acc_inv_def)
  qed (use acc_accept in \<open>simp add: acceptreq_def\<close>)
next
  case (acc_decide q a ret a' up)
  then show ?case using acc_inv_commit [of a "da_v q" "da_instance q"] by (auto simp: decidereq_def Let_def split_beta split: if_splits)
next
  case (acc_commit v i a a' up)
  then show ?case using acc_inv_commit [of a v i] by (simp add: acceptor_commit_def)
qed

lemma logread_wf:
  assumes "\<forall>r \<in> set (ac_log a). rec_ok r"
  shows "logread a = Inr (fold replay_rec (ac_log a) a)"
  using logread_replay [OF assms] by (simp add: logread_def)

lemma same_refl: "same_acceptor a a"
  by (simp add: same_acceptor_def same_prop_def)

lemma logread_fresh:
  assumes "\<forall>r \<in> set file. rec_ok r"
  shows "logread (acceptor_fresh me file) = Inr (fold replay_rec file (acceptor_fresh me file))"
  using logread_wf [of "acceptor_fresh me file"] assms by (simp add: acceptor_fresh_def)

lemma acceptor_new_inv:
  assumes "acceptor_new first me val file = Inr a" and "\<forall>r \<in> set file. rec_ok r" and "newline \<notin> set val" and "file = [] \<or> ac_log a = file"
  shows "acc_inv a"
proof (cases "ac_log a = file")
  case True
  let ?b = "fold replay_rec file (acceptor_fresh me file)"
  have meb: "ac_log ?b = file" "ac_me ?b = me" by (simp_all add: fold_replay_log acceptor_fresh_def)
  have "ac_log a = file @ [Done 1 val]" if "ac_instance_h ?b = 0 \<and> first"
    using assms(1) that meb logread_fresh [OF assms(2), of me] by (auto simp: acceptor_new_def loginstance_def)
  then have "a = ?b" using assms(1) True logread_fresh [OF assms(2), of me] by (auto simp: acceptor_new_def split: if_splits)
  then show ?thesis using assms(2) meb by (simp add: acc_inv_def replayed_def same_refl)
next
  case False
  then show ?thesis using assms logread_fresh [of "[]" me]
    by (auto simp: acceptor_new_def loginstance_def acceptor_fresh_def acc_inv_def replayed_def same_acceptor_def same_prop_def split: if_splits)
qed

lemma same_trans: "same_acceptor a b \<Longrightarrow> same_acceptor b c \<Longrightarrow> same_acceptor a c"
  by (auto simp: same_acceptor_def same_prop_def)

lemma same_replay: "same_acceptor a b \<Longrightarrow> same_acceptor (replay_rec r a) (replay_rec r b)"
  by (cases r) (auto simp: same_acceptor_def same_prop_def)

lemma same_fold_replay: "same_acceptor a b \<Longrightarrow> same_acceptor (fold replay_rec l a) (fold replay_rec l b)"
  by (induction l arbitrary: a b) (simp_all add: same_replay)

interpretation restart: invariant_system acc_init acc_step acc_inv
  by unfold_locales (auto simp: acc_init_def intro: acceptor_new_inv acc_step_inv)

text \<open>
  C10: an acceptor that crashes and starts again from its log has the state it had: the same decided
  instances and values, the same highest instance, the same promise and the same accepted
  proposal.  Sending the log to another node with \<^verbatim>\<open>dump\<close> and \<^verbatim>\<open>restore\<close> gives that node the same state.
\<close>

theorem restart_restores_acceptor:
  assumes "reach acc_init acc_step a"
  shows "(\<exists>b. acceptor_new False (ac_me a) val (ac_log a) = Inr b \<and> same_acceptor b a \<and> ac_log b = ac_log a) \<and>
    (\<exists>c. acceptor_restore (acceptor_dump a) (acceptor_fresh you other) = Inr c \<and> same_acceptor c a \<and>
      log_text (ac_log c) = log_text (ac_log a))"
proof (intro conjI)
  have inv: "\<forall>r \<in> set (ac_log a). rec_ok r" "same_acceptor (replayed a) a"
    using restart.reach_inv [OF assms] by (simp_all add: acc_inv_def)
  have "acceptor_new False (ac_me a) val (ac_log a) = Inr (replayed a)"
    by (simp add: acceptor_new_def logread_fresh [OF inv(1)] replayed_def)
  then show "\<exists>b. acceptor_new False (ac_me a) val (ac_log a) = Inr b \<and> same_acceptor b a \<and> ac_log b = ac_log a"
    using inv(2) by (simp add: replayed_def fold_replay_log acceptor_fresh_def)
  let ?t = "log_text (ac_log a)" and ?f = "acceptor_fresh you [Restored (log_text (ac_log a))]"
  have t: "log_text (ac_log ?f) = ?t" by (simp add: acceptor_fresh_def log_text_def)
  have "acceptor_restore (acceptor_dump a) (acceptor_fresh you other) = logread ?f"
    by (simp add: acceptor_restore_def acceptor_dump_def log_dump_def dump_records [OF inv(1)] log_restore_def acceptor_fresh_def)
  also have "\<dots> = Inr (fold replay_rec (ac_log a) ?f)"
    using logread_replay [OF inv(1), of ?t None ?f] by (simp add: logread_def t)
  finally have r: "acceptor_restore (acceptor_dump a) (acceptor_fresh you other) = Inr (fold replay_rec (ac_log a) ?f)" .
  have "same_acceptor ?f (acceptor_fresh (ac_me a) (ac_log a))" by (simp add: acceptor_fresh_def same_acceptor_def same_prop_def)
  then have "same_acceptor (fold replay_rec (ac_log a) ?f) a"
    using same_fold_replay same_trans inv(2) unfolding replayed_def by blast
  then show "\<exists>c. acceptor_restore (acceptor_dump a) (acceptor_fresh you other) = Inr c \<and> same_acceptor c a \<and>
      log_text (ac_log c) = log_text (ac_log a)"
    using r t by (simp add: fold_replay_log)
qed

theorem restart_restores_acceptor_witness:
  "\<exists>a b. acceptreq \<lparr>aa_instance = 1, aa_n = Prop 3 ''b'', aa_v = ''view''\<rparr> (acceptor_fresh ''a'' []) = (px_OK, True, a) \<and>
     acceptor_new False ''a'' [] (ac_log a) = Inr b \<and> ac_n_a b = Prop 3 ''b'' \<and> ac_v_a b = ''view''"
proof -
  let ?q = "\<lparr>aa_instance = 1, aa_n = Prop 3 ''b'', aa_v = ''view''\<rparr>"
  let ?a = "logaccept (aa_n ?q) (aa_v ?q) ((acceptor_fresh ''a'' [])\<lparr>ac_n_a := aa_n ?q, ac_v_a := aa_v ?q\<rparr>)"
  have acc: "acceptreq ?q (acceptor_fresh ''a'' []) = (px_OK, True, ?a)"
    by (simp add: acceptreq_def prop_greater_eq_def acceptor_fresh_def)
  have "acceptor_new False ''a'' [] [] = Inr (acceptor_fresh ''a'' [])"
    using logread_fresh [of "[]" "''a''"] by (simp add: acceptor_new_def)
  then have "reach acc_init acc_step (acceptor_fresh ''a'' [])"
    by (intro reach_init, unfold acc_init_def, intro exI [of _ False] exI [of _ "''a''"] exI [of _ "[]"]) simp
  moreover have "acc_step (acceptor_fresh ''a'' []) ?a"
    by (rule acc_accept [OF _ _ acc]) (simp_all add: is_text_word_def not_space_def is_space_def newline_def)
  ultimately have "reach acc_init acc_step ?a" by (rule reach_step)
  from restart_restores_acceptor [OF this, of "[]"] obtain b where
    "acceptor_new False (ac_me ?a) [] (ac_log ?a) = Inr b" "same_acceptor b ?a" by blast
  then show ?thesis
    by (intro exI [of _ ?a] exI [of _ b]) (simp add: acc, auto simp: same_acceptor_def same_prop_def logaccept_def acceptor_fresh_def)
qed

end
