(* ===== verification/Paxos_System.thy ===== *)
theory Paxos_System
  imports Paxos
begin

text \<open>
  One instance of Paxos among the nodes of a view: any number of nodes run the proposer of \<^verbatim>\<open>paxos.cc\<close>
  against the acceptors of the view.  A request that was sent is executed at most once, at any
  later time or never; its reply reaches the proposer while it waits for it or not at all, and
  every call may time out.  The invariant of the system is the one of the Paxos proof: a value that
  is accepted is safe at its number, hence the only one that can be chosen.
\<close>

section \<open>The system\<close>

text \<open>
  A call is known by the proposer, the position in its loop and the proposal number, which the
  reply carries back.
\<close>

datatype px_req =
    Req_Prepare string nat string preparearg
  | Req_Accept string nat string acceptarg
  | Req_Decide string string decidearg

datatype px_rep =
    Rep_Prepare string nat string prop_t prepareres
  | Rep_Accept string nat string prop_t bool

record px_sys =
  px_acc :: "string \<Rightarrow> acceptor"
  px_prop :: "string \<Rightarrow> proposer"
  px_reqs :: "px_req list"
  px_reps :: "px_rep list"

definition set_prop :: "string \<Rightarrow> proposer \<Rightarrow> px_sys \<Rightarrow> px_sys" where
  "set_prop p x s = s\<lparr>px_prop := (px_prop s)(p := x)\<rparr>"

definition set_acc :: "string \<Rightarrow> acceptor \<Rightarrow> px_sys \<Rightarrow> px_sys" where
  "set_acc y a s = s\<lparr>px_acc := (px_acc s)(y := a)\<rparr>"

definition px_send :: "px_req \<Rightarrow> px_sys \<Rightarrow> px_sys" where
  "px_send m s = s\<lparr>px_reqs := m # px_reqs s\<rparr>"

definition px_answer :: "px_req \<Rightarrow> px_rep list \<Rightarrow> px_sys \<Rightarrow> px_sys" where
  "px_answer m rs s = s\<lparr>px_reqs := remove1 m (px_reqs s), px_reps := rs @ px_reps s\<rparr>"

text \<open>
  The steps of instance \<open>i\<close> in the view \<open>nodes\<close>.  \<open>late\<close> says whether an accept request is also executed by
  an acceptor that has decided the instance.  Proposal numbers do not wrap around.
\<close>

inductive px_step :: "bool \<Rightarrow> u32 \<Rightarrow> string list \<Rightarrow> px_sys \<Rightarrow> px_sys \<Rightarrow> bool" for late i nodes where
  p_run: "run_begin i nodes newv (ac_n_h (px_acc s p)) (px_prop s p) = Some x \<Longrightarrow> newv \<noteq> [] \<Longrightarrow>
    pn (ac_n_h (px_acc s p)) < pn (ac_n_h (px_acc s p)) + 1 \<Longrightarrow> pn (pp_my_n (px_prop s p)) < pn (pp_my_n (px_prop s p)) + 1 \<Longrightarrow>
    px_step late i nodes s (set_prop p x s)"
| p_prepare_call: "x = px_prop s p \<Longrightarrow> pp_pc x = P_Prepare k False \<Longrightarrow> k < length (pp_cur_nodes x) \<Longrightarrow>
    px_step late i nodes s (px_send (Req_Prepare p k (pp_cur_nodes x ! k) (prepare_args x)) (set_prop p (x\<lparr>pp_pc := P_Prepare k True\<rparr>) s))"
| p_prepare_next: "x = px_prop s p \<Longrightarrow> pp_pc x = P_Prepare k waiting \<Longrightarrow> k < length (pp_cur_nodes x) \<Longrightarrow>
    px_step late i nodes s (set_prop p (x\<lparr>pp_pc := P_Prepare (k + 1) False\<rparr>) s)"
| p_prepare_reply: "x = px_prop s p \<Longrightarrow> pp_pc x = P_Prepare k True \<Longrightarrow> Rep_Prepare p k y (pp_my_n x) r \<in> set (px_reps s) \<Longrightarrow>
    prepare_reply y px_OK r x = Inr x' \<Longrightarrow> px_step late i nodes s (set_prop p (x'\<lparr>pp_pc := P_Prepare (k + 1) False\<rparr>) s)"
| p_prepare_old: "x = px_prop s p \<Longrightarrow> pp_pc x = P_Prepare k True \<Longrightarrow> Rep_Prepare p k y (pp_my_n x) r \<in> set (px_reps s) \<Longrightarrow>
    prepare_reply y px_OK r x = Inl v \<Longrightarrow> acceptor_commit (pp_instance x) v (px_acc s p) = (a, up) \<Longrightarrow>
    px_step late i nodes s (set_acc p a (set_prop p (run_finish False x) s))"
| p_prepared: "x = px_prop s p \<Longrightarrow> pp_pc x = P_Prepare (length (pp_cur_nodes x)) False \<Longrightarrow> run_prepared x = Inr x' \<Longrightarrow>
    px_step late i nodes s (set_prop p x' s)"
| p_accept_call: "x = px_prop s p \<Longrightarrow> pp_pc x = P_Accept k False \<Longrightarrow> k < length (pp_nodes x) \<Longrightarrow>
    px_step late i nodes s (px_send (Req_Accept p k (pp_nodes x ! k) (accept_args x)) (set_prop p (x\<lparr>pp_pc := P_Accept k True\<rparr>) s))"
| p_accept_next: "x = px_prop s p \<Longrightarrow> pp_pc x = P_Accept k waiting \<Longrightarrow> k < length (pp_nodes x) \<Longrightarrow>
    px_step late i nodes s (set_prop p (x\<lparr>pp_pc := P_Accept (k + 1) False\<rparr>) s)"
| p_accept_reply: "x = px_prop s p \<Longrightarrow> pp_pc x = P_Accept k True \<Longrightarrow> Rep_Accept p k y (pp_my_n x) ok \<in> set (px_reps s) \<Longrightarrow>
    px_step late i nodes s (set_prop p ((accept_reply y px_OK ok x)\<lparr>pp_pc := P_Accept (k + 1) False\<rparr>) s)"
| p_accepted: "x = px_prop s p \<Longrightarrow> pp_pc x = P_Accept (length (pp_nodes x)) False \<Longrightarrow> run_accepted x = Inr x' \<Longrightarrow>
    px_step late i nodes s (set_prop p x' s)"
| p_decide_call: "x = px_prop s p \<Longrightarrow> pp_pc x = P_Decide k False \<Longrightarrow> k < length (pp_accepts x) \<Longrightarrow>
    px_step late i nodes s (px_send (Req_Decide p (pp_accepts x ! k) (decide_args x)) (set_prop p (x\<lparr>pp_pc := P_Decide k True\<rparr>) s))"
| p_decide_next: "x = px_prop s p \<Longrightarrow> pp_pc x = P_Decide k waiting \<Longrightarrow> k < length (pp_accepts x) \<Longrightarrow>
    px_step late i nodes s (set_prop p (x\<lparr>pp_pc := P_Decide (k + 1) False\<rparr>) s)"
| p_decided: "x = px_prop s p \<Longrightarrow> pp_pc x = P_Decide (length (pp_accepts x)) False \<Longrightarrow>
    px_step late i nodes s (set_prop p (run_finish True x) s)"
| a_prepare: "Req_Prepare p k y q \<in> set (px_reqs s) \<Longrightarrow> preparereq q r (px_acc s y) = (ret, r', a) \<Longrightarrow>
    px_step late i nodes s (set_acc y a (px_answer (Req_Prepare p k y q) [Rep_Prepare p k y (pa_n q) r'] s))"
| a_accept: "Req_Accept p k y q \<in> set (px_reqs s) \<Longrightarrow> late \<or> ac_instance_h (px_acc s y) < aa_instance q \<Longrightarrow>
    acceptreq q (px_acc s y) = (ret, ok, a) \<Longrightarrow>
    px_step late i nodes s (set_acc y a (px_answer (Req_Accept p k y q) [Rep_Accept p k y (aa_n q) ok] s))"
| a_decide: "Req_Decide p y q \<in> set (px_reqs s) \<Longrightarrow> decidereq q (px_acc s y) = Inr (ret, a, up) \<Longrightarrow>
    px_step late i nodes s (set_acc y a (px_answer (Req_Decide p y q) [] s))"

text \<open>
  Before the instance: every acceptor has decided the one before and nothing of this one, and no
  proposer runs.  \<open>base y\<close> is the length of the log of \<open>y\<close> at that point.
\<close>

definition px_init :: "u32 \<Rightarrow> (string \<Rightarrow> nat) \<Rightarrow> px_sys \<Rightarrow> bool" where
  "px_init i base s \<longleftrightarrow> 0 < i \<and> px_reqs s = [] \<and> px_reps s = [] \<and>
     (\<forall>y. ac_instance_h (px_acc s y) + 1 = i \<and> pn (ac_n_h (px_acc s y)) = 0 \<and> pn (ac_n_a (px_acc s y)) = 0 \<and>
        ac_v_a (px_acc s y) = [] \<and> length (ac_log (px_acc s y)) = base y) \<and>
     (\<forall>p. pp_pc (px_prop s p) = P_Idle \<and> pp_stable (px_prop s p) \<and> pm (pp_my_n (px_prop s p)) = p)"

section \<open>History\<close>

text \<open>
  What an acceptor has promised and accepted in this instance is in its log.
\<close>

definition hist :: "(string \<Rightarrow> nat) \<Rightarrow> px_sys \<Rightarrow> string \<Rightarrow> log_rec set" where
  "hist base s y = set (drop (base y) (ac_log (px_acc s y)))"

type_synonym history = "string \<Rightarrow> log_rec set"

text \<open>A value is chosen when a majority has accepted it under one number.\<close>

definition chosen :: "history \<Rightarrow> string list \<Rightarrow> prop_t \<Rightarrow> string \<Rightarrow> bool" where
  "chosen H nodes n v \<longleftrightarrow> (\<exists>Q. majority nodes Q \<and> (\<forall>y \<in> set Q. Accepted n v \<in> H y))"

text \<open>
  A proposal is safe when a majority has promised its number, and its value is that of the highest
  proposal any of them had accepted below it, if there was one.
\<close>

definition safe_prop :: "history \<Rightarrow> string list \<Rightarrow> prop_t \<Rightarrow> string \<Rightarrow> bool" where
  "safe_prop H nodes n v \<longleftrightarrow> (\<exists>Q. majority nodes Q \<and> (\<forall>y \<in> set Q. Propseen n \<in> H y) \<and>
     ((\<forall>y \<in> set Q. \<forall>m w. Accepted m w \<in> H y \<longrightarrow> \<not> m < n) \<or>
      (\<exists>m < n. (\<exists>y \<in> set Q. Accepted m v \<in> H y) \<and> (\<forall>y \<in> set Q. \<forall>m' w. Accepted m' w \<in> H y \<and> m' < n \<longrightarrow> m' \<le> m))))"

text \<open>Logs only grow, and nothing is accepted below a promise.\<close>

definition grows :: "history \<Rightarrow> history \<Rightarrow> bool" where
  "grows H H' \<longleftrightarrow> (\<forall>y. H y \<subseteq> H' y \<and> (\<forall>n v b. Accepted n v \<in> H' y \<and> Accepted n v \<notin> H y \<and> Propseen b \<in> H y \<longrightarrow> b \<le> n))"

lemma grows_refl [simp]: "grows H H"
  by (auto simp: grows_def)

lemma grows_mem: "grows H H' \<Longrightarrow> r \<in> H y \<Longrightarrow> r \<in> H' y"
  by (auto simp: grows_def)

lemma grows_old: "grows H H' \<Longrightarrow> Propseen b \<in> H y \<Longrightarrow> Accepted n v \<in> H' y \<Longrightarrow> n < b \<Longrightarrow> Accepted n v \<in> H y"
  by (force simp: grows_def)

lemma chosen_grows: "grows H H' \<Longrightarrow> chosen H nodes n v \<Longrightarrow> chosen H' nodes n v"
  by (auto simp: chosen_def dest: grows_mem)

lemma safe_grows:
  assumes "grows H H'" and "safe_prop H nodes n v"
  shows "safe_prop H' nodes n v"
proof -
  from assms(2) obtain Q where Q: "majority nodes Q" "\<forall>y \<in> set Q. Propseen n \<in> H y"
    "(\<forall>y \<in> set Q. \<forall>m w. Accepted m w \<in> H y \<longrightarrow> \<not> m < n) \<or>
      (\<exists>m < n. (\<exists>y \<in> set Q. Accepted m v \<in> H y) \<and> (\<forall>y \<in> set Q. \<forall>m' w. Accepted m' w \<in> H y \<and> m' < n \<longrightarrow> m' \<le> m))"
    by (auto simp: safe_prop_def)
  have old: "Accepted m w \<in> H y" if "y \<in> set Q" "Accepted m w \<in> H' y" "m < n" for y m w
    using grows_old [OF assms(1)] Q(2) that by blast
  from Q(3) show ?thesis
  proof
    assume "\<forall>y \<in> set Q. \<forall>m w. Accepted m w \<in> H y \<longrightarrow> \<not> m < n"
    then show ?thesis unfolding safe_prop_def
      using Q(1,2) old grows_mem [OF assms(1)] by (intro exI [of _ Q]) blast
  next
    assume "\<exists>m < n. (\<exists>y \<in> set Q. Accepted m v \<in> H y) \<and> (\<forall>y \<in> set Q. \<forall>m' w. Accepted m' w \<in> H y \<and> m' < n \<longrightarrow> m' \<le> m)"
    then show ?thesis unfolding safe_prop_def
      using Q(1,2) old grows_mem [OF assms(1)] by (intro exI [of _ Q]) blast
  qed
qed

text \<open>
  The heart of the argument: when every accepted proposal is safe and a number belongs to one
  value, an accepted proposal with a higher number than a chosen one has its value.
\<close>

lemma chosen_stays:
  assumes fin: "finite {n. \<exists>y v. Accepted n v \<in> H y}"
    and safe: "\<And>y n v. Accepted n v \<in> H y \<Longrightarrow> safe_prop H nodes n v"
    and uniq: "\<And>y z n v w. Accepted n v \<in> H y \<Longrightarrow> Accepted n w \<in> H z \<Longrightarrow> v = w"
    and ch: "chosen H nodes b v"
  shows "Accepted n w \<in> H y \<Longrightarrow> b \<le> n \<Longrightarrow> w = v"
proof (induction "card {m. (\<exists>y v. Accepted m v \<in> H y) \<and> m < n}" arbitrary: n w y rule: less_induct)
  case less
  from ch obtain C where C: "majority nodes C" "\<forall>y \<in> set C. Accepted b v \<in> H y" by (auto simp: chosen_def)
  show ?case
  proof (cases "n = b")
    case True
    from majorities_meet [OF C(1) C(1)] obtain z where "Accepted b v \<in> H z" using C(2) by blast
    with less.prems(1) True show ?thesis using uniq by blast
  next
    case False
    then have bn: "b < n" using less.prems(2) by simp
    from safe [OF less.prems(1)] obtain Q where Q: "majority nodes Q"
      "(\<forall>y \<in> set Q. \<forall>m w. Accepted m w \<in> H y \<longrightarrow> \<not> m < n) \<or>
       (\<exists>m < n. (\<exists>y \<in> set Q. Accepted m w \<in> H y) \<and> (\<forall>y \<in> set Q. \<forall>m' w. Accepted m' w \<in> H y \<and> m' < n \<longrightarrow> m' \<le> m))"
      by (auto simp: safe_prop_def)
    from majorities_meet [OF C(1) Q(1)] obtain z where z: "z \<in> set Q" "Accepted b v \<in> H z" using C(2) by blast
    with Q(2) bn obtain m x where m: "m < n" "Accepted m w \<in> H x" "b \<le> m" by blast
    have "{k. (\<exists>y v. Accepted k v \<in> H y) \<and> k < m} \<subset> {k. (\<exists>y v. Accepted k v \<in> H y) \<and> k < n}" using m(1,2) by fastforce
    then have "card {k. (\<exists>y v. Accepted k v \<in> H y) \<and> k < m} < card {k. (\<exists>y v. Accepted k v \<in> H y) \<and> k < n}"
      using fin by (intro psubset_card_mono) auto
    from less.hyps [OF this m(2,3)] show ?thesis .
  qed
qed

section \<open>The invariant\<close>

definition promise_ok :: "history \<Rightarrow> prop_t \<Rightarrow> string \<Rightarrow> prepareres \<Rightarrow> bool" where
  "promise_ok H b y r \<longleftrightarrow> Propseen b \<in> H y \<and> (\<forall>n v. Accepted n v \<in> H y \<and> n < b \<longrightarrow> n \<le> pr_n_a r) \<and>
     (Accepted (pr_n_a r) (pr_v_a r) \<in> H y \<and> pr_n_a r < b \<or> pn (pr_n_a r) = 0 \<and> pr_v_a r = [])"

fun req_ok :: "history \<Rightarrow> string list \<Rightarrow> u32 \<Rightarrow> px_req \<Rightarrow> bool" where
  "req_ok H nodes i (Req_Prepare p k y q) \<longleftrightarrow> pa_instance q = i \<and> y \<in> set nodes \<and> pn (pa_n q) \<noteq> 0"
| "req_ok H nodes i (Req_Accept p k y q) \<longleftrightarrow> aa_instance q = i \<and> y \<in> set nodes \<and> Propseen (aa_n q) \<in> H y"
| "req_ok H nodes i (Req_Decide p y q) \<longleftrightarrow> da_instance q = i \<and> (\<exists>b. chosen H nodes b (da_v q) \<and> Accepted b (da_v q) \<in> H y)"

fun rep_ok :: "history \<Rightarrow> string list \<Rightarrow> px_rep \<Rightarrow> bool" where
  "rep_ok H nodes (Rep_Prepare p k y b r) \<longleftrightarrow> y \<in> set nodes \<and> (pr_oldinstance r \<longrightarrow> (\<exists>n. chosen H nodes n (pr_v_a r))) \<and>
     (\<not> pr_oldinstance r \<and> pr_accept r \<longrightarrow> promise_ok H b y r)"
| "rep_ok H nodes (Rep_Accept p k y b ok) \<longleftrightarrow> (ok \<longrightarrow> (\<exists>v. Accepted b v \<in> H y))"

definition acc_ok :: "history \<Rightarrow> string list \<Rightarrow> u32 \<Rightarrow> string \<Rightarrow> acceptor \<Rightarrow> bool" where
  "acc_ok H nodes i y a \<longleftrightarrow>
     ac_instance_h a + 1 = i \<and> (\<forall>b. Propseen b \<in> H y \<longrightarrow> b \<le> ac_n_h a) \<and>
       (\<forall>n v. Accepted n v \<in> H y \<longrightarrow> Propseen n \<in> H y \<and> n \<le> ac_n_a a) \<and>
       (Accepted (ac_n_a a) (ac_v_a a) \<in> H y \<or> pn (ac_n_a a) = 0 \<and> ac_v_a a = []) \<or>
     ac_instance_h a = i \<and> (\<exists>n w. map_of (ac_values a) i = Some w \<and> chosen H nodes n w)"

definition running_ok :: "string list \<Rightarrow> u32 \<Rightarrow> proposer \<Rightarrow> bool" where
  "running_ok nodes i x \<longleftrightarrow> pp_instance x = i \<and> pp_cur_nodes x = nodes \<and> pp_newv x \<noteq> [] \<and> pn (pp_my_n x) \<noteq> 0 \<and> \<not> pp_stable x"

definition prep_ok :: "history \<Rightarrow> string list \<Rightarrow> proposer \<Rightarrow> bool" where
  "prep_ok H nodes x \<longleftrightarrow>
     (\<forall>y \<in> set (pp_accepts x). y \<in> set nodes \<and> Propseen (pp_my_n x) \<in> H y \<and>
        (\<forall>n v. Accepted n v \<in> H y \<and> n < pp_my_n x \<longrightarrow> n \<le> pp_highest x)) \<and>
     (pn (pp_highest x) = 0 \<and> pp_v x = [] \<or>
      pp_highest x < pp_my_n x \<and> (\<exists>y \<in> set (pp_accepts x). Accepted (pp_highest x) (pp_v x) \<in> H y))"

definition pro_ok :: "history \<Rightarrow> string list \<Rightarrow> u32 \<Rightarrow> string \<Rightarrow> proposer \<Rightarrow> bool" where
  "pro_ok H nodes i p x \<longleftrightarrow> pm (pp_my_n x) = p \<and>
     (case pp_pc x of
        P_Idle \<Rightarrow> True
      | P_Prepare k w \<Rightarrow> running_ok nodes i x \<and> prep_ok H nodes x
      | P_Accept k w \<Rightarrow> running_ok nodes i x \<and> (\<forall>y \<in> set (pp_nodes x). y \<in> set nodes \<and> Propseen (pp_my_n x) \<in> H y) \<and>
          (\<forall>y \<in> set (pp_accepts x). Accepted (pp_my_n x) (pp_v x) \<in> H y)
      | P_Decide k w \<Rightarrow> running_ok nodes i x \<and> majority nodes (pp_accepts x) \<and>
          (\<forall>y \<in> set (pp_accepts x). Accepted (pp_my_n x) (pp_v x) \<in> H y))"

text \<open>Proposals: accepted, requested, or about to be requested.\<close>

definition proposing :: "proposer \<Rightarrow> bool" where
  "proposing x \<longleftrightarrow> (case pp_pc x of P_Accept k w \<Rightarrow> True | P_Decide k w \<Rightarrow> True | _ \<Rightarrow> False)"

definition preparing :: "proposer \<Rightarrow> bool" where
  "preparing x \<longleftrightarrow> (case pp_pc x of P_Prepare k w \<Rightarrow> True | _ \<Rightarrow> False)"

definition proposal :: "history \<Rightarrow> px_sys \<Rightarrow> prop_t \<Rightarrow> string \<Rightarrow> bool" where
  "proposal H s n v \<longleftrightarrow> (\<exists>y. Accepted n v \<in> H y) \<or>
     (\<exists>p k y q. Req_Accept p k y q \<in> set (px_reqs s) \<and> aa_n q = n \<and> aa_v q = v) \<or>
     (\<exists>p. proposing (px_prop s p) \<and> pp_my_n (px_prop s p) = n \<and> pp_v (px_prop s p) = v)"

definition proposals_ok :: "history \<Rightarrow> string list \<Rightarrow> px_sys \<Rightarrow> bool" where
  "proposals_ok H nodes s \<longleftrightarrow>
     (\<forall>n v w. proposal H s n v \<and> proposal H s n w \<longrightarrow> v = w) \<and>
     (\<forall>n v. proposal H s n v \<longrightarrow> safe_prop H nodes n v \<and> v \<noteq> [] \<and> pn n \<noteq> 0 \<and> pn n \<le> pn (pp_my_n (px_prop s (pm n)))) \<and>
     (\<forall>p v. preparing (px_prop s p) \<longrightarrow> \<not> proposal H s (pp_my_n (px_prop s p)) v)"

definition px_inv :: "u32 \<Rightarrow> string list \<Rightarrow> (string \<Rightarrow> nat) \<Rightarrow> px_sys \<Rightarrow> bool" where
  "px_inv i nodes base s \<longleftrightarrow> 0 < i \<and> (\<forall>y. base y \<le> length (ac_log (px_acc s y))) \<and>
     (\<forall>y. acc_ok (hist base s) nodes i y (px_acc s y)) \<and> (\<forall>m \<in> set (px_reqs s). req_ok (hist base s) nodes i m) \<and>
     (\<forall>m \<in> set (px_reps s). rep_ok (hist base s) nodes m) \<and> (\<forall>p. pro_ok (hist base s) nodes i p (px_prop s p)) \<and>
     (\<forall>y n v. Accepted n v \<in> hist base s y \<longrightarrow> y \<in> set nodes) \<and> proposals_ok (hist base s) nodes s"

text \<open>What is known stays known while the logs grow.\<close>

lemma promise_grows: "grows H H' \<Longrightarrow> promise_ok H b y r \<Longrightarrow> promise_ok H' b y r"
  unfolding promise_ok_def using grows_mem grows_old by blast

lemma req_grows: "grows H H' \<Longrightarrow> req_ok H nodes i m \<Longrightarrow> req_ok H' nodes i m"
  by (cases m) (auto dest: grows_mem chosen_grows)

lemma rep_grows: "grows H H' \<Longrightarrow> rep_ok H nodes m \<Longrightarrow> rep_ok H' nodes m"
  by (cases m) (auto dest: grows_mem chosen_grows promise_grows)

lemma prep_grows: "grows H H' \<Longrightarrow> prep_ok H nodes x \<Longrightarrow> prep_ok H' nodes x"
  unfolding prep_ok_def using grows_mem grows_old by blast

lemma pro_grows: "grows H H' \<Longrightarrow> pro_ok H nodes i p x \<Longrightarrow> pro_ok H' nodes i p x"
  by (auto simp: pro_ok_def prep_grows split: ppc.splits dest: grows_mem)

lemma acc_grows: "grows H H' \<Longrightarrow> H' y = H y \<Longrightarrow> acc_ok H nodes i y a \<Longrightarrow> acc_ok H' nodes i y a"
  by (auto simp: acc_ok_def dest: chosen_grows)

lemma proposals_keep:
  assumes "proposals_ok H nodes s" and g: "grows H H'"
    and sub: "\<And>n v. proposal H' s' n v \<Longrightarrow> proposal H s n v"
    and mon: "\<And>p. pn (pp_my_n (px_prop s p)) \<le> pn (pp_my_n (px_prop s' p))"
    and pre: "\<And>p. preparing (px_prop s' p) \<Longrightarrow> preparing (px_prop s p) \<and> pp_my_n (px_prop s' p) = pp_my_n (px_prop s p) \<or>
      (\<forall>v. \<not> proposal H s (pp_my_n (px_prop s' p)) v)"
  shows "proposals_ok H' nodes s'"
  unfolding proposals_ok_def
proof (intro conjI allI impI)
  show "v = w" if "proposal H' s' n v \<and> proposal H' s' n w" for n v w
    using that sub assms(1) unfolding proposals_ok_def by blast
  fix n v assume p: "proposal H' s' n v"
  have old: "safe_prop H nodes n v" "v \<noteq> []" "pn n \<noteq> 0" "pn n \<le> pn (pp_my_n (px_prop s (pm n)))"
    using sub [OF p] assms(1) by (auto simp: proposals_ok_def)
  show "safe_prop H' nodes n v" using safe_grows [OF g old(1)] .
  show "v \<noteq> []" "pn n \<noteq> 0" by fact+
  show "pn n \<le> pn (pp_my_n (px_prop s' (pm n)))" using old(4) mon [of "pm n"] by (rule order_trans)
next
  show "\<not> proposal H' s' (pp_my_n (px_prop s' p)) v" if "preparing (px_prop s' p)" for p v
    using pre [OF that] sub assms(1) unfolding proposals_ok_def by metis
qed

lemma px_inv_change:
  assumes inv: "px_inv i nodes base s" and g: "grows (hist base s) (hist base s')"
    and acc: "\<And>y. px_acc s' y = px_acc s y \<or> base y \<le> length (ac_log (px_acc s' y)) \<and> acc_ok (hist base s') nodes i y (px_acc s' y)"
    and req: "\<And>m. m \<in> set (px_reqs s') \<Longrightarrow> m \<in> set (px_reqs s) \<or> req_ok (hist base s') nodes i m"
    and rep: "\<And>m. m \<in> set (px_reps s') \<Longrightarrow> m \<in> set (px_reps s) \<or> rep_ok (hist base s') nodes m"
    and pro: "\<And>p. px_prop s' p = px_prop s p \<or> pro_ok (hist base s') nodes i p (px_prop s' p)"
    and new: "\<And>y n v. Accepted n v \<in> hist base s' y \<Longrightarrow> Accepted n v \<in> hist base s y \<or> y \<in> set nodes"
    and props: "proposals_ok (hist base s') nodes s'"
  shows "px_inv i nodes base s'"
  unfolding px_inv_def
proof (intro conjI allI impI ballI)
  fix y
  show "base y \<le> length (ac_log (px_acc s' y))" using acc [of y] inv by (auto simp: px_inv_def)
  show "acc_ok (hist base s') nodes i y (px_acc s' y)"
    using acc [of y]
  proof
    assume e: "px_acc s' y = px_acc s y"
    then have "hist base s' y = hist base s y" by (simp add: hist_def)
    then show ?thesis using acc_grows [OF g] inv e by (simp add: px_inv_def)
  qed simp
  show "pro_ok (hist base s') nodes i p (px_prop s' p)" for p
    using pro [of p] pro_grows [OF g] inv by (auto simp: px_inv_def)
  show "y \<in> set nodes" if "Accepted n v \<in> hist base s' y" for n v
    using new [OF that] inv unfolding px_inv_def by blast
next
  show "req_ok (hist base s') nodes i m" if "m \<in> set (px_reqs s')" for m
    using req [OF that] req_grows [OF g] inv by (auto simp: px_inv_def)
  show "rep_ok (hist base s') nodes m" if "m \<in> set (px_reps s')" for m
    using rep [OF that] rep_grows [OF g] inv by (auto simp: px_inv_def)
qed (use props inv in \<open>simp_all add: px_inv_def\<close>)

section \<open>Steps of a proposer\<close>

lemma hist_same: "px_acc s' = px_acc s \<Longrightarrow> hist base s' = hist base s"
  by (simp add: hist_def fun_eq_iff)

lemma px_sel [simp]:
  "px_acc (set_prop p x s) = px_acc s" "px_reqs (set_prop p x s) = px_reqs s" "px_reps (set_prop p x s) = px_reps s"
  "px_prop (set_prop p x s) = (px_prop s)(p := x)"
  "px_acc (set_acc y a s) = (px_acc s)(y := a)" "px_reqs (set_acc y a s) = px_reqs s" "px_reps (set_acc y a s) = px_reps s"
  "px_prop (set_acc y a s) = px_prop s"
  "px_acc (px_send m s) = px_acc s" "px_reqs (px_send m s) = m # px_reqs s" "px_reps (px_send m s) = px_reps s" "px_prop (px_send m s) = px_prop s"
  "px_acc (px_answer m rs s) = px_acc s" "px_reqs (px_answer m rs s) = remove1 m (px_reqs s)" "px_reps (px_answer m rs s) = rs @ px_reps s"
  "px_prop (px_answer m rs s) = px_prop s"
  by (simp_all add: set_prop_def set_acc_def px_send_def px_answer_def)

lemma proposal_vote: "Accepted n v \<in> H y \<Longrightarrow> proposal H s n v"
  by (auto simp: proposal_def)

lemma proposal_req: "Req_Accept p k y q \<in> set (px_reqs s) \<Longrightarrow> proposal H s (aa_n q) (aa_v q)"
  by (auto simp: proposal_def)

lemma proposal_pro: "proposing (px_prop s p) \<Longrightarrow> proposal H s (pp_my_n (px_prop s p)) (pp_v (px_prop s p))"
  by (auto simp: proposal_def)

lemma prop_step:
  assumes inv: "px_inv i nodes base s" and x: "x = px_prop s p"
    and s': "px_acc s' = px_acc s" "px_prop s' = (px_prop s)(p := x')" "px_reps s' = px_reps s"
    and reqs: "\<And>m. m \<in> set (px_reqs s') \<Longrightarrow> m \<in> set (px_reqs s) \<or> req_ok (hist base s) nodes i m \<and>
      (\<forall>p' k y q. m = Req_Accept p' k y q \<longrightarrow> proposing x \<and> aa_n q = pp_my_n x \<and> aa_v q = pp_v x)"
    and ok: "pro_ok (hist base s) nodes i p x'" and n: "pp_my_n x' = pp_my_n x"
    and pre: "preparing x' \<Longrightarrow> preparing x" and pro: "proposing x' \<Longrightarrow> proposing x \<and> pp_v x' = pp_v x"
  shows "px_inv i nodes base s'"
proof (rule px_inv_change [OF inv])
  have h: "hist base s' = hist base s" using s'(1) by (rule hist_same)
  show "proposals_ok (hist base s') nodes s'"
  proof (rule proposals_keep)
    show "proposals_ok (hist base s) nodes s" using inv by (simp add: px_inv_def)
    fix m v assume "proposal (hist base s') s' m v"
    then consider (vote) y where "Accepted m v \<in> hist base s y"
      | (req) p' k y q where "Req_Accept p' k y q \<in> set (px_reqs s')" "aa_n q = m" "aa_v q = v"
      | (pro) p' where "proposing (px_prop s' p')" "pp_my_n (px_prop s' p') = m" "pp_v (px_prop s' p') = v"
      unfolding proposal_def h by blast
    then show "proposal (hist base s) s m v"
    proof cases
      case vote
      then show ?thesis by (rule proposal_vote)
    next
      case req
      then show ?thesis using reqs [OF req(1)] proposal_req proposal_pro [of s p] x by fastforce
    next
      case pro
      then show ?thesis using assms(9) n x s'(2) proposal_pro [of s p'] proposal_pro [of s p] assms(10) by (cases "p' = p") auto
    qed
  qed (use s' n pre x h in auto)
qed (use s' reqs ok hist_same [OF s'(1), of base] in auto)

lemma px_inv_pro: "px_inv i nodes base s \<Longrightarrow> pro_ok (hist base s) nodes i p (px_prop s p)"
  by (simp add: px_inv_def)

lemma px_inv_rep: "px_inv i nodes base s \<Longrightarrow> m \<in> set (px_reps s) \<Longrightarrow> rep_ok (hist base s) nodes m"
  by (simp add: px_inv_def)

lemmas pc_defs = pro_ok_def running_ok_def prep_ok_def preparing_def proposing_def

lemma p_prepare_call_inv:
  assumes inv: "px_inv i nodes base s" and x: "x = px_prop s p" "pp_pc x = P_Prepare k False" "k < length (pp_cur_nodes x)"
  shows "px_inv i nodes base (px_send (Req_Prepare p k (pp_cur_nodes x ! k) (prepare_args x)) (set_prop p (x\<lparr>pp_pc := P_Prepare k True\<rparr>) s))"
  by (rule prop_step [where x' = "x\<lparr>pp_pc := P_Prepare k True\<rparr>", OF inv x(1)]) (use px_inv_pro [OF inv, of p] x in \<open>auto simp: pc_defs prepare_args_def\<close>)

lemma p_prepare_next_inv:
  assumes inv: "px_inv i nodes base s" and x: "x = px_prop s p" "pp_pc x = P_Prepare k w"
  shows "px_inv i nodes base (set_prop p (x\<lparr>pp_pc := P_Prepare k' False\<rparr>) s)"
  by (rule prop_step [where x' = "x\<lparr>pp_pc := P_Prepare k' False\<rparr>", OF inv x(1)]) (use px_inv_pro [OF inv, of p] x in \<open>auto simp: pc_defs\<close>)

lemma p_prepare_reply_inv:
  assumes inv: "px_inv i nodes base s" and x: "x = px_prop s p" "pp_pc x = P_Prepare k True"
    and r: "Rep_Prepare p k y (pp_my_n x) r \<in> set (px_reps s)" "prepare_reply y px_OK r x = Inr x'"
  shows "px_inv i nodes base (set_prop p (x'\<lparr>pp_pc := P_Prepare k' False\<rparr>) s)"
proof (cases "pr_accept r")
  case True
  let ?H = "hist base s" and ?x = "x'\<lparr>pp_pc := P_Prepare k' False\<rparr>"
  have old: "\<not> pr_oldinstance r" using r(2) by (auto simp: prepare_reply_def split: if_splits)
  have pr: "promise_ok ?H (pp_my_n x) y r" "y \<in> set nodes" using px_inv_rep [OF inv r(1)] True old by simp_all
  have ok: "running_ok nodes i x" "prep_ok ?H nodes x" "pm (pp_my_n x) = p" using px_inv_pro [OF inv, of p] x by (auto simp: pro_ok_def)
  have x': "x' = (if pp_highest x < pr_n_a r then x\<lparr>pp_highest := pr_n_a r, pp_v := pr_v_a r, pp_accepts := pp_accepts x @ [y]\<rparr>
      else x\<lparr>pp_accepts := pp_accepts x @ [y]\<rparr>)"
    using r(2) True old by (auto simp: prepare_reply_def prop_order Let_def split: if_splits)
  have "prep_ok ?H nodes ?x"
  proof (cases "pp_highest x < pr_n_a r")
    case True
    have "n \<le> pr_n_a r" if "z \<in> set (pp_accepts x)" "Accepted n v \<in> ?H z" "n < pp_my_n x" for z n v
      using ok(2) that True unfolding prep_ok_def by (meson less_imp_le order_trans)
    with pr ok(2) True show ?thesis by (auto simp: prep_ok_def x' promise_ok_def)
  next
    case False
    have "n \<le> pp_highest x" if "Accepted n v \<in> ?H y" "n < pp_my_n x" for n v
      using pr(1) that False unfolding promise_ok_def by (meson linorder_not_less order_trans)
    with pr ok(2) False show ?thesis by (auto simp: prep_ok_def x' promise_ok_def)
  qed
  then have "pro_ok ?H nodes i p ?x" using ok by (simp add: pro_ok_def running_ok_def x')
  then show ?thesis by (intro prop_step [where x' = "x'\<lparr>pp_pc := P_Prepare k' False\<rparr>", OF inv x(1)]) (use x x' in \<open>auto simp: preparing_def proposing_def\<close>)
next
  case False
  then have "x' = x" using r(2) by (auto simp: prepare_reply_def split: if_splits)
  with p_prepare_next_inv [OF inv x] show ?thesis by simp
qed

lemma p_accept_call_inv:
  assumes inv: "px_inv i nodes base s" and x: "x = px_prop s p" "pp_pc x = P_Accept k False" "k < length (pp_nodes x)"
  shows "px_inv i nodes base (px_send (Req_Accept p k (pp_nodes x ! k) (accept_args x)) (set_prop p (x\<lparr>pp_pc := P_Accept k True\<rparr>) s))"
  by (rule prop_step [where x' = "x\<lparr>pp_pc := P_Accept k True\<rparr>", OF inv x(1)]) (use px_inv_pro [OF inv, of p] x in \<open>auto simp: pc_defs accept_args_def\<close>)

lemma p_accept_next_inv:
  assumes inv: "px_inv i nodes base s" and x: "x = px_prop s p" "pp_pc x = P_Accept k w"
  shows "px_inv i nodes base (set_prop p (x\<lparr>pp_pc := P_Accept k' False\<rparr>) s)"
  by (rule prop_step [where x' = "x\<lparr>pp_pc := P_Accept k' False\<rparr>", OF inv x(1)]) (use px_inv_pro [OF inv, of p] x in \<open>auto simp: pc_defs\<close>)

lemma px_uniq: "px_inv i nodes base s \<Longrightarrow> proposal (hist base s) s n v \<Longrightarrow> proposal (hist base s) s n w \<Longrightarrow> v = w"
  unfolding px_inv_def proposals_ok_def by blast

lemma p_accept_reply_inv:
  assumes inv: "px_inv i nodes base s" and x: "x = px_prop s p" "pp_pc x = P_Accept k True"
    and r: "Rep_Accept p k y (pp_my_n x) ok \<in> set (px_reps s)"
  shows "px_inv i nodes base (set_prop p ((accept_reply y px_OK ok x)\<lparr>pp_pc := P_Accept k' False\<rparr>) s)"
proof (cases ok)
  case True
  with px_inv_rep [OF inv r] obtain v where v: "Accepted (pp_my_n x) v \<in> hist base s y" by auto
  have "proposing x" using x(2) by (simp add: proposing_def)
  then have "v = pp_v x" using px_uniq [OF inv proposal_vote [where H = "hist base s", OF v]] proposal_pro [of s p] x(1) by blast
  with v True show ?thesis
    by (intro prop_step [where x' = "(accept_reply y px_OK ok x)\<lparr>pp_pc := P_Accept k' False\<rparr>", OF inv x(1)]) (use px_inv_pro [OF inv, of p] x in \<open>auto simp: pc_defs accept_reply_def\<close>)
next
  case False
  then show ?thesis using p_accept_next_inv [OF inv x] by (simp add: accept_reply_def)
qed

lemma p_accepted_inv:
  assumes inv: "px_inv i nodes base s" and x: "x = px_prop s p" "pp_pc x = P_Accept k w" "run_accepted x = Inr x'"
  shows "px_inv i nodes base (set_prop p x' s)"
  by (rule prop_step [where x' = "x'", OF inv x(1)])
    (use px_inv_pro [OF inv, of p] x in \<open>auto simp: pc_defs run_accepted_def run_finish_def split: if_splits\<close>)

lemma p_decide_call_inv:
  assumes inv: "px_inv i nodes base s" and x: "x = px_prop s p" "pp_pc x = P_Decide k False" "k < length (pp_accepts x)"
  shows "px_inv i nodes base (px_send (Req_Decide p (pp_accepts x ! k) (decide_args x)) (set_prop p (x\<lparr>pp_pc := P_Decide k True\<rparr>) s))"
proof (rule prop_step [where x' = "x\<lparr>pp_pc := P_Decide k True\<rparr>", OF inv x(1)])
  have ok: "running_ok nodes i x" "majority nodes (pp_accepts x)" "\<forall>y \<in> set (pp_accepts x). Accepted (pp_my_n x) (pp_v x) \<in> hist base s y"
    using px_inv_pro [OF inv, of p] x by (auto simp: pro_ok_def)
  then have "chosen (hist base s) nodes (pp_my_n x) (pp_v x)" by (auto simp: chosen_def)
  then have "req_ok (hist base s) nodes i (Req_Decide p (pp_accepts x ! k) (decide_args x))"
    using ok x(3) by (auto simp: decide_args_def running_ok_def)
  then show "m \<in> set (px_reqs s) \<or> req_ok (hist base s) nodes i m \<and>
      (\<forall>p' k y q. m = Req_Accept p' k y q \<longrightarrow> proposing x \<and> aa_n q = pp_my_n x \<and> aa_v q = pp_v x)"
    if "m \<in> set (px_reqs (px_send (Req_Decide p (pp_accepts x ! k) (decide_args x)) (set_prop p (x\<lparr>pp_pc := P_Decide k True\<rparr>) s)))" for m
    using that by auto
qed (use px_inv_pro [OF inv, of p] x in \<open>auto simp: pc_defs\<close>)

lemma p_decide_next_inv:
  assumes inv: "px_inv i nodes base s" and x: "x = px_prop s p" "pp_pc x = P_Decide k w"
  shows "px_inv i nodes base (set_prop p (x\<lparr>pp_pc := P_Decide k' False\<rparr>) s)"
  by (rule prop_step [where x' = "x\<lparr>pp_pc := P_Decide k' False\<rparr>", OF inv x(1)]) (use px_inv_pro [OF inv, of p] x in \<open>auto simp: pc_defs\<close>)

lemma p_decided_inv:
  assumes inv: "px_inv i nodes base s" and x: "x = px_prop s p"
  shows "px_inv i nodes base (set_prop p (run_finish True x) s)"
  by (rule prop_step [where x' = "run_finish True x", OF inv x]) (use px_inv_pro [OF inv, of p] x in \<open>auto simp: pc_defs run_finish_def\<close>)

lemma px_bound: "px_inv i nodes base s \<Longrightarrow> proposal (hist base s) s n v \<Longrightarrow>
    safe_prop (hist base s) nodes n v \<and> v \<noteq> [] \<and> pn n \<noteq> 0 \<and> pn n \<le> pn (pp_my_n (px_prop s (pm n)))"
  unfolding px_inv_def proposals_ok_def by blast

lemma p_run_inv:
  assumes inv: "px_inv i nodes base s" and run: "run_begin i nodes newv (ac_n_h (px_acc s p)) (px_prop s p) = Some x" "newv \<noteq> []"
    and wrap: "pn (ac_n_h (px_acc s p)) < pn (ac_n_h (px_acc s p)) + 1" "pn (pp_my_n (px_prop s p)) < pn (pp_my_n (px_prop s p)) + 1"
  shows "px_inv i nodes base (set_prop p x s)"
proof (rule px_inv_change [OF inv])
  let ?o = "px_prop s p" and ?H = "hist base s"
  have h: "hist base (set_prop p x s) = ?H" by (rule hist_same) simp
  have x: "pm (pp_my_n x) = p" "pp_pc x = P_Prepare 0 False" "pp_accepts x = []" "pp_v x = []" "pp_highest x = Prop 0 []"
    "pp_instance x = i" "pp_cur_nodes x = nodes" "pp_newv x = newv" "\<not> pp_stable x"
    using run px_inv_pro [OF inv, of p] by (auto simp: run_begin_def setn_def pro_ok_def split: if_splits)
  have gt: "pn (pp_my_n ?o) < pn (pp_my_n x)" using run(1) wrap by (auto simp: run_begin_def setn_def split: if_splits)
  then have "pn (pp_my_n x) \<noteq> 0" by auto
  then show "px_prop (set_prop p x s) q = px_prop s q \<or> pro_ok (hist base (set_prop p x s)) nodes i q (px_prop (set_prop p x s) q)" for q
    using x run(2) by (simp add: h pro_ok_def running_ok_def prep_ok_def)
  have no: "\<not> proposal ?H s (pp_my_n x) v" for v
    using px_bound [OF inv, of "pp_my_n x" v] x(1) gt by auto
  show "proposals_ok (hist base (set_prop p x s)) nodes (set_prop p x s)"
  proof (rule proposals_keep)
    show "proposals_ok ?H nodes s" using inv by (simp add: px_inv_def)
    show "proposal ?H s m v" if "proposal (hist base (set_prop p x s)) (set_prop p x s) m v" for m v
      using that x(2) unfolding proposal_def h by (auto simp: proposing_def split: if_splits)
  qed (use no gt h in auto)
qed (auto simp: hist_same [of "set_prop p x s" s])

lemma ex_upd: "\<not> P (f a) \<Longrightarrow> (\<exists>b. P ((f(a := x)) b)) \<longleftrightarrow> P x \<or> (\<exists>b. P (f b))"
  by auto

lemma p_prepared_inv:
  assumes inv: "px_inv i nodes base s" and x: "x = px_prop s p" "pp_pc x = P_Prepare k w" "run_prepared x = Inr x'"
  shows "px_inv i nodes base (set_prop p x' s)"
proof (cases "majority (pp_cur_nodes x) (pp_accepts x)")
  case False
  then have "x' = run_finish False x" using x(3) by (simp add: run_prepared_def)
  then show ?thesis
    by (intro prop_step [where x' = x', OF inv x(1)]) (use px_inv_pro [OF inv, of p] x in \<open>auto simp: pc_defs run_finish_def\<close>)
next
  case True
  let ?H = "hist base s" and ?v = "if pp_v x = [] then pp_newv x else pp_v x"
  have x': "x' = x\<lparr>pp_v := ?v, pp_nodes := pp_accepts x, pp_accepts := [], pp_pc := P_Accept 0 False\<rparr>"
    using x(3) True by (auto simp: run_prepared_def Let_def split: if_splits)
  have ok: "running_ok nodes i x" "prep_ok ?H nodes x" "pm (pp_my_n x) = p" using px_inv_pro [OF inv, of p] x by (auto simp: pro_ok_def)
  have maj: "majority nodes (pp_accepts x)" using True ok(1) by (simp add: running_ok_def)
  have vote: "w \<noteq> [] \<and> pn n \<noteq> 0" if "Accepted n w \<in> ?H y" for n w y
    using px_bound [OF inv proposal_vote [where H = ?H, OF that]] by simp
  have safe: "safe_prop ?H nodes (pp_my_n x) ?v"
  proof (cases "pp_v x = []")
    case True
    then have "pn (pp_highest x) = 0" using ok(2) vote unfolding prep_ok_def by metis
    then have "\<not> n < pp_my_n x" if "y \<in> set (pp_accepts x)" "Accepted n w \<in> ?H y" for y n w
      using ok(2) that vote [OF that(2)] prop_le_pn [of n "pp_highest x"] unfolding prep_ok_def by (metis word_le_0_iff)
    then show ?thesis unfolding safe_prop_def
      using maj ok(2) by (intro exI [of _ "pp_accepts x"]) (auto simp: prep_ok_def)
  next
    case False
    then have "pp_highest x < pp_my_n x" "\<exists>y \<in> set (pp_accepts x). Accepted (pp_highest x) (pp_v x) \<in> ?H y"
      using ok(2) by (auto simp: prep_ok_def)
    then show ?thesis unfolding safe_prop_def
      using maj ok(2) False by (intro exI [of _ "pp_accepts x"] conjI disjI2 exI [of _ "pp_highest x"]) (auto simp: prep_ok_def)
  qed
  have "preparing x" using x(2) by (simp add: preparing_def)
  then have none: "\<not> proposal ?H s (pp_my_n x) u" for u using inv x(1) unfolding px_inv_def proposals_ok_def by blast
  have h: "hist base (set_prop p x' s) = ?H" by (rule hist_same) simp
  have props: "proposal ?H (set_prop p x' s) n u \<longleftrightarrow> proposal ?H s n u \<or> n = pp_my_n x \<and> u = ?v" for n u
  proof -
    have np: "\<not> proposing (px_prop s p)" using x(1,2) by (simp add: proposing_def)
    have nw: "proposing x'" "pp_my_n x' = pp_my_n x" "pp_v x' = ?v" by (simp_all add: proposing_def x')
    have e: "(\<exists>p'. proposing (px_prop (set_prop p x' s) p') \<and> pp_my_n (px_prop (set_prop p x' s) p') = n \<and> pp_v (px_prop (set_prop p x' s) p') = u) \<longleftrightarrow>
      proposing x' \<and> pp_my_n x' = n \<and> pp_v x' = u \<or> (\<exists>p'. proposing (px_prop s p') \<and> pp_my_n (px_prop s p') = n \<and> pp_v (px_prop s p') = u)"
      unfolding px_sel by (rule ex_upd) (simp add: np)
    have shuffle: "(A \<or> B \<or> (a = n \<and> b = u \<or> C)) = ((A \<or> B \<or> C) \<or> n = a \<and> u = b)" for A B C a and b :: string by auto
    show ?thesis unfolding proposal_def px_sel(2) e nw(2,3) by (simp only: nw(1) simp_thms shuffle)
  qed
  show ?thesis
  proof (rule px_inv_change [OF inv])
    show "px_prop (set_prop p x' s) q = px_prop s q \<or> pro_ok (hist base (set_prop p x' s)) nodes i q (px_prop (set_prop p x' s) q)" for q
      using ok unfolding h by (auto simp: pro_ok_def running_ok_def prep_ok_def x')
    have "preparing (px_prop (set_prop p x' s) q) \<Longrightarrow> \<not> proposal ?H (set_prop p x' s) (pp_my_n (px_prop (set_prop p x' s) q)) u" for q u
    proof -
      assume pq: "preparing (px_prop (set_prop p x' s) q)"
      then have q: "q \<noteq> p" "preparing (px_prop s q)" by (auto simp: x' preparing_def split: if_splits)
      have "pm (pp_my_n (px_prop s q)) = q" using px_inv_pro [OF inv, of q] by (simp add: pro_ok_def)
      then show ?thesis using q ok(3) inv unfolding props px_inv_def proposals_ok_def by auto
    qed
    moreover have "v = w" if "proposal ?H (set_prop p x' s) n v" "proposal ?H (set_prop p x' s) n w" for n v w
      using that none px_uniq [OF inv] unfolding props by blast
    moreover have "safe_prop ?H nodes n v \<and> v \<noteq> [] \<and> pn n \<noteq> 0 \<and> pn n \<le> pn (pp_my_n (px_prop (set_prop p x' s) (pm n)))"
      if "proposal ?H (set_prop p x' s) n v" for n v
    proof -
      have n': "pp_my_n (px_prop (set_prop p x' s) q) = pp_my_n (px_prop s q)" for q using x(1) by (simp add: x')
      from that show ?thesis unfolding props n'
      proof
        assume "proposal ?H s n v"
        then show "safe_prop ?H nodes n v \<and> v \<noteq> [] \<and> pn n \<noteq> 0 \<and> pn n \<le> pn (pp_my_n (px_prop s (pm n)))" by (rule px_bound [OF inv])
      next
        assume "n = pp_my_n x \<and> v = ?v"
        then show "safe_prop ?H nodes n v \<and> v \<noteq> [] \<and> pn n \<noteq> 0 \<and> pn n \<le> pn (pp_my_n (px_prop s (pm n)))"
          using safe ok x(1) by (simp add: running_ok_def)
      qed
    qed
    ultimately show "proposals_ok (hist base (set_prop p x' s)) nodes (set_prop p x' s)"
      unfolding h proposals_ok_def by blast
  qed (auto simp: h)
qed

section \<open>Steps of an acceptor\<close>

lemma hist_append:
  assumes "base y \<le> length (ac_log (px_acc s y))" and "ac_log a = ac_log (px_acc s y) @ rs" and "px_acc s' = (px_acc s)(y := a)"
  shows "hist base s' = (hist base s)(y := hist base s y \<union> set rs)"
  using assms by (auto simp: hist_def fun_eq_iff)

lemma px_inv_acc: "px_inv i nodes base s \<Longrightarrow> acc_ok (hist base s) nodes i y (px_acc s y) \<and> base y \<le> length (ac_log (px_acc s y))"
  by (simp add: px_inv_def)

lemma px_inv_req: "px_inv i nodes base s \<Longrightarrow> m \<in> set (px_reqs s) \<Longrightarrow> req_ok (hist base s) nodes i m"
  by (simp add: px_inv_def)

lemma next_instance: "x + 1 = (i :: u32) \<Longrightarrow> 0 < i \<Longrightarrow> x < i"
proof -
  assume a: "x + 1 = i" "0 < i"
  have "unat x < 2 ^ 32" using unsigned_less [of x, where ?'a = nat] by simp
  moreover have "(unat x + 1) mod 2 ^ 32 \<noteq> 0" using a by (auto simp: unat_word_ariths word_less_nat_alt)
  ultimately have "unat x + 1 < 2 ^ 32" by (cases "unat x + 1 = 2 ^ 32") auto
  then show "x < i" using a(1) by (auto simp: word_less_nat_alt unat_word_ariths)
qed

text \<open>An acceptor that changes while proposers stand still, or one that stops.\<close>

lemma acc_step_change:
  assumes inv: "px_inv i nodes base s"
    and s': "px_acc s' = (px_acc s)(y := a)" "\<And>q. px_prop s' q = px_prop s q \<or> px_prop s' q = run_finish False (px_prop s q)"
      "set (px_reqs s') \<subseteq> set (px_reqs s)"
    and log: "ac_log a = ac_log (px_acc s y) @ rs"
    and H': "H' = (hist base s)(y := hist base s y \<union> set rs)"
    and g: "\<And>n v b. Accepted n v \<in> set rs \<Longrightarrow> Propseen b \<in> hist base s y \<Longrightarrow> b \<le> n"
    and votes: "\<And>n v. Accepted n v \<in> set rs \<Longrightarrow> proposal (hist base s) s n v \<and> y \<in> set nodes"
    and ok: "acc_ok H' nodes i y a" and reps: "\<And>m. m \<in> set (px_reps s') \<Longrightarrow> m \<in> set (px_reps s) \<or> rep_ok H' nodes m"
  shows "px_inv i nodes base s'"
proof (rule px_inv_change [OF inv])
  let ?H = "hist base s"
  have b: "base y \<le> length (ac_log (px_acc s y))" using px_inv_acc [OF inv] by simp
  have h: "hist base s' = H'" unfolding H' using hist_append [of base y s a rs s'] b log s'(1) by simp
  have gr: "grows ?H H'" unfolding grows_def H' using g by auto
  then show "grows ?H (hist base s')" by (simp add: h)
  show "px_acc s' z = px_acc s z \<or> base z \<le> length (ac_log (px_acc s' z)) \<and> acc_ok (hist base s') nodes i z (px_acc s' z)" for z
    using ok b log by (auto simp: s'(1) h)
  show "px_prop s' q = px_prop s q \<or> pro_ok (hist base s') nodes i q (px_prop s' q)" for q
    using s'(2) [of q] px_inv_pro [OF inv, of q] by (auto simp: pro_ok_def run_finish_def)
  show "Accepted n v \<in> hist base s' z \<Longrightarrow> Accepted n v \<in> ?H z \<or> z \<in> set nodes" for z n v
    using votes [of n v] by (auto simp: h H' split: if_splits)
  show "proposals_ok (hist base s') nodes s'"
  proof (rule proposals_keep [OF _ gr [folded h]])
    show "proposals_ok ?H nodes s" using inv by (simp add: px_inv_def)
    fix n v assume "proposal (hist base s') s' n v"
    then consider (vote) z where "Accepted n v \<in> H' z"
      | (req) p' k z q where "Req_Accept p' k z q \<in> set (px_reqs s)" "aa_n q = n" "aa_v q = v"
      | (pro) p' where "proposing (px_prop s' p')" "pp_my_n (px_prop s' p') = n" "pp_v (px_prop s' p') = v"
      unfolding proposal_def h using s'(3) by blast
    then show "proposal ?H s n v"
    proof cases
      case vote
      then show ?thesis using votes [of n v] proposal_vote [of n v ?H] by (auto simp: H' split: if_splits)
    next
      case req
      then show ?thesis using proposal_req by blast
    next
      case pro
      then show ?thesis using s'(2) [of p'] proposal_pro [of s p'] by (auto simp: run_finish_def proposing_def)
    qed
  next
    show "pn (pp_my_n (px_prop s q)) \<le> pn (pp_my_n (px_prop s' q))" for q using s'(2) [of q] by (auto simp: run_finish_def)
    show "preparing (px_prop s' q) \<Longrightarrow> preparing (px_prop s q) \<and> pp_my_n (px_prop s' q) = pp_my_n (px_prop s q) \<or>
      (\<forall>v. \<not> proposal ?H s (pp_my_n (px_prop s' q)) v)" for q
      using s'(2) [of q] by (auto simp: run_finish_def preparing_def)
  qed
next
  show "m \<in> set (px_reqs s') \<Longrightarrow> m \<in> set (px_reqs s) \<or> req_ok (hist base s') nodes i m" for m using s'(3) by blast
  show "m \<in> set (px_reps s') \<Longrightarrow> m \<in> set (px_reps s) \<or> rep_ok (hist base s') nodes m" for m
    using reps hist_append [of base y s a rs s'] log s'(1) px_inv_acc [OF inv, of y] H' by auto
qed

lemma commit_inv:
  assumes inv: "px_inv i nodes base s" and ch: "chosen (hist base s) nodes n v"
    and s': "px_acc s' = (px_acc s)(y := fst (commit_wo i v (px_acc s y)))" "\<And>q. px_prop s' q = px_prop s q \<or> px_prop s' q = run_finish False (px_prop s q)"
      "set (px_reqs s') \<subseteq> set (px_reqs s)" "px_reps s' = px_reps s"
  shows "px_inv i nodes base s'"
proof (cases "i > ac_instance_h (px_acc s y)")
  case True
  let ?a = "fst (commit_wo i v (px_acc s y))" and ?H = "(hist base s)(y := hist base s y \<union> set [Done i v])"
  have "grows (hist base s) ?H" by (auto simp: grows_def)
  then have "chosen ?H nodes n v" using ch by (rule chosen_grows)
  then have "acc_ok ?H nodes i y ?a" using True by (auto simp: acc_ok_def commit_wo_def loginstance_def)
  moreover have "ac_log ?a = ac_log (px_acc s y) @ [Done i v]" using True by (simp add: commit_wo_def loginstance_def)
  ultimately show ?thesis by (intro acc_step_change [where y = y and a = ?a and rs = "[Done i v]", OF inv s'(1-3)]) (auto simp: s'(4))
next
  case False
  then have "fst (commit_wo i v (px_acc s y)) = px_acc s y" by (simp add: commit_wo_def)
  with s'(1) have "px_acc s' = (px_acc s)(y := px_acc s y)" by simp
  then show ?thesis
    by (intro acc_step_change [where y = y and a = "px_acc s y" and rs = "[]", OF inv _ s'(2,3)]) (use px_inv_acc [OF inv, of y] s'(4) in auto)
qed

lemma p_prepare_old_inv:
  assumes inv: "px_inv i nodes base s" and x: "x = px_prop s p" "pp_pc x = P_Prepare k True"
    and r: "Rep_Prepare p k y (pp_my_n x) r \<in> set (px_reps s)" "prepare_reply y px_OK r x = Inl v"
    and c: "acceptor_commit (pp_instance x) v (px_acc s p) = (a, up)"
  shows "px_inv i nodes base (set_acc p a (set_prop p (run_finish False x) s))"
proof -
  have "pr_oldinstance r" "pr_v_a r = v" using r(2) by (auto simp: prepare_reply_def Let_def split: if_splits)
  then obtain n where n: "chosen (hist base s) nodes n v" using px_inv_rep [OF inv r(1)] by auto
  have "pp_instance x = i" using px_inv_pro [OF inv, of p] x by (simp add: pro_ok_def running_ok_def)
  then have "a = fst (commit_wo i v (px_acc s p))" using c by (simp add: acceptor_commit_def)
  then show ?thesis by (intro commit_inv [OF inv n, of _ p]) (auto simp: x(1))
qed

lemma a_decide_inv:
  assumes inv: "px_inv i nodes base s" and m: "Req_Decide p y q \<in> set (px_reqs s)" and d: "decidereq q (px_acc s y) = Inr (ret, a, up)"
  shows "px_inv i nodes base (set_acc y a (px_answer (Req_Decide p y q) [] s))"
proof -
  from px_inv_req [OF inv m] obtain b where b: "da_instance q = i" "chosen (hist base s) nodes b (da_v q)" by auto
  have "a = fst (commit_wo i (da_v q) (px_acc s y))"
    using d b(1) px_inv_acc [OF inv, of y] by (auto simp: decidereq_def Let_def split_beta acc_ok_def commit_wo_def split: if_splits)
  then show ?thesis by (intro commit_inv [OF inv b(2), of _ y]) (auto dest: notin_set_remove1 set_remove1_subset [THEN subsetD])
qed

lemma a_prepare_inv:
  assumes inv: "px_inv i nodes base s" and m: "Req_Prepare p k y q \<in> set (px_reqs s)" and e: "preparereq q r (px_acc s y) = (ret, r', a)"
  shows "px_inv i nodes base (set_acc y a (px_answer (Req_Prepare p k y q) [Rep_Prepare p k y (pa_n q) r'] s))"
proof -
  let ?o = "px_acc s y" and ?H = "hist base s"
  have q: "pa_instance q = i" "y \<in> set nodes" using px_inv_req [OF inv m] by auto
  have i0: "0 < i" using inv by (simp add: px_inv_def)
  have ok: "acc_ok ?H nodes i y ?o" using px_inv_acc [OF inv] by simp
  have sub: "set (remove1 z (px_reqs s)) \<subseteq> set (px_reqs s)" for z by (rule set_remove1_subset)
  show ?thesis
  proof (cases "ac_instance_h ?o \<ge> i")
    case True
    then obtain n w where dec: "ac_instance_h ?o = i" "map_of (ac_values ?o) i = Some w" "chosen ?H nodes n w"
      using ok next_instance [OF _ i0] by (auto simp: acc_ok_def)
    then have "a = ?o" "pr_oldinstance r'" "chosen ?H nodes n (pr_v_a r')"
      using e True q by (auto simp: preparereq_def values_at_def)
    then show ?thesis using ok q sub
      by (intro acc_step_change [where y = y and a = a and rs = "[]", OF inv]) auto
  next
    case False
    then have fresh: "\<forall>b. Propseen b \<in> ?H y \<longrightarrow> b \<le> ac_n_h ?o" "\<forall>n v. Accepted n v \<in> ?H y \<longrightarrow> Propseen n \<in> ?H y \<and> n \<le> ac_n_a ?o"
        "Accepted (ac_n_a ?o) (ac_v_a ?o) \<in> ?H y \<or> pn (ac_n_a ?o) = 0 \<and> ac_v_a ?o = []" "ac_instance_h ?o + 1 = i"
      using ok by (auto simp: acc_ok_def)
    show ?thesis
    proof (cases "ac_n_h ?o < pa_n q")
      case True
      let ?H' = "?H(y := ?H y \<union> set [Propseen (pa_n q)])"
      have a: "a = logprop (pa_n q) (?o\<lparr>ac_n_h := pa_n q\<rparr>)" "\<not> pr_oldinstance r'" "pr_n_a r' = ac_n_a ?o" "pr_v_a r' = ac_v_a ?o"
        using e True False q by (auto simp: preparereq_def prop_order)
      have lt: "ac_n_a ?o < pa_n q" if "Accepted (ac_n_a ?o) (ac_v_a ?o) \<in> ?H y"
        using fresh(1,2) that True by (meson le_less_trans)
      have "acc_ok ?H' nodes i y a" using fresh True by (auto simp: acc_ok_def a logprop_def intro: less_imp_le order_trans)
      moreover have "promise_ok ?H' (pa_n q) y r'" using fresh lt by (auto simp: promise_ok_def a)
      ultimately show ?thesis using q sub a
        by (intro acc_step_change [where y = y and a = a and rs = "[Propseen (pa_n q)]", OF inv]) (auto simp: logprop_def)
    next
      case False
      then have "a = ?o" "\<not> pr_oldinstance r'" "\<not> pr_accept r'" using e q \<open>\<not> i \<le> ac_instance_h ?o\<close> by (auto simp: preparereq_def prop_order)
      then show ?thesis using ok q sub
        by (intro acc_step_change [where y = y and a = a and rs = "[]", OF inv]) auto
    qed
  qed
qed

lemma a_accept_inv:
  assumes inv: "px_inv i nodes base s" and m: "Req_Accept p k y q \<in> set (px_reqs s)" and t: "ac_instance_h (px_acc s y) < aa_instance q"
    and e: "acceptreq q (px_acc s y) = (ret, ok, a)"
  shows "px_inv i nodes base (set_acc y a (px_answer (Req_Accept p k y q) [Rep_Accept p k y (aa_n q) ok] s))"
proof -
  let ?o = "px_acc s y" and ?H = "hist base s"
  have q: "aa_instance q = i" "y \<in> set nodes" "Propseen (aa_n q) \<in> ?H y" using px_inv_req [OF inv m] by auto
  have sub: "set (remove1 z (px_reqs s)) \<subseteq> set (px_reqs s)" for z by (rule set_remove1_subset)
  have fresh: "\<forall>b. Propseen b \<in> ?H y \<longrightarrow> b \<le> ac_n_h ?o" "\<forall>n v. Accepted n v \<in> ?H y \<longrightarrow> Propseen n \<in> ?H y \<and> n \<le> ac_n_a ?o"
    "ac_instance_h ?o + 1 = i"
    using px_inv_acc [OF inv, of y] t q by (auto simp: acc_ok_def)
  show ?thesis
  proof (cases "ac_n_h ?o \<le> aa_n q")
    case True
    let ?H' = "?H(y := ?H y \<union> set [Accepted (aa_n q) (aa_v q)])"
    have a: "a = logaccept (aa_n q) (aa_v q) (?o\<lparr>ac_n_a := aa_n q, ac_v_a := aa_v q\<rparr>)" using e True by (simp add: acceptreq_def prop_order)
    have "n \<le> aa_n q" if "Accepted n v \<in> ?H y" for n v using fresh(1,2) that True by (meson order_trans)
    then have "acc_ok ?H' nodes i y a" using fresh q by (simp add: acc_ok_def a logaccept_def)
    moreover have "proposal ?H s (aa_n q) (aa_v q)" using m by (rule proposal_req)
    moreover have "b \<le> aa_n q" if "Propseen b \<in> ?H y" for b using fresh(1) that True by (meson order_trans)
    ultimately show ?thesis using q sub a
      by (intro acc_step_change [where y = y and a = a and rs = "[Accepted (aa_n q) (aa_v q)]", OF inv]) (auto simp: logaccept_def)
  next
    case False
    then have "a = ?o" "\<not> ok" using e by (auto simp: acceptreq_def prop_order)
    then show ?thesis using px_inv_acc [OF inv, of y] sub
      by (intro acc_step_change [where y = y and a = a and rs = "[]", OF inv]) auto
  qed
qed

section \<open>Agreement\<close>

lemma px_step_inv:
  assumes "px_step False i nodes s s'" and inv: "px_inv i nodes base s"
  shows "px_inv i nodes base s'"
  using assms(1)
proof (cases rule: px_step.cases)
  case (p_run newv p x)
  show ?thesis unfolding p_run(1) by (rule p_run_inv [OF inv p_run(2-5)])
next
  case (p_prepare_call x p k)
  show ?thesis unfolding p_prepare_call(1) by (rule p_prepare_call_inv [OF inv p_prepare_call(2-4)])
next
  case (p_prepare_next x p k w)
  show ?thesis unfolding p_prepare_next(1) by (rule p_prepare_next_inv [OF inv p_prepare_next(2-3)])
next
  case (p_prepare_reply x p k y r x')
  show ?thesis unfolding p_prepare_reply(1) by (rule p_prepare_reply_inv [OF inv p_prepare_reply(2-5)])
next
  case (p_prepare_old x p k y r v a up)
  show ?thesis unfolding p_prepare_old(1) by (rule p_prepare_old_inv [OF inv p_prepare_old(2-6)])
next
  case (p_prepared x p x')
  show ?thesis unfolding p_prepared(1) by (rule p_prepared_inv [OF inv p_prepared(2-4)])
next
  case (p_accept_call x p k)
  show ?thesis unfolding p_accept_call(1) by (rule p_accept_call_inv [OF inv p_accept_call(2-4)])
next
  case (p_accept_next x p k w)
  show ?thesis unfolding p_accept_next(1) by (rule p_accept_next_inv [OF inv p_accept_next(2-3)])
next
  case (p_accept_reply x p k y ok)
  show ?thesis unfolding p_accept_reply(1) by (rule p_accept_reply_inv [OF inv p_accept_reply(2-4)])
next
  case (p_accepted x p x')
  show ?thesis unfolding p_accepted(1) by (rule p_accepted_inv [OF inv p_accepted(2-4)])
next
  case (p_decide_call x p k)
  show ?thesis unfolding p_decide_call(1) by (rule p_decide_call_inv [OF inv p_decide_call(2-4)])
next
  case (p_decide_next x p k w)
  show ?thesis unfolding p_decide_next(1) by (rule p_decide_next_inv [OF inv p_decide_next(2-3)])
next
  case (p_decided x p)
  show ?thesis unfolding p_decided(1) by (rule p_decided_inv [OF inv p_decided(2)])
next
  case (a_prepare p k y q r ret r' a)
  show ?thesis unfolding a_prepare(1) by (rule a_prepare_inv [OF inv a_prepare(2-3)])
next
  case (a_accept p k y q ret ok a)
  show ?thesis unfolding a_accept(1) by (rule a_accept_inv [OF inv a_accept(2) _ a_accept(4)]) (use a_accept(3) in simp)
next
  case (a_decide p y q ret a up)
  show ?thesis unfolding a_decide(1) by (rule a_decide_inv [OF inv a_decide(2-3)])
qed

lemma px_init_inv: "px_init i base s \<Longrightarrow> px_inv i nodes base s"
  by (simp add: px_init_def px_inv_def hist_def acc_ok_def pro_ok_def proposals_ok_def proposal_def proposing_def preparing_def)

interpretation single: invariant_system "px_init i base" "px_step False i nodes" "px_inv i nodes base"
  by unfold_locales (rule px_init_inv, assumption, rule px_step_inv)

lemma px_inv_nodes: "px_inv i nodes base s \<Longrightarrow> Accepted n v \<in> hist base s y \<Longrightarrow> y \<in> set nodes"
  unfolding px_inv_def by blast

lemma px_finite:
  assumes "px_inv i nodes base s"
  shows "finite {n. \<exists>y v. Accepted n v \<in> hist base s y}"
proof (rule finite_subset)
  show "{n. \<exists>y v. Accepted n v \<in> hist base s y} \<subseteq>
      (\<Union>y \<in> set nodes. (\<lambda>r. case r of Accepted n v \<Rightarrow> n | _ \<Rightarrow> Prop 0 []) ` hist base s y)"
  proof (clarify)
    fix n y v assume h: "Accepted n v \<in> hist base s y"
    then have "n \<in> (\<lambda>r. case r of Accepted n v \<Rightarrow> n | _ \<Rightarrow> Prop 0 []) ` hist base s y"
      by (rule rev_image_eqI) simp
    with px_inv_nodes [OF assms h] show "n \<in> (\<Union>y \<in> set nodes. (\<lambda>r. case r of Accepted n v \<Rightarrow> n | _ \<Rightarrow> Prop 0 []) ` hist base s y)"
      by (rule UN_I)
  qed
qed (simp add: hist_def)

lemma px_agree:
  assumes inv: "px_inv i nodes base s" and ch: "chosen (hist base s) nodes b v" and vote: "Accepted n w \<in> hist base s y" and le: "b \<le> n"
  shows "w = v"
proof (rule chosen_stays [OF px_finite [OF inv] _ _ ch vote le])
  show "safe_prop (hist base s) nodes n v" if "Accepted n v \<in> hist base s y" for y n v
    using px_bound [OF inv proposal_vote [where H = "hist base s", OF that]] by simp
  show "v = w" if "Accepted n v \<in> hist base s y" "Accepted n w \<in> hist base s z" for y z n v w
    using px_uniq [OF inv proposal_vote [where H = "hist base s", OF that(1)] proposal_vote [where H = "hist base s", OF that(2)]] .
qed

lemma chosen_unique:
  assumes inv: "px_inv i nodes base s" and "chosen (hist base s) nodes b v" and "chosen (hist base s) nodes c w"
  shows "v = w"
proof -
  have vote: "\<exists>y. Accepted n u \<in> hist base s y" if ch: "chosen (hist base s) nodes n u" for n u
  proof -
    from ch obtain Q where Q: "majority nodes Q" "\<forall>y \<in> set Q. Accepted n u \<in> hist base s y" by (auto simp: chosen_def)
    from majorities_meet [OF Q(1) Q(1)] Q(2) show ?thesis by blast
  qed
  from vote [OF assms(2)] vote [OF assms(3)] obtain y z where "Accepted b v \<in> hist base s y" "Accepted c w \<in> hist base s z" by blast
  note votes = px_agree [OF inv assms(2) this(2)] px_agree [OF inv assms(3) this(1)]
  show ?thesis
  proof (cases "b \<le> c")
    case True
    from votes(1) [OF True] show ?thesis by simp
  next
    case False
    then have "c \<le> b" by simp
    from votes(2) [OF this] show ?thesis .
  qed
qed

lemma decided_chosen:
  assumes inv: "px_inv i nodes base s" and "i \<le> ac_instance_h (px_acc s y)"
  shows "\<exists>n w. map_of (ac_values (px_acc s y)) i = Some w \<and> chosen (hist base s) nodes n w"
proof -
  have "0 < i" using inv by (simp add: px_inv_def)
  with assms(2) have "ac_instance_h (px_acc s y) + 1 \<noteq> i" using next_instance [of "ac_instance_h (px_acc s y)" i] by auto
  then show ?thesis using px_inv_acc [OF inv, of y] by (simp add: acc_ok_def)
qed

lemma decide_verifies:
  assumes inv: "px_inv i nodes base s" and m: "Req_Decide p y q \<in> set (px_reqs s)"
  shows "\<exists>r. decidereq q (px_acc s y) = Inr r"
proof (cases "i \<le> ac_instance_h (px_acc s y)")
  case True
  then have "ac_instance_h (px_acc s y) + 1 \<noteq> i"
    using next_instance [of "ac_instance_h (px_acc s y)" i] inv by (auto simp: px_inv_def)
  with True px_inv_req [OF inv m] show ?thesis by (simp add: decidereq_def)
next
  case False
  let ?a = "px_acc s y" and ?H = "hist base s"
  obtain b where b: "da_instance q = i" "chosen ?H nodes b (da_v q)" "Accepted b (da_v q) \<in> ?H y" using px_inv_req [OF inv m] by auto
  have a: "ac_instance_h ?a + 1 = i" "b \<le> ac_n_a ?a" "Accepted (ac_n_a ?a) (ac_v_a ?a) \<in> ?H y \<or> pn (ac_n_a ?a) = 0"
    using px_inv_acc [OF inv, of y] False b(3) by (auto simp: acc_ok_def)
  have "pn b \<noteq> 0" using px_bound [OF inv proposal_vote [where H = ?H, OF b(3)]] by simp
  then have "pn (ac_n_a ?a) \<noteq> 0" using prop_le_pn [OF a(2)] by auto
  with a(3) have "ac_v_a ?a = da_v q" using px_agree [OF inv b(2) _ a(2)] by blast
  then show ?thesis using a(1) b(1) by (simp add: decidereq_def split_beta Let_def)
qed

end
