(* ===== verification/Poll_Mgr.thy ===== *)
theory Poll_Mgr
  imports Prelude
begin

text \<open>
  The event loop of the RPC library, \<^verbatim>\<open>rpc/pollmgr.cc\<close>: the two implementations of \<^verbatim>\<open>aio_mgr\<close>, over \<^verbatim>\<open>select\<close> and
  over \<^verbatim>\<open>epoll\<close>, and the poll manager with its callback table and its thread.  Descriptors are natural
  numbers and descriptor sets are sets of them.  What \<^verbatim>\<open>select\<close> and \<^verbatim>\<open>epoll_wait\<close> report is an argument.
\<close>

section \<open>Flags\<close>

datatype poll_flag = CB_NONE | CB_RDONLY | CB_WRONLY | CB_RDWR | CB_MASK

fun flag_bits :: "poll_flag \<Rightarrow> i32" where
  "flag_bits CB_NONE = 0x0"
| "flag_bits CB_RDONLY = 0x1"
| "flag_bits CB_WRONLY = 0x10"
| "flag_bits CB_RDWR = 0x11"
| "flag_bits CB_MASK = NOT 0x11"

definition MAX_POLL_FDS :: nat where "MAX_POLL_FDS = 128"

section \<open>Waiting with select\<close>

text \<open>\<open>sa_tokens\<close> counts the bytes in the pipe that interrupts a running \<^verbatim>\<open>select\<close>.\<close>

record select_aio =
  sa_rfds :: "nat set"
  sa_wfds :: "nat set"
  sa_highfds :: nat
  sa_pipe :: nat
  sa_tokens :: nat

definition select_aio_new :: "nat \<Rightarrow> select_aio" where
  "select_aio_new p = \<lparr>sa_rfds = {p}, sa_wfds = {}, sa_highfds = p, sa_pipe = p, sa_tokens = 0\<rparr>"

definition sa_watch_fd :: "nat \<Rightarrow> poll_flag \<Rightarrow> select_aio \<Rightarrow> select_aio res" where
  "sa_watch_fd fd flag s =
     (let s = (if sa_highfds s \<le> fd then s\<lparr>sa_highfds := fd\<rparr> else s);
          s = (if flag = CB_RDONLY then s\<lparr>sa_rfds := insert fd (sa_rfds s)\<rparr>
               else if flag = CB_WRONLY then s\<lparr>sa_wfds := insert fd (sa_wfds s)\<rparr>
               else s\<lparr>sa_rfds := insert fd (sa_rfds s), sa_wfds := insert fd (sa_wfds s)\<rparr>)
      in Inr (s\<lparr>sa_tokens := sa_tokens s + 1\<rparr>))"

definition sa_is_watched :: "nat \<Rightarrow> poll_flag \<Rightarrow> select_aio \<Rightarrow> bool" where
  "sa_is_watched fd flag s =
     (if flag = CB_RDONLY then fd \<in> sa_rfds s
      else if flag = CB_WRONLY then fd \<in> sa_wfds s
      else fd \<in> sa_rfds s \<and> fd \<in> sa_wfds s)"

definition new_high :: "nat \<Rightarrow> nat \<Rightarrow> nat set \<Rightarrow> nat set \<Rightarrow> nat" where
  "new_high p high r w = foldl (\<lambda>newh i. if i \<in> r then i else if i \<in> w then i else newh) p [0..<high + 1]"

definition sa_unwatch_fd :: "nat \<Rightarrow> poll_flag \<Rightarrow> select_aio \<Rightarrow> (bool \<times> select_aio) res" where
  "sa_unwatch_fd fd flag s =
     (if flag \<notin> {CB_RDONLY, CB_WRONLY, CB_RDWR} then Inl Verify_Failed
      else let s = (if flag = CB_WRONLY then s else s\<lparr>sa_rfds := sa_rfds s - {fd}\<rparr>);
               s = (if flag = CB_RDONLY then s else s\<lparr>sa_wfds := sa_wfds s - {fd}\<rparr>);
               gone = (fd \<notin> sa_rfds s \<and> fd \<notin> sa_wfds s);
               s = (if gone \<and> fd = sa_highfds s then s\<lparr>sa_highfds := new_high (sa_pipe s) (sa_highfds s) (sa_rfds s) (sa_wfds s)\<rparr> else s);
               s = (if flag = CB_RDWR then s\<lparr>sa_tokens := sa_tokens s + 1\<rparr> else s)
           in Inr (gone, s))"

text \<open>
  \<^verbatim>\<open>wait_ready\<close> in two parts: the sets it passes to \<^verbatim>\<open>select\<close>, and what it does with the sets \<open>tr\<close> and \<open>tw\<close> that \<^verbatim>\<open>select\<close>
  leaves.  The last component says whether a byte was taken from the pipe.
\<close>

definition wait_sets :: "select_aio \<Rightarrow> nat set \<times> nat set \<times> nat" where
  "wait_sets s = (sa_rfds s, sa_wfds s, sa_highfds s)"

definition collect_fd :: "nat \<Rightarrow> nat set \<Rightarrow> nat set \<Rightarrow> nat list \<times> nat list \<times> bool \<Rightarrow> nat \<Rightarrow> nat list \<times> nat list \<times> bool" where
  "collect_fd p tr tw acc fd =
     (case acc of (readable, writable, woken) \<Rightarrow>
        if fd = p \<and> fd \<in> tr then (readable, writable, True)
        else (if fd \<in> tr then readable @ [fd] else readable, if fd \<in> tw then writable @ [fd] else writable, woken))"

definition wait_collect :: "nat \<Rightarrow> nat \<Rightarrow> nat set \<Rightarrow> nat set \<Rightarrow> nat list \<times> nat list \<times> bool" where
  "wait_collect p high tr tw = foldl (collect_fd p tr tw) ([], [], False) [0..<high + 1]"

section \<open>Waiting with epoll\<close>

text \<open>
  \<open>ep_kernel\<close> is the interest list of the epoll descriptor, which rejects adding a descriptor twice and
  changing or removing an unknown one; an event mask is a set of two bits.
\<close>

record epoll_aio =
  ep_fdstatus :: "nat \<Rightarrow> i32"
  ep_kernel :: "nat \<Rightarrow> (bool \<times> bool) option"

definition epoll_aio_new :: epoll_aio where
  "epoll_aio_new = \<lparr>ep_fdstatus = (\<lambda>_. 0), ep_kernel = (\<lambda>_. None)\<rparr>"

definition ep_events :: "i32 \<Rightarrow> bool \<times> bool" where
  "ep_events st = (st AND flag_bits CB_RDONLY \<noteq> 0, st AND flag_bits CB_WRONLY \<noteq> 0)"

definition ep_watch_fd :: "nat \<Rightarrow> poll_flag \<Rightarrow> epoll_aio \<Rightarrow> epoll_aio res" where
  "ep_watch_fd fd flag s =
     (if \<not> fd < MAX_POLL_FDS then Inl Verify_Failed
      else let add = (ep_fdstatus s fd = 0); st = ep_fdstatus s fd OR flag_bits flag; ev = ep_events st
           in if flag = CB_RDWR \<and> ev \<noteq> (True, True) then Inl Verify_Failed
              else if add \<longleftrightarrow> ep_kernel s fd \<noteq> None then Inl Verify_Failed
              else Inr (s\<lparr>ep_fdstatus := (ep_fdstatus s)(fd := st), ep_kernel := (ep_kernel s)(fd \<mapsto> ev)\<rparr>))"

definition ep_unwatch_fd :: "nat \<Rightarrow> poll_flag \<Rightarrow> epoll_aio \<Rightarrow> (bool \<times> epoll_aio) res" where
  "ep_unwatch_fd fd flag s =
     (if \<not> fd < MAX_POLL_FDS then Inl Verify_Failed
      else let st = ep_fdstatus s fd AND NOT (flag_bits flag); del = (st = 0)
           in if flag = CB_RDWR \<and> \<not> del then Inl Verify_Failed
              else if ep_kernel s fd = None then Inl Verify_Failed
              else Inr (del, s\<lparr>ep_fdstatus := (ep_fdstatus s)(fd := st),
                               ep_kernel := (ep_kernel s)(fd := if del then None else Some (ep_events st))\<rparr>))"

definition ep_is_watched :: "nat \<Rightarrow> poll_flag \<Rightarrow> epoll_aio \<Rightarrow> bool res" where
  "ep_is_watched fd flag s =
     (if \<not> fd < MAX_POLL_FDS then Inl Verify_Failed else Inr (ep_fdstatus s fd AND flag_bits CB_MASK = flag_bits flag))"

text \<open>\<open>ready\<close> is what \<^verbatim>\<open>epoll_wait\<close> reports: descriptors with their event bits.\<close>

definition ep_wait_ready :: "(nat \<times> bool \<times> bool) list \<Rightarrow> nat list \<times> nat list" where
  "ep_wait_ready ready = (map fst (filter (\<lambda>(fd, i, out). i) ready), map fst (filter (\<lambda>(fd, i, out). out) ready))"

section \<open>The poll manager\<close>

text \<open>
  The methods of \<^verbatim>\<open>aio_\<close> that an operation calls are arguments of it.  A callback object is a number.
\<close>

record 'a pollmgr =
  pm_callbacks :: "nat \<Rightarrow> nat option"
  pm_aio :: 'a
  pm_pending_change :: bool

definition pollmgr_new :: "'a \<Rightarrow> 'a pollmgr" where
  "pollmgr_new aio = \<lparr>pm_callbacks = (\<lambda>_. None), pm_aio = aio, pm_pending_change = False\<rparr>"

definition add_callback :: "(nat \<Rightarrow> poll_flag \<Rightarrow> 'a \<Rightarrow> 'a res) \<Rightarrow> nat \<Rightarrow> poll_flag \<Rightarrow> nat \<Rightarrow> 'a pollmgr \<Rightarrow> 'a pollmgr res" where
  "add_callback watch fd flag ch s =
     (if \<not> fd < MAX_POLL_FDS then Inl Verify_Failed
      else res_bind (watch fd flag (pm_aio s)) (\<lambda>aio.
        if pm_callbacks s fd \<notin> {None, Some ch} then Inl Verify_Failed
        else Inr (s\<lparr>pm_aio := aio, pm_callbacks := (pm_callbacks s)(fd \<mapsto> ch)\<rparr>)))"

definition del_callback :: "(nat \<Rightarrow> poll_flag \<Rightarrow> 'a \<Rightarrow> (bool \<times> 'a) res) \<Rightarrow> nat \<Rightarrow> poll_flag \<Rightarrow> 'a pollmgr \<Rightarrow> 'a pollmgr res" where
  "del_callback unwatch fd flag s =
     res_bind (unwatch fd flag (pm_aio s)) (\<lambda>(gone, aio).
       if gone \<and> \<not> fd < MAX_POLL_FDS then Inl Out_Of_Bounds
       else Inr (s\<lparr>pm_aio := aio, pm_callbacks := (if gone then (pm_callbacks s)(fd := None) else pm_callbacks s)\<rparr>))"



definition has_callback :: "(nat \<Rightarrow> poll_flag \<Rightarrow> 'a \<Rightarrow> bool) \<Rightarrow> nat \<Rightarrow> poll_flag \<Rightarrow> nat \<Rightarrow> 'a pollmgr \<Rightarrow> bool" where
  "has_callback watched fd flag c s = (if pm_callbacks s fd \<noteq> Some c then False else watched fd flag (pm_aio s))"


section \<open>The interface of an aio manager\<close>

text \<open>
  What the poll manager relies on: watching and unwatching a descriptor do what they say to the sets
  of descriptors that are watched for reading and for writing, and unwatching reports whether the
  descriptor is in neither set any more.  Descriptor \<open>p\<close> belongs to the implementation.
\<close>

definition usable :: "nat \<Rightarrow> nat \<Rightarrow> poll_flag \<Rightarrow> bool" where
  "usable p fd flag \<longleftrightarrow> fd < MAX_POLL_FDS \<and> fd \<noteq> p \<and> flag \<in> {CB_RDONLY, CB_WRONLY, CB_RDWR}"

definition with_rd :: "poll_flag \<Rightarrow> nat \<Rightarrow> nat set \<Rightarrow> nat set" where
  "with_rd flag fd r = (if flag = CB_WRONLY then r else insert fd r)"

definition with_wr :: "poll_flag \<Rightarrow> nat \<Rightarrow> nat set \<Rightarrow> nat set" where
  "with_wr flag fd w = (if flag = CB_RDONLY then w else insert fd w)"

definition sans_rd :: "poll_flag \<Rightarrow> nat \<Rightarrow> nat set \<Rightarrow> nat set" where
  "sans_rd flag fd r = (if flag = CB_WRONLY then r else r - {fd})"

definition sans_wr :: "poll_flag \<Rightarrow> nat \<Rightarrow> nat set \<Rightarrow> nat set" where
  "sans_wr flag fd w = (if flag = CB_RDONLY then w else w - {fd})"

lemmas flag_sets = with_rd_def with_wr_def sans_rd_def sans_wr_def

text \<open>The same operations on the callback table and the two sets alone.\<close>

datatype poll_op = Add nat poll_flag nat | Del nat poll_flag

type_synonym poll_view = "(nat \<Rightarrow> nat option) \<times> nat set \<times> nat set"

fun view_op :: "poll_op \<Rightarrow> poll_view \<Rightarrow> poll_view" where
  "view_op (Add fd flag ch) (cb, r, w) = (cb(fd \<mapsto> ch), with_rd flag fd r, with_wr flag fd w)"
| "view_op (Del fd flag) (cb, r, w) =
     (if fd \<in> sans_rd flag fd r \<union> sans_wr flag fd w then cb else cb(fd := None), sans_rd flag fd r, sans_wr flag fd w)"

text \<open>A descriptor has one callback object at a time and is unwatched only while it is watched.\<close>

fun op_allowed :: "nat \<Rightarrow> poll_op \<Rightarrow> poll_view \<Rightarrow> bool" where
  "op_allowed p (Add fd flag ch) (cb, r, w) \<longleftrightarrow> usable p fd flag \<and> cb fd \<in> {None, Some ch}"
| "op_allowed p (Del fd flag) (cb, r, w) \<longleftrightarrow> usable p fd flag \<and> fd \<in> r \<union> w"

fun allowed :: "nat \<Rightarrow> poll_op list \<Rightarrow> poll_view \<Rightarrow> bool" where
  "allowed p [] v \<longleftrightarrow> True"
| "allowed p (x # xs) v \<longleftrightarrow> op_allowed p x v \<and> allowed p xs (view_op x v)"

fun poll_run :: "(nat \<Rightarrow> poll_flag \<Rightarrow> 'a \<Rightarrow> 'a res) \<Rightarrow> (nat \<Rightarrow> poll_flag \<Rightarrow> 'a \<Rightarrow> (bool \<times> 'a) res) \<Rightarrow> poll_op list \<Rightarrow> 'a pollmgr \<Rightarrow> 'a pollmgr res" where
  "poll_run watch unwatch [] s = Inr s"
| "poll_run watch unwatch (Add fd flag ch # xs) s = res_bind (add_callback watch fd flag ch s) (poll_run watch unwatch xs)"
| "poll_run watch unwatch (Del fd flag # xs) s = res_bind (del_callback unwatch fd flag s) (poll_run watch unwatch xs)"

locale aio_manager =
  fixes p :: nat and inv :: "'a \<Rightarrow> bool" and rd wr :: "'a \<Rightarrow> nat set"
    and watch :: "nat \<Rightarrow> poll_flag \<Rightarrow> 'a \<Rightarrow> 'a res" and unwatch :: "nat \<Rightarrow> poll_flag \<Rightarrow> 'a \<Rightarrow> (bool \<times> 'a) res"
  assumes watch_law: "inv s \<Longrightarrow> usable p fd flag \<Longrightarrow>
      \<exists>s'. watch fd flag s = Inr s' \<and> inv s' \<and> rd s' = with_rd flag fd (rd s) \<and> wr s' = with_wr flag fd (wr s)"
    and unwatch_law: "inv s \<Longrightarrow> usable p fd flag \<Longrightarrow> fd \<in> rd s \<union> wr s \<Longrightarrow>
      \<exists>s'. unwatch fd flag s = Inr (fd \<notin> rd s' \<union> wr s', s') \<and> inv s' \<and> rd s' = sans_rd flag fd (rd s) \<and> wr s' = sans_wr flag fd (wr s)"
begin

definition view :: "'a pollmgr \<Rightarrow> poll_view" where
  "view s = (pm_callbacks s, rd (pm_aio s), wr (pm_aio s))"

lemma add_refines:
  assumes "inv (pm_aio s)" and "op_allowed p (Add fd flag ch) (view s)"
  shows "\<exists>s'. add_callback watch fd flag ch s = Inr s' \<and> inv (pm_aio s') \<and> view s' = view_op (Add fd flag ch) (view s)"
  using watch_law [OF assms(1), of fd flag] assms(2)
  by (auto simp: view_def add_callback_def usable_def)

lemma del_refines:
  assumes "inv (pm_aio s)" and "op_allowed p (Del fd flag) (view s)"
  shows "\<exists>s'. del_callback unwatch fd flag s = Inr s' \<and> inv (pm_aio s') \<and> view s' = view_op (Del fd flag) (view s)"
  using unwatch_law [OF assms(1), of fd flag] assms(2)
  by (auto simp: view_def del_callback_def usable_def)

lemma run_refines:
  assumes "inv (pm_aio s)" and "allowed p xs (view s)"
  shows "\<exists>s'. poll_run watch unwatch xs s = Inr s' \<and> view s' = fold view_op xs (view s)"
  using assms
proof (induction xs arbitrary: s)
  case (Cons x xs)
  have step: "\<exists>s'. poll_run watch unwatch (x # xs) s = poll_run watch unwatch xs s' \<and> inv (pm_aio s') \<and> view s' = view_op x (view s)"
  proof (cases x)
    case (Add fd flag ch)
    with Cons.prems add_refines [of s fd flag ch] show ?thesis by auto
  next
    case (Del fd flag)
    with Cons.prems del_refines [of s fd flag] show ?thesis by auto
  qed
  then obtain s' where s': "poll_run watch unwatch (x # xs) s = poll_run watch unwatch xs s'" "inv (pm_aio s')" "view s' = view_op x (view s)"
    by blast
  with Cons.IH [of s'] Cons.prems show ?case by simp
qed simp

end

subsection \<open>The select implementation\<close>

text \<open>\<open>highfds_\<close> is the greatest descriptor in either set.\<close>

definition select_inv :: "nat \<Rightarrow> select_aio \<Rightarrow> bool" where
  "select_inv p s \<longleftrightarrow> sa_pipe s = p \<and> p \<in> sa_rfds s \<and> p \<notin> sa_wfds s \<and> sa_highfds s \<in> sa_rfds s \<union> sa_wfds s \<and>
     (\<forall>fd \<in> sa_rfds s \<union> sa_wfds s. fd \<le> sa_highfds s)"

lemma new_high_max:
  assumes "p \<in> r" and "p \<le> high"
  shows "new_high p high r w \<in> r \<union> w \<and> (\<forall>i \<in> r \<union> w. i \<le> high \<longrightarrow> i \<le> new_high p high r w)"
proof -
  define f where "f = (\<lambda>newh i. if i \<in> r then i else if i \<in> w then i else newh)"
  have "foldl f p [0..<n] \<in> r \<union> w \<and> (\<forall>i \<in> r \<union> w. i < n \<longrightarrow> i \<le> foldl f p [0..<n])" for n
    by (induction n) (use assms in \<open>auto simp: f_def less_Suc_eq intro: order.strict_implies_order\<close>)
  from this [of "high + 1"] show ?thesis by (auto simp: new_high_def f_def)
qed

lemma select_inv_new: "select_inv p (select_aio_new p)"
  by (simp add: select_inv_def select_aio_new_def)

lemma select_watch:
  assumes "select_inv p s" and "usable p fd flag"
  shows "\<exists>s'. sa_watch_fd fd flag s = Inr s' \<and> select_inv p s' \<and>
    sa_rfds s' = with_rd flag fd (sa_rfds s) \<and> sa_wfds s' = with_wr flag fd (sa_wfds s)"
proof -
  let ?r = "with_rd flag fd (sa_rfds s)" and ?w = "with_wr flag fd (sa_wfds s)" and ?high = "max fd (sa_highfds s)"
  have "?high \<in> ?r \<union> ?w" using assms by (cases "fd \<le> sa_highfds s") (auto simp: select_inv_def usable_def flag_sets)
  moreover have "i \<le> ?high" if "i \<in> ?r \<union> ?w" for i
    using assms(1) that by (auto simp: select_inv_def flag_sets le_max_iff_disj split: if_splits)
  moreover have "sa_watch_fd fd flag s = Inr (s\<lparr>sa_rfds := ?r, sa_wfds := ?w, sa_highfds := ?high, sa_tokens := sa_tokens s + 1\<rparr>)"
    using assms(2) by (auto simp: sa_watch_fd_def usable_def flag_sets Let_def max_def)
  ultimately show ?thesis using assms by (auto simp: select_inv_def usable_def flag_sets)
qed

lemma select_unwatch:
  assumes inv: "select_inv p s" and u: "usable p fd flag"
  shows "\<exists>s'. sa_unwatch_fd fd flag s = Inr (fd \<notin> sa_rfds s' \<union> sa_wfds s', s') \<and> select_inv p s' \<and>
    sa_rfds s' = sans_rd flag fd (sa_rfds s) \<and> sa_wfds s' = sans_wr flag fd (sa_wfds s)"
proof -
  let ?r = "sans_rd flag fd (sa_rfds s)" and ?w = "sans_wr flag fd (sa_wfds s)"
  let ?high = "if fd \<notin> ?r \<and> fd \<notin> ?w \<and> fd = sa_highfds s then new_high p (sa_highfds s) ?r ?w else sa_highfds s"
  have p: "p \<in> ?r" "p \<notin> ?w" "p \<le> sa_highfds s" using inv u by (auto simp: select_inv_def usable_def flag_sets)
  have le: "i \<le> sa_highfds s" if "i \<in> ?r \<union> ?w" for i using inv that by (auto simp: select_inv_def flag_sets split: if_splits)
  have high: "?high \<in> ?r \<union> ?w \<and> (\<forall>i \<in> ?r \<union> ?w. i \<le> ?high)"
  proof (cases "fd \<notin> ?r \<and> fd \<notin> ?w \<and> fd = sa_highfds s")
    case True
    with new_high_max [OF p(1,3), of ?w] le show ?thesis by simp
  next
    case False
    moreover have "sa_highfds s \<in> ?r \<union> ?w \<or> sa_highfds s = fd" using inv by (auto simp: select_inv_def flag_sets)
    ultimately show ?thesis using le by (simp only: if_False) blast
  qed
  define t where "t = s\<lparr>sa_rfds := ?r, sa_wfds := ?w, sa_highfds := ?high, sa_tokens := sa_tokens s + (if flag = CB_RDWR then 1 else 0)\<rparr>"
  have "select_inv p t" using high p inv by (simp add: select_inv_def t_def)
  moreover have "sa_unwatch_fd fd flag s = Inr (fd \<notin> sa_rfds t \<union> sa_wfds t, t)"
    using inv u by (cases flag) (auto simp: sa_unwatch_fd_def usable_def select_inv_def flag_sets Let_def t_def)
  ultimately show ?thesis by (intro exI [of _ t]) (simp add: t_def)
qed

interpretation select_aio: aio_manager p "select_inv p" "\<lambda>s. sa_rfds s - {p}" sa_wfds sa_watch_fd sa_unwatch_fd
proof
  fix s fd flag
  assume a: "select_inv p s" "usable p fd flag"
  from select_watch [OF this] a(2)
  show "\<exists>s'. sa_watch_fd fd flag s = Inr s' \<and> select_inv p s' \<and>
      sa_rfds s' - {p} = with_rd flag fd (sa_rfds s - {p}) \<and> sa_wfds s' = with_wr flag fd (sa_wfds s)"
    by (auto simp: flag_sets usable_def)
  from select_unwatch [OF a] a(2)
  show "\<exists>s'. sa_unwatch_fd fd flag s = Inr (fd \<notin> sa_rfds s' - {p} \<union> sa_wfds s', s') \<and> select_inv p s' \<and>
      sa_rfds s' - {p} = sans_rd flag fd (sa_rfds s - {p}) \<and> sa_wfds s' = sans_wr flag fd (sa_wfds s)"
    by (auto simp: flag_sets usable_def)
qed

subsection \<open>The epoll implementation\<close>

definition ep_rd :: "epoll_aio \<Rightarrow> nat set" where
  "ep_rd s = {fd. fst (ep_events (ep_fdstatus s fd))}"

definition ep_wr :: "epoll_aio \<Rightarrow> nat set" where
  "ep_wr s = {fd. snd (ep_events (ep_fdstatus s fd))}"

definition epoll_inv :: "epoll_aio \<Rightarrow> bool" where
  "epoll_inv s \<longleftrightarrow> (\<forall>fd. ep_fdstatus s fd \<in> {0, 0x1, 0x10, 0x11} \<and>
     ep_kernel s fd = (if ep_fdstatus s fd = 0 then None else Some (ep_events (ep_fdstatus s fd))))"

lemma watch_bits:
  assumes "st \<in> {0, 0x1, 0x10, 0x11}" and "flag \<in> {CB_RDONLY, CB_WRONLY, CB_RDWR}"
  shows "st OR flag_bits flag \<in> {0x1, 0x10, 0x11}"
    and "ep_events (st OR flag_bits flag) = (fst (ep_events st) \<or> flag \<noteq> CB_WRONLY, snd (ep_events st) \<or> flag \<noteq> CB_RDONLY)"
  using assms by (auto simp: ep_events_def)

lemma unwatch_bits:
  assumes "st \<in> {0, 0x1, 0x10, 0x11}" and "flag \<in> {CB_RDONLY, CB_WRONLY, CB_RDWR}"
  shows "st AND NOT (flag_bits flag) \<in> {0, 0x1, 0x10, 0x11}"
    and "ep_events (st AND NOT (flag_bits flag)) = (fst (ep_events st) \<and> flag = CB_WRONLY, snd (ep_events st) \<and> flag = CB_RDONLY)"
  using assms by (auto simp: ep_events_def)

lemma events_zero: "st \<in> {0, 0x1, 0x10, 0x11} \<Longrightarrow> ep_events st = (False, False) \<longleftrightarrow> st = 0"
  by (auto simp: ep_events_def)

lemma epoll_change:
  assumes "epoll_inv s" and "st \<in> {0, 0x1, 0x10, 0x11}"
    and "s' = s\<lparr>ep_fdstatus := (ep_fdstatus s)(fd := st), ep_kernel := (ep_kernel s)(fd := if st = 0 then None else Some (ep_events st))\<rparr>"
  shows "epoll_inv s'" "ep_rd s' = (if fst (ep_events st) then insert fd (ep_rd s) else ep_rd s - {fd})"
    "ep_wr s' = (if snd (ep_events st) then insert fd (ep_wr s) else ep_wr s - {fd})"
  using assms by (auto simp: epoll_inv_def ep_rd_def ep_wr_def)

lemma epoll_watch:
  assumes inv: "epoll_inv s" and u: "usable p fd flag"
  shows "\<exists>s'. ep_watch_fd fd flag s = Inr s' \<and> epoll_inv s' \<and> ep_rd s' = with_rd flag fd (ep_rd s) \<and> ep_wr s' = with_wr flag fd (ep_wr s)"
proof -
  let ?st = "ep_fdstatus s fd OR flag_bits flag"
  have st: "ep_fdstatus s fd \<in> {0, 0x1, 0x10, 0x11}" using inv by (simp add: epoll_inv_def)
  have f: "flag \<in> {CB_RDONLY, CB_WRONLY, CB_RDWR}" using u by (simp add: usable_def)
  note bits = watch_bits [OF st f]
  define t where "t = s\<lparr>ep_fdstatus := (ep_fdstatus s)(fd := ?st), ep_kernel := (ep_kernel s)(fd := if ?st = 0 then None else Some (ep_events ?st))\<rparr>"
  have "?st \<in> {0, 0x1, 0x10, 0x11}" "?st \<noteq> 0" using bits(1) by auto
  note change = epoll_change [OF inv this(1) t_def]
  have "ep_watch_fd fd flag s = Inr t"
    using inv u bits(2) \<open>?st \<noteq> 0\<close> by (auto simp: ep_watch_fd_def usable_def t_def epoll_inv_def Let_def)
  moreover have "ep_rd t = with_rd flag fd (ep_rd s)" "ep_wr t = with_wr flag fd (ep_wr s)"
    unfolding change(2,3) bits(2) by (auto simp: flag_sets ep_rd_def ep_wr_def)
  ultimately show ?thesis using change(1) by blast
qed

lemma epoll_unwatch:
  assumes inv: "epoll_inv s" and u: "usable p fd flag" and w: "fd \<in> ep_rd s \<union> ep_wr s"
  shows "\<exists>s'. ep_unwatch_fd fd flag s = Inr (fd \<notin> ep_rd s' \<union> ep_wr s', s') \<and> epoll_inv s' \<and>
    ep_rd s' = sans_rd flag fd (ep_rd s) \<and> ep_wr s' = sans_wr flag fd (ep_wr s)"
proof -
  let ?st = "ep_fdstatus s fd AND NOT (flag_bits flag)"
  have st: "ep_fdstatus s fd \<in> {0, 0x1, 0x10, 0x11}" using inv by (simp add: epoll_inv_def)
  have f: "flag \<in> {CB_RDONLY, CB_WRONLY, CB_RDWR}" using u by (simp add: usable_def)
  note bits = unwatch_bits [OF st f]
  define t where "t = s\<lparr>ep_fdstatus := (ep_fdstatus s)(fd := ?st), ep_kernel := (ep_kernel s)(fd := if ?st = 0 then None else Some (ep_events ?st))\<rparr>"
  note change = epoll_change [OF inv bits(1) t_def]
  have rw: "ep_rd t = sans_rd flag fd (ep_rd s)" "ep_wr t = sans_wr flag fd (ep_wr s)"
    unfolding change(2,3) bits(2) by (auto simp: flag_sets ep_rd_def ep_wr_def)
  have gone: "?st = 0 \<longleftrightarrow> fd \<notin> ep_rd t \<union> ep_wr t"
    using events_zero [OF bits(1)] by (auto simp: t_def ep_rd_def ep_wr_def prod_eq_iff)
  have "ep_fdstatus s fd \<noteq> 0" using w by (auto simp: ep_rd_def ep_wr_def ep_events_def)
  moreover have "?st = 0" if "flag = CB_RDWR" using events_zero [OF bits(1)] bits(2) that by simp
  ultimately have "ep_unwatch_fd fd flag s = Inr (fd \<notin> ep_rd t \<union> ep_wr t, t)"
    using inv u unfolding gone [symmetric] by (auto simp: ep_unwatch_fd_def usable_def t_def epoll_inv_def Let_def)
  then show ?thesis using change(1) rw by blast
qed

interpretation epoll_aio: aio_manager p epoll_inv ep_rd ep_wr ep_watch_fd ep_unwatch_fd
  by unfold_locales (rule epoll_watch epoll_unwatch; assumption)+

section \<open>Properties\<close>

subsection \<open>Two implementations of one interface\<close>

lemma watched_iff_callback:
  assumes "fst v fd \<noteq> None \<longleftrightarrow> fd \<in> fst (snd v) \<union> snd (snd v)" and "op_allowed p x v"
  shows "fst (view_op x v) fd \<noteq> None \<longleftrightarrow> fd \<in> fst (snd (view_op x v)) \<union> snd (snd (view_op x v))"
  using assms by (cases v; cases x) (auto simp: flag_sets split: if_splits)

lemma run_watched_iff_callback:
  assumes "allowed p xs v" and "fst v fd \<noteq> None \<longleftrightarrow> fd \<in> fst (snd v) \<union> snd (snd v)"
  shows "fst (fold view_op xs v) fd \<noteq> None \<longleftrightarrow> fd \<in> fst (snd (fold view_op xs v)) \<union> snd (snd (fold view_op xs v))"
  using assms
proof (induction xs arbitrary: v)
  case (Cons x xs)
  then have "op_allowed p x v" "allowed p xs (view_op x v)" by simp_all
  from Cons.IH [OF this(2) watched_iff_callback [OF Cons.prems(2) this(1)]] show ?case by simp
qed simp

text \<open>
  C33: The poll manager works alike over \<^verbatim>\<open>SelectAIO\<close> and \<^verbatim>\<open>EPollAIO\<close>.  Whatever callbacks are added and deleted,
  as long as a descriptor has one callback object at a time and is unwatched only while it is
  watched, neither fails an assertion, and they end with the same callback table and watch the
  same descriptors for reading and for writing: exactly those that have a callback.
\<close>

theorem select_and_epoll_agree:
  assumes "allowed p xs (\<lambda>_. None, {}, {})"
  shows "\<exists>s e. poll_run sa_watch_fd sa_unwatch_fd xs (pollmgr_new (select_aio_new p)) = Inr s \<and>
    poll_run ep_watch_fd ep_unwatch_fd xs (pollmgr_new epoll_aio_new) = Inr e \<and>
    pm_callbacks s = pm_callbacks e \<and> sa_rfds (pm_aio s) - {p} = ep_rd (pm_aio e) \<and> sa_wfds (pm_aio s) = ep_wr (pm_aio e) \<and>
    (\<forall>fd. pm_callbacks s fd \<noteq> None \<longleftrightarrow> fd \<in> ep_rd (pm_aio e) \<union> ep_wr (pm_aio e))"
proof -
  have "epoll_inv epoll_aio_new" by (simp add: epoll_inv_def epoll_aio_new_def)
  moreover have "epoll_aio.view (pollmgr_new epoll_aio_new) = (\<lambda>_. None, {}, {})"
    by (simp add: epoll_aio.view_def pollmgr_new_def epoll_aio_new_def ep_rd_def ep_wr_def ep_events_def)
  moreover have "select_aio.view p (pollmgr_new (select_aio_new p)) = (\<lambda>_. None, {}, {})"
    by (simp add: select_aio.view_def pollmgr_new_def select_aio_new_def)
  ultimately obtain s e where
      s: "poll_run sa_watch_fd sa_unwatch_fd xs (pollmgr_new (select_aio_new p)) = Inr s" "select_aio.view p s = fold view_op xs (\<lambda>_. None, {}, {})"
    and e: "poll_run ep_watch_fd ep_unwatch_fd xs (pollmgr_new epoll_aio_new) = Inr e" "epoll_aio.view e = fold view_op xs (\<lambda>_. None, {}, {})"
    using select_aio.run_refines [where p = p and s = "pollmgr_new (select_aio_new p)" and xs = xs] select_inv_new [of p]
      epoll_aio.run_refines [where p = p and s = "pollmgr_new epoll_aio_new" and xs = xs] assms
    by (auto simp: pollmgr_new_def)
  then have "select_aio.view p s = epoll_aio.view e" by simp
  moreover have "fst (epoll_aio.view e) fd \<noteq> None \<longleftrightarrow> fd \<in> fst (snd (epoll_aio.view e)) \<union> snd (snd (epoll_aio.view e))" for fd
    unfolding e(2) by (rule run_watched_iff_callback [OF assms]) simp
  ultimately show ?thesis using s(1) e(1) by (auto simp: select_aio.view_def epoll_aio.view_def)
qed

theorem select_and_epoll_agree_witness:
  "\<exists>s e. poll_run sa_watch_fd sa_unwatch_fd [Add 5 CB_RDONLY 1, Add 7 CB_RDWR 2, Del 7 CB_WRONLY, Del 5 CB_RDWR] (pollmgr_new (select_aio_new 3)) = Inr s \<and>
    poll_run ep_watch_fd ep_unwatch_fd [Add 5 CB_RDONLY 1, Add 7 CB_RDWR 2, Del 7 CB_WRONLY, Del 5 CB_RDWR] (pollmgr_new epoll_aio_new) = Inr e \<and>
    pm_callbacks s = pm_callbacks e \<and> sa_rfds (pm_aio s) - {3} = ep_rd (pm_aio e) \<and> sa_wfds (pm_aio s) = ep_wr (pm_aio e)"
proof -
  have "allowed 3 [Add 5 CB_RDONLY 1, Add 7 CB_RDWR 2, Del 7 CB_WRONLY, Del 5 CB_RDWR] (\<lambda>_. None, {}, {})"
    by (simp add: usable_def MAX_POLL_FDS_def flag_sets)
  from select_and_epoll_agree [OF this] show ?thesis by blast
qed

subsection \<open>What a round of the loop reports\<close>

lemma wait_collect_eq:
  "wait_collect p high tr tw =
     (filter (\<lambda>fd. fd \<in> tr \<and> fd \<noteq> p) [0..<high + 1], filter (\<lambda>fd. fd \<in> tw \<and> \<not> (fd = p \<and> p \<in> tr)) [0..<high + 1], p \<in> tr \<and> p \<le> high)"
proof -
  have "foldl (collect_fd p tr tw) ([], [], False) [0..<n] =
      (filter (\<lambda>fd. fd \<in> tr \<and> fd \<noteq> p) [0..<n], filter (\<lambda>fd. fd \<in> tw \<and> \<not> (fd = p \<and> p \<in> tr)) [0..<n], p \<in> tr \<and> p < n)" for n
    by (induction n) (auto simp: collect_fd_def)
  from this [of "high + 1"] show ?thesis by (simp add: wait_collect_def less_Suc_eq_le del: upt_Suc)
qed


text \<open>
  Since \<^verbatim>\<open>highfds_\<close> is the greatest watched descriptor, no ready descriptor is missed: the lists are
  exactly the ready ones in ascending order, without the pipe.
\<close>

lemma select_reports_ready:
  assumes "select_inv p s" and "wait_sets s = (r, w, high)" and "tr \<subseteq> r" and "tw \<subseteq> w"
  shows "wait_collect p high tr tw = (sorted_list_of_set (tr - {p}), sorted_list_of_set tw, p \<in> tr)"
proof -
  have le: "i \<le> high" if "i \<in> tr \<union> tw" for i using assms that by (auto simp: select_inv_def wait_sets_def)
  have f: "filter P [0..<high + 1] = sorted_list_of_set {i. P i \<and> i \<le> high}" for P
  proof (rule sorted_distinct_set_unique)
    show "sorted (filter P [0..<high + 1])" by (rule sorted_wrt_filter) (rule sorted_upt)
    show "set (filter P [0..<high + 1]) = set (sorted_list_of_set {i. P i \<and> i \<le> high})" by (auto simp del: upt_Suc)
  qed simp_all
  have p: "p \<notin> tw" using assms by (auto simp: select_inv_def wait_sets_def)
  have "{i. (i \<in> tr \<and> i \<noteq> p) \<and> i \<le> high} = tr - {p}" using le by blast
  moreover have "{i. (i \<in> tw \<and> \<not> (i = p \<and> p \<in> tr)) \<and> i \<le> high} = tw" using le p by blast
  moreover have "p \<in> tr \<and> p \<le> high \<longleftrightarrow> p \<in> tr" using le by blast
  ultimately show ?thesis unfolding wait_collect_eq f by simp
qed

subsection \<open>Removing a descriptor\<close>

text \<open>
  The thread of the poll manager against any number of threads that add and delete callbacks and
  remove descriptors.  The thread is at the head of its loop, in \<^verbatim>\<open>select\<close> with its copies of the sets, or
  works through what was ready, possibly inside a callback.  A thread in \<^verbatim>\<open>block_remove_fd\<close> waits for
  the broadcast or has been woken by it.  \<open>ps_quiet\<close> holds the descriptors whose removal has returned
  and that were not added since.
\<close>

datatype poll_pc =
    Loop_Head
  | In_Select "nat set" "nat set" nat
  | Ready "nat list" "nat list"
  | In_Callback nat nat "nat list" "nat list"

datatype remover = Waiting | Woken

record poll_sys =
  ps_mgr :: "select_aio pollmgr"
  ps_pc :: poll_pc
  ps_removing :: "nat \<Rightarrow> remover option"
  ps_quiet :: "nat set"





abbreviation watched :: "poll_sys \<Rightarrow> nat set" where
  "watched s \<equiv> sa_rfds (pm_aio (ps_mgr s)) \<union> sa_wfds (pm_aio (ps_mgr s))"
















text \<open>\<^verbatim>\<open>CB_MASK\<close> is the complement of the two flag bits, so \<^verbatim>\<open>EPollAIO::is_watched\<close> never finds a watched descriptor.\<close>

lemma epoll_is_watched_never:
  assumes "epoll_inv s" and "usable p fd flag"
  shows "ep_is_watched fd flag s = Inr False"
proof -
  have "ep_fdstatus s fd \<in> {0, 0x1, 0x10, 0x11}" using assms(1) by (simp add: epoll_inv_def)
  then have "ep_fdstatus s fd AND flag_bits CB_MASK = 0" by auto
  with assms(2) show ?thesis by (auto simp: ep_is_watched_def usable_def)
qed

end
