(* ===== verification/Connection.thy ===== *)
theory Connection
  imports Marshall Poll_Mgr
begin

text \<open>
  TCP connections of the RPC library, \<^verbatim>\<open>rpc/connection.cc\<close>: sending a PDU in pieces, reassembling PDUs from
  the pieces that arrive, closing, reference counts, and the table of accepted connections.  What
  \<^verbatim>\<open>read\<close> and \<^verbatim>\<open>write\<close> return is an argument; calls of the poll manager are listed in the result.
\<close>

section \<open>State\<close>

definition MAX_PDU :: int where "MAX_PDU = 10485760"

text \<open>A buffer is a list of cells that may not have been written yet; \<^term>\<open>None\<close> is the null pointer.\<close>

record charbuf =
  cb_buf :: "u8 option list option"
  cb_sz :: int
  cb_solong :: int

definition charbuf_new :: charbuf where
  "charbuf_new = \<lparr>cb_buf = None, cb_sz = 0, cb_solong = 0\<rparr>"

record connection =
  cx_fd :: nat
  cx_dead :: bool
  cx_wpdu :: charbuf
  cx_rpdu :: charbuf
  cx_waiters :: int
  cx_refno :: int
  cx_lossy :: int

datatype poll_call = Add_Callback poll_flag | Del_Callback poll_flag | Block_Remove | Shutdown

definition connection_new :: "nat \<Rightarrow> int \<Rightarrow> connection \<times> poll_call list" where
  "connection_new fd lossy =
     (\<lparr>cx_fd = fd, cx_dead = False, cx_wpdu = charbuf_new, cx_rpdu = charbuf_new, cx_waiters = 0, cx_refno = 1, cx_lossy = lossy\<rparr>,
      [Add_Callback CB_RDONLY])"

section \<open>Life time\<close>

definition connection_delete :: "connection \<Rightarrow> unit res" where
  "connection_delete c = (if \<not> cx_dead c \<or> cb_buf (cx_wpdu c) \<noteq> None then Inl Verify_Failed else Inr ())"

definition cx_incref :: "connection \<Rightarrow> connection" where
  "cx_incref c = c\<lparr>cx_refno := cx_refno c + 1\<rparr>"

definition isdead :: "connection \<Rightarrow> bool" where
  "isdead c = cx_dead c"

definition closeconn :: "connection \<Rightarrow> connection \<times> poll_call list" where
  "closeconn c = (if \<not> cx_dead c then (c\<lparr>cx_dead := True\<rparr>, [Shutdown, Block_Remove]) else (c, []))"

text \<open>\<^term>\<open>None\<close> when the object was deleted.\<close>

definition cx_decref :: "connection \<Rightarrow> connection option res" where
  "cx_decref c =
     (let c = c\<lparr>cx_refno := cx_refno c - 1\<rparr>
      in if \<not> cx_refno c \<ge> 0 then Inl Verify_Failed
         else if cx_refno c = 0 \<and> cx_dead c then res_bind (connection_delete c) (\<lambda>_. Inr None)
         else Inr (Some c))"

definition cx_ref :: "connection \<Rightarrow> int" where
  "cx_ref c = cx_refno c"

section \<open>Sending\<close>

text \<open>The size in network byte order, and back.\<close>

definition htonl_bytes :: "u32 \<Rightarrow> u8 list" where
  "htonl_bytes x = [ucast (drop_bit 24 x), ucast (drop_bit 16 x), ucast (drop_bit 8 x), ucast x]"

fun ntohl_bytes :: "u8 list \<Rightarrow> u32" where
  "ntohl_bytes [b3, b2, b1, b0] = push_bit 24 (ucast b3) OR push_bit 16 (ucast b2) OR push_bit 8 (ucast b1) OR ucast b0"
| "ntohl_bytes _ = 0"

text \<open>\<open>Wrote n\<close> is a call of \<^verbatim>\<open>write\<close> that took \<open>n\<close> bytes; \<open>Write_Error e\<close> one that failed, with \<^verbatim>\<open>errno == EAGAIN\<close> or not.\<close>

datatype written = Wrote nat | Write_Error bool

text \<open>The last component is what was written.\<close>

definition writepdu :: "written \<Rightarrow> connection \<Rightarrow> (bool \<times> connection \<times> u8 option list) res" where
  "writepdu wr c =
     (let w = cx_wpdu c
      in if \<not> cb_solong w \<ge> 0 then Inl Verify_Failed
         else if cb_solong w = cb_sz w then Inr (True, c, [])
         else (case cb_buf w of
             None \<Rightarrow> Inl Null_Deref
           | Some b \<Rightarrow>
               if cb_solong w = 0 \<and> length b < 4 \<or> int (length b) < cb_sz w then Inl Out_Of_Bounds
               else let b = (if cb_solong w = 0 then map Some (htonl_bytes (word_of_int (cb_sz w))) @ drop 4 b else b);
                        w = w\<lparr>cb_buf := Some b\<rparr>
                    in (case wr of
                         Write_Error again \<Rightarrow>
                           if again then Inr (True, c\<lparr>cx_wpdu := w\<rparr>, [])
                           else Inr (False, c\<lparr>cx_wpdu := w\<lparr>cb_solong := -1, cb_sz := 0\<rparr>\<rparr>, [])
                       | Wrote n \<Rightarrow> Inr (True, c\<lparr>cx_wpdu := w\<lparr>cb_solong := cb_solong w + int n\<rparr>\<rparr>, take n (drop (nat (cb_solong w)) b)))))"

text \<open>
  \<^verbatim>\<open>send\<close> in sections: it counts itself as a waiter; while \<open>send_busy\<close> it waits for another send; then it
  writes what it can, and waits while \<open>send_waiting\<close> for the write callback to write the rest.
\<close>

datatype send_state = Send_Failed | Send_Wrote | Send_Waits | Send_Removes

definition send_enter :: "connection \<Rightarrow> connection" where
  "send_enter c = c\<lparr>cx_waiters := cx_waiters c + 1\<rparr>"

definition send_busy :: "connection \<Rightarrow> bool" where
  "send_busy c \<longleftrightarrow> \<not> cx_dead c \<and> cb_buf (cx_wpdu c) \<noteq> None"

definition send_begin :: "u8 option list \<Rightarrow> int \<Rightarrow> int \<Rightarrow> written \<Rightarrow> connection \<Rightarrow> (send_state \<times> connection \<times> u8 option list \<times> poll_call list) res" where
  "send_begin b sz rnd wr c =
     (let c = c\<lparr>cx_waiters := cx_waiters c - 1\<rparr>
      in if cx_dead c then Inr (Send_Failed, c, [], [])
         else let c = c\<lparr>cx_wpdu := \<lparr>cb_buf = Some b, cb_sz = sz, cb_solong = 0\<rparr>\<rparr>;
                  lost = (if cx_lossy c \<noteq> 0 \<and> rnd mod 100 < cx_lossy c then [Shutdown] else [])
              in res_bind (writepdu wr c) (\<lambda>(ok, c, out).
                   if \<not> ok then Inr (Send_Removes, c\<lparr>cx_dead := True\<rparr>, out, lost @ [Block_Remove])
                   else if cb_solong (cx_wpdu c) = cb_sz (cx_wpdu c) then Inr (Send_Wrote, c, out, lost)
                   else Inr (Send_Waits, c, out, lost @ [Add_Callback CB_WRONLY])))"

definition send_waiting :: "connection \<Rightarrow> bool" where
  "send_waiting c \<longleftrightarrow> \<not> cx_dead c \<and> cb_solong (cx_wpdu c) \<ge> 0 \<and> cb_solong (cx_wpdu c) < cb_sz (cx_wpdu c)"

text \<open>The end of \<^verbatim>\<open>send\<close>: its result and whether \<^verbatim>\<open>send_wait_\<close> is broadcast.\<close>

definition send_end :: "connection \<Rightarrow> bool \<times> bool \<times> connection" where
  "send_end c =
     (\<not> cx_dead c \<and> cb_solong (cx_wpdu c) = cb_sz (cx_wpdu c), cx_waiters c > 0, c\<lparr>cx_wpdu := \<lparr>cb_buf = None, cb_sz = 0, cb_solong = 0\<rparr>\<rparr>)"

text \<open>The third component of the result says whether \<^verbatim>\<open>send_complete_\<close> is signalled.\<close>

definition write_cb :: "nat \<Rightarrow> written \<Rightarrow> connection \<Rightarrow> (connection \<times> u8 option list \<times> bool \<times> poll_call list) res" where
  "write_cb s wr c =
     (if cx_dead c \<or> cx_fd c \<noteq> s then Inl Verify_Failed
      else if cb_sz (cx_wpdu c) = 0 then Inr (c, [], False, [Del_Callback CB_WRONLY])
      else res_bind (writepdu wr c) (\<lambda>(ok, c, out).
        if \<not> ok then Inr (c\<lparr>cx_dead := True\<rparr>, out, True, [Del_Callback CB_RDWR])
        else if \<not> cb_solong (cx_wpdu c) \<ge> 0 then Inl Verify_Failed
        else if cb_solong (cx_wpdu c) < cb_sz (cx_wpdu c) then Inr (c, out, False, [])
        else Inr (c, out, True, [])))"

section \<open>Receiving\<close>

text \<open>\<open>Data []\<close> is the end of the stream.\<close>

datatype readres = Data "u8 list" | Read_Error bool

text \<open>
  \<open>rd1\<close> and \<open>rd2\<close> are what the two calls of \<^verbatim>\<open>read\<close> return and \<open>stale\<close> says whether \<^verbatim>\<open>errno\<close> was \<^verbatim>\<open>EAGAIN\<close> before: the second test
  looks at it even if \<^verbatim>\<open>read\<close> returned 0.  The size is converted to an unsigned 64-bit number when the
  buffer is allocated, and the allocation of more than half of the address space fails.
\<close>

definition read_size :: "readres \<Rightarrow> connection \<Rightarrow> (bool \<times> connection) res" where
  "read_size rd1 c =
     (case rd1 of
        Read_Error again \<Rightarrow> if again then Inl Verify_Failed else Inr (False, c)
      | Data bs \<Rightarrow>
          if length bs \<noteq> 4 then Inr (False, c)
          else let sz = sint (ntohl_bytes bs)
               in if sz > MAX_PDU then Inr (False, c)
                  else if cb_buf (cx_rpdu c) \<noteq> None then Inl Verify_Failed
                  else if sz + 4 < 0 then Inl Verify_Failed
                  else if sz + 4 < 4 then Inl Out_Of_Bounds
                  else Inr (True, c\<lparr>cx_rpdu := \<lparr>cb_buf = Some (map Some bs @ replicate (nat sz) None), cb_sz = sz, cb_solong = 4\<rparr>\<rparr>))"

definition read_body :: "bool \<Rightarrow> readres \<Rightarrow> connection \<Rightarrow> (bool \<times> connection) res" where
  "read_body stale rd2 c =
     (let r = cx_rpdu c
      in case rd2 of
           Read_Error again \<Rightarrow> if again then Inr (True, c) else Inr (False, c\<lparr>cx_rpdu := charbuf_new\<rparr>)
         | Data [] \<Rightarrow> if stale then Inr (True, c) else Inr (False, c\<lparr>cx_rpdu := charbuf_new\<rparr>)
         | Data bs \<Rightarrow>
             (case cb_buf r of
                None \<Rightarrow> Inl Null_Deref
              | Some b \<Rightarrow>
                  let k = nat (cb_solong r)
                  in if length b < k + length bs then Inl Out_Of_Bounds
                     else Inr (True, c\<lparr>cx_rpdu := r\<lparr>cb_buf := Some (take k b @ map Some bs @ drop (k + length bs) b),
                                                     cb_solong := cb_solong r + int (length bs)\<rparr>\<rparr>)))"

definition readpdu :: "bool \<Rightarrow> readres \<Rightarrow> readres \<Rightarrow> connection \<Rightarrow> (bool \<times> connection) res" where
  "readpdu stale rd1 rd2 c =
     (if cb_sz (cx_rpdu c) = 0
      then res_bind (read_size rd1 c) (\<lambda>(ok, c). if ok then read_body stale rd2 c else Inr (False, c))
      else read_body stale rd2 c)"

text \<open>
  \<open>consumed\<close> is what \<^verbatim>\<open>got_pdu\<close> of the channel manager returns, if it is called; the second component of
  the result is the PDU it was called with.
\<close>

definition read_cb :: "nat \<Rightarrow> bool \<Rightarrow> readres \<Rightarrow> readres \<Rightarrow> bool \<Rightarrow> connection \<Rightarrow> (connection \<times> u8 option list option \<times> poll_call list) res" where
  "read_cb s stale rd1 rd2 consumed c =
     (if cx_fd c \<noteq> s then Inl Verify_Failed
      else if cx_dead c then Inr (c, None, [])
      else res_bind (if cb_buf (cx_rpdu c) = None \<or> cb_solong (cx_rpdu c) < cb_sz (cx_rpdu c) then readpdu stale rd1 rd2 c else Inr (True, c))
        (\<lambda>(succ, c).
           let (c, calls) = (if \<not> succ then (c\<lparr>cx_dead := True\<rparr>, [Del_Callback CB_RDWR]) else (c, []))
           in case cb_buf (cx_rpdu c) of
                None \<Rightarrow> Inr (c, None, calls)
              | Some b \<Rightarrow>
                  if cb_sz (cx_rpdu c) = cb_solong (cx_rpdu c)
                  then Inr (if consumed then c\<lparr>cx_rpdu := charbuf_new\<rparr> else c, Some (take (nat (cb_sz (cx_rpdu c))) b), calls)
                  else Inr (c, None, calls)))"

section \<open>Accepted connections\<close>

text \<open>
  The loop of \<^verbatim>\<open>process_accept\<close> over the table: a dead connection that only the table refers to is
  deleted.  \<open>s1\<close> is the descriptor that \<^verbatim>\<open>accept\<close> returned.
\<close>

fun collect_conns :: "(nat, connection) smap \<Rightarrow> (nat, connection) smap res" where
  "collect_conns [] = Inr []"
| "collect_conns ((fd, c) # m) =
     (if isdead c \<and> cx_ref c = 1
      then res_bind (cx_decref c) (\<lambda>_. collect_conns m)
      else res_bind (collect_conns m) (\<lambda>m'. Inr ((fd, c) # m')))"

definition process_accept :: "nat \<Rightarrow> int \<Rightarrow> (nat, connection) smap \<Rightarrow> (nat, connection) smap res" where
  "process_accept s1 lossy conns =
     (let (ch, _) = connection_new s1 lossy in res_bind (collect_conns conns) (\<lambda>conns. Inr (smap_set (cx_fd ch) ch conns)))"

fun tcpsconn_delete :: "(nat, connection) smap \<Rightarrow> unit res" where
  "tcpsconn_delete [] = Inr ()"
| "tcpsconn_delete ((fd, c) # m) = res_bind (cx_decref (fst (closeconn c))) (\<lambda>_. tcpsconn_delete m)"

text \<open>\<open>s\<close> is the connected socket, if \<^verbatim>\<open>connect\<close> succeeded.\<close>

definition connect_to_dst :: "nat option \<Rightarrow> int \<Rightarrow> connection option" where
  "connect_to_dst s lossy = map_option (\<lambda>fd. fst (connection_new fd lossy)) s"

end
