(* ===== verification/Connection_Link.thy ===== *)
theory Connection_Link
  imports Connection
begin

text \<open>
  Two connections and the byte stream between them: whatever pieces \<^verbatim>\<open>write\<close> and \<^verbatim>\<open>read\<close> transfer, the PDUs
  that the receiver hands to its channel manager are those that were sent, in order.
\<close>

section \<open>Frames\<close>

text \<open>A PDU travels with its size in the first four bytes, which the sender leaves free.\<close>

definition frame :: "u8 list \<Rightarrow> u8 list" where
  "frame b = htonl_bytes (word_of_int (int (length b))) @ drop 4 b"

definition pdu_ok :: "u8 list \<Rightarrow> bool" where
  "pdu_ok b \<longleftrightarrow> 4 \<le> length b \<and> int (length b) \<le> MAX_PDU"

definition frame_ok :: "u8 list \<Rightarrow> bool" where
  "frame_ok f \<longleftrightarrow> pdu_ok f \<and> take 4 f = htonl_bytes (word_of_int (int (length f)))"

lemma length_htonl [simp]: "length (htonl_bytes x) = 4"
  by (simp add: htonl_bytes_def)

lemma ntohl_htonl [simp]: "ntohl_bytes (htonl_bytes x) = x"
  using u32_of_bytes [of x] by (simp add: htonl_bytes_def byte_simps)

lemma length_frame [simp]: "4 \<le> length b \<Longrightarrow> length (frame b) = length b"
  by (simp add: frame_def)

lemma frame_ok_frame: "pdu_ok b \<Longrightarrow> frame_ok (frame b)"
  by (simp add: frame_ok_def pdu_ok_def) (simp add: frame_def)

lemma frame_size:
  assumes "frame_ok f"
  shows "sint (ntohl_bytes (take 4 f)) = int (length f)"
proof -
  have "signed_take_bit 31 (int (length f)) = int (length f)"
    using assms by (intro signed_take_bit_int_eq_self) (simp_all add: frame_ok_def pdu_ok_def MAX_PDU_def)
  then have "sint (word_of_int (int (length f)) :: u32) = int (length f)" by (simp only: sint_sbintrunc') simp
  then show ?thesis using assms by (simp only: frame_ok_def ntohl_htonl)
qed

text \<open>What has been read of a PDU determines it: its size comes first.\<close>

lemma frames_delimited:
  assumes f: "\<forall>f \<in> set sent. frame_ok f" and eq: "concat (take g sent) @ p @ chan = take n (concat sent)" and p: "4 \<le> length p" and "g \<le> length sent"
  shows "g < length sent" "sint (ntohl_bytes (take 4 p)) = int (length (sent ! g))" "length p = length (sent ! g) \<Longrightarrow> p = sent ! g"
proof -
  have split: "concat sent = concat (take g sent) @ concat (drop g sent)" by (metis append_take_drop_id concat_append)
  have "length (concat (take g sent) @ p @ chan) \<le> n" by (simp only: eq length_take)
  then have "take n (concat (take g sent)) = concat (take g sent)" by simp
  then have pc: "p @ chan = take (n - length (concat (take g sent))) (concat (drop g sent))"
    using eq unfolding split by simp
  show g: "g < length sent"
  proof (rule ccontr)
    assume "\<not> ?thesis"
    then have "p = []" using pc by simp
    with p show False by simp
  qed
  define h rest where "h = sent ! g" and "rest = concat (drop (Suc g) sent)"
  have h: "frame_ok h" using f g by (simp add: h_def)
  have "p @ chan = take (n - length (concat (take g sent))) (h @ rest)" using pc g by (simp add: Cons_nth_drop_Suc [symmetric] h_def rest_def)
  then obtain m where m: "p @ chan = take m (h @ rest)" by blast
  have "take 4 p = take 4 (take m (h @ rest))" using m p by (metis take_append diff_is_0_eq' take_0 append_Nil2)
  moreover have "4 \<le> m"
  proof -
    have "length (p @ chan) \<le> m" unfolding m by simp
    with p show ?thesis by simp
  qed
  ultimately have "take 4 p = take 4 h" using h by (simp add: frame_ok_def pdu_ok_def min_def)
  with frame_size [OF h] show "sint (ntohl_bytes (take 4 p)) = int (length (sent ! g))" by (simp add: h_def)
  show "p = sent ! g" if "length p = length (sent ! g)"
  proof -
    have "take (length h) (p @ chan) = take (length h) (take m (h @ rest))" by (simp only: m)
    moreover have "length h \<le> m"
    proof -
      have "length (p @ chan) \<le> m" unfolding m by simp
      with that show ?thesis by (simp add: h_def)
    qed
    ultimately show ?thesis using that by (simp add: h_def min_def)
  qed
qed

section \<open>The link\<close>

text \<open>
  \<open>lk_pc\<close> is where the send that owns \<^verbatim>\<open>wpdu_\<close> is, if there is one; \<open>lk_chan\<close> are the bytes under way.  \<open>lk_sent\<close> lists
  the frames of the PDUs whose sending began, \<open>lk_out\<close> counts the bytes written, and \<open>lk_got\<close> lists the PDUs
  that the channel manager of the receiver consumed.
\<close>

record link =
  lk_snd :: connection
  lk_rcv :: connection
  lk_pc :: "send_state option"
  lk_chan :: "u8 list"
  lk_sent :: "u8 list list"
  lk_out :: nat
  lk_got :: "u8 option list list"

fun wr_ok :: "nat \<Rightarrow> written \<Rightarrow> bool" where
  "wr_ok k (Wrote n) \<longleftrightarrow> n \<le> k"
| "wr_ok k (Write_Error e) \<longleftrightarrow> True"

fun data_of :: "readres \<Rightarrow> u8 list" where
  "data_of (Data bs) = bs"
| "data_of (Read_Error e) = []"

text \<open>The bytes that \<^verbatim>\<open>read_cb\<close> takes from the stream, and the size of its second read.\<close>

definition reads_size :: "connection \<Rightarrow> bool" where
  "reads_size c \<longleftrightarrow> cb_sz (cx_rpdu c) = 0"

definition reads_any :: "connection \<Rightarrow> bool" where
  "reads_any c \<longleftrightarrow> \<not> cx_dead c \<and> (cb_buf (cx_rpdu c) = None \<or> cb_solong (cx_rpdu c) < cb_sz (cx_rpdu c))"

definition size_read :: "readres \<Rightarrow> connection \<Rightarrow> bool" where
  "size_read rd1 c \<longleftrightarrow> (case read_size rd1 c of Inr (True, _) \<Rightarrow> True | _ \<Rightarrow> False)"

definition bytes_read :: "readres \<Rightarrow> readres \<Rightarrow> connection \<Rightarrow> u8 list" where
  "bytes_read rd1 rd2 c =
     (if \<not> reads_any c then []
      else if reads_size c then data_of rd1 @ (if size_read rd1 c then data_of rd2 else [])
      else data_of rd2)"

definition second_count :: "readres \<Rightarrow> connection \<Rightarrow> int" where
  "second_count rd1 c = (if reads_size c then sint (ntohl_bytes (data_of rd1)) - 4 else cb_sz (cx_rpdu c) - cb_solong (cx_rpdu c))"

text \<open>
  A \<^verbatim>\<open>read\<close> returns at most as many bytes as it was asked for, where a negative count is a huge one,
  and a descriptor that \<^verbatim>\<open>select\<close> reported does not make the first one fail with \<^verbatim>\<open>EAGAIN\<close>.
\<close>

definition rd_ok :: "readres \<Rightarrow> readres \<Rightarrow> connection \<Rightarrow> bool" where
  "rd_ok rd1 rd2 c \<longleftrightarrow> rd1 \<noteq> Read_Error True \<and> (second_count rd1 c < 0 \<or> int (length (data_of rd2)) \<le> second_count rd1 c)"

inductive link_step :: "link \<Rightarrow> link \<Rightarrow> bool" where
  l_enter: "link_step s (s\<lparr>lk_snd := send_enter (lk_snd s)\<rparr>)"
| l_refused: "send_begin b sz rnd wr (lk_snd s) = Inr (Send_Failed, c, out, calls) \<Longrightarrow> link_step s (s\<lparr>lk_snd := c\<rparr>)"
| l_begin: "\<not> send_busy (lk_snd s) \<Longrightarrow> pdu_ok b \<Longrightarrow> wr_ok (length b) wr \<Longrightarrow>
    send_begin (map Some b) (int (length b)) rnd wr (lk_snd s) = Inr (st, c, out, calls) \<Longrightarrow> st \<noteq> Send_Failed \<Longrightarrow>
    link_step s (s\<lparr>lk_snd := c, lk_pc := Some st, lk_chan := lk_chan s @ map the out, lk_sent := lk_sent s @ [frame b], lk_out := lk_out s + length out\<rparr>)"
| l_write: "wr_ok (nat (cb_sz (cx_wpdu (lk_snd s)) - cb_solong (cx_wpdu (lk_snd s)))) wr \<Longrightarrow>
    write_cb (cx_fd (lk_snd s)) wr (lk_snd s) = Inr (c, out, signalled, calls) \<Longrightarrow>
    link_step s (s\<lparr>lk_snd := c, lk_chan := lk_chan s @ map the out, lk_out := lk_out s + length out\<rparr>)"
| l_end: "lk_pc s = Some st \<Longrightarrow> st = Send_Waits \<longrightarrow> \<not> send_waiting (lk_snd s) \<Longrightarrow> send_end (lk_snd s) = (ret, wake, c) \<Longrightarrow>
    link_step s (s\<lparr>lk_snd := c, lk_pc := None\<rparr>)"
| l_close_snd: "link_step s (s\<lparr>lk_snd := fst (closeconn (lk_snd s))\<rparr>)"
| l_close_rcv: "link_step s (s\<lparr>lk_rcv := fst (closeconn (lk_rcv s))\<rparr>)"
| l_read: "rd_ok rd1 rd2 (lk_rcv s) \<Longrightarrow> lk_chan s = bytes_read rd1 rd2 (lk_rcv s) @ rest \<Longrightarrow>
    read_cb (cx_fd (lk_rcv s)) stale rd1 rd2 consumed (lk_rcv s) = Inr (c, pdu, calls) \<Longrightarrow>
    link_step s (s\<lparr>lk_rcv := c, lk_chan := rest, lk_got := lk_got s @ (case pdu of None \<Rightarrow> [] | Some x \<Rightarrow> if consumed then [x] else [])\<rparr>)"

definition link_init :: "link \<Rightarrow> bool" where
  "link_init s \<longleftrightarrow> (\<exists>f l. lk_snd s = fst (connection_new f l)) \<and> (\<exists>f l. lk_rcv s = fst (connection_new f l)) \<and>
     lk_pc s = None \<and> lk_chan s = [] \<and> lk_sent s = [] \<and> lk_out s = 0 \<and> lk_got s = []"

section \<open>Invariant\<close>

definition sending :: "charbuf \<Rightarrow> u8 list \<Rightarrow> bool" where
  "sending w f \<longleftrightarrow> (\<exists>b. cb_buf w = Some b \<and> cb_sz w = int (length f) \<and> 0 \<le> cb_solong w \<and> cb_solong w \<le> cb_sz w \<and>
     length b = length f \<and> drop 4 b = map Some (drop 4 f) \<and> (0 < cb_solong w \<longrightarrow> b = map Some f))"

definition snd_inv :: "link \<Rightarrow> bool" where
  "snd_inv s \<longleftrightarrow> (\<forall>f \<in> set (lk_sent s). frame_ok f) \<and> lk_out s \<le> length (concat (lk_sent s)) \<and>
     (\<not> cx_dead (lk_snd s) \<longrightarrow>
        (case lk_pc s of
           None \<Rightarrow> cx_wpdu (lk_snd s) = charbuf_new \<and> lk_out s = length (concat (lk_sent s))
         | Some st \<Rightarrow> \<exists>sent f. lk_sent s = sent @ [f] \<and> sending (cx_wpdu (lk_snd s)) f \<and>
             lk_out s = length (concat sent) + nat (cb_solong (cx_wpdu (lk_snd s)))))"

definition receiving :: "charbuf \<Rightarrow> u8 list \<Rightarrow> bool" where
  "receiving r p \<longleftrightarrow> r = charbuf_new \<and> p = [] \<or>
     (\<exists>b. cb_buf r = Some b \<and> 4 \<le> length p \<and> cb_solong r = int (length p) \<and> cb_sz r = sint (ntohl_bytes (take 4 p)) \<and>
        int (length p) \<le> cb_sz r \<and> take (length p) b = map Some p \<and> length b = nat (cb_sz r) + 4)"

definition rcv_inv :: "link \<Rightarrow> bool" where
  "rcv_inv s \<longleftrightarrow> length (lk_got s) \<le> length (lk_sent s) \<and> lk_got s = map (map Some) (take (length (lk_got s)) (lk_sent s)) \<and>
     (\<not> cx_dead (lk_rcv s) \<longrightarrow> (\<exists>p. receiving (cx_rpdu (lk_rcv s)) p \<and>
        concat (take (length (lk_got s)) (lk_sent s)) @ p @ lk_chan s = take (lk_out s) (concat (lk_sent s))))"

text \<open>Writing a piece of a frame.\<close>

lemma writepdu_effect:
  assumes s: "sending (cx_wpdu c) f" and f: "frame_ok f" and wr: "wr_ok (nat (cb_sz (cx_wpdu c) - cb_solong (cx_wpdu c))) wr"
  shows "\<exists>ok c' n. writepdu wr c = Inr (ok, c', map Some (take n (drop (nat (cb_solong (cx_wpdu c))) f))) \<and> cx_dead c' = cx_dead c \<and> cx_fd c' = cx_fd c \<and>
     nat (cb_solong (cx_wpdu c)) + n \<le> length f \<and> (ok \<longrightarrow> sending (cx_wpdu c') f \<and> cb_solong (cx_wpdu c') = cb_solong (cx_wpdu c) + int n)"
proof -
  let ?w = "cx_wpdu c" and ?k = "nat (cb_solong (cx_wpdu c))"
  obtain b where b: "cb_buf ?w = Some b" "cb_sz ?w = int (length f)" "0 \<le> cb_solong ?w" "cb_solong ?w \<le> cb_sz ?w"
      "length b = length f" "drop 4 b = map Some (drop 4 f)" "0 < cb_solong ?w \<longrightarrow> b = map Some f"
    using s by (auto simp: sending_def)
  have f4: "4 \<le> length f" "take 4 f = htonl_bytes (word_of_int (cb_sz ?w))" using f b(2) by (simp_all add: frame_ok_def pdu_ok_def)
  define b' where "b' = (if cb_solong ?w = 0 then map Some (htonl_bytes (word_of_int (cb_sz ?w))) @ drop 4 b else b)"
  have "map Some (take 4 f) @ map Some (drop 4 f) = map Some f" by (metis append_take_drop_id map_append)
  then have b': "b' = map Some f" using b(3,6,7) f4(2) by (auto simp: b'_def)
  show ?thesis
  proof (cases "cb_solong ?w = cb_sz ?w")
    case True
    then show ?thesis using b s by (intro exI [of _ True] exI [of _ c] exI [of _ 0]) (simp add: writepdu_def)
  next
    case False
    have step: "writepdu wr c = (case wr of
        Write_Error again \<Rightarrow> if again then Inr (True, c\<lparr>cx_wpdu := ?w\<lparr>cb_buf := Some (map Some f)\<rparr>\<rparr>, [])
          else Inr (False, c\<lparr>cx_wpdu := ?w\<lparr>cb_buf := Some (map Some f), cb_solong := -1, cb_sz := 0\<rparr>\<rparr>, [])
      | Wrote n \<Rightarrow> Inr (True, c\<lparr>cx_wpdu := ?w\<lparr>cb_buf := Some (map Some f), cb_solong := cb_solong ?w + int n\<rparr>\<rparr>, take n (drop ?k (map Some f))))"
      using False b f4(1) b' unfolding b'_def writepdu_def by (cases wr) (simp_all add: Let_def cong: if_cong)
    show ?thesis
    proof (cases wr)
      case (Wrote n)
      with wr b have "?k + n \<le> length f" by simp
      with Wrote step b show ?thesis
        by (intro exI [of _ True] exI [of _ "c\<lparr>cx_wpdu := ?w\<lparr>cb_buf := Some (map Some f), cb_solong := cb_solong ?w + int n\<rparr>\<rparr>"] exI [of _ n])
           (auto simp: sending_def take_map drop_map)
    next
      case (Write_Error e)
      with step b show ?thesis
        by (cases e) (fastforce simp: sending_def drop_map)+
    qed
  qed
qed

text \<open>Steps of the sender.\<close>

lemma take_grow:
  assumes "xs = take n zs" and "n \<le> length zs" and "ys = take k (drop n zs)" and "n + k \<le> length zs"
  shows "xs @ ys = take (n + length ys) zs"
  using assms by (simp add: take_add min_def)

lemma snd_rcv_frame:
  assumes "rcv_inv s" and "lk_sent t = lk_sent s @ new" and "lk_rcv t = lk_rcv s" and "lk_got t = lk_got s" and "lk_chan t = lk_chan s @ out"
    and "lk_out s \<le> length (concat (lk_sent s))"
    and "out = take k (drop (lk_out s) (concat (lk_sent t)))" and "lk_out s + k \<le> length (concat (lk_sent t))" and "lk_out t = lk_out s + length out"
  shows "rcv_inv t"
proof -
  have got: "length (lk_got t) \<le> length (lk_sent t) \<and> lk_got t = map (map Some) (take (length (lk_got t)) (lk_sent t))"
    using assms(1,2,4) by (simp add: rcv_inv_def)
  moreover have "\<exists>p. receiving (cx_rpdu (lk_rcv t)) p \<and> concat (take (length (lk_got t)) (lk_sent t)) @ p @ lk_chan t = take (lk_out t) (concat (lk_sent t))"
    if alive: "\<not> cx_dead (lk_rcv t)"
  proof -
    obtain p where p: "receiving (cx_rpdu (lk_rcv s)) p" "concat (take (length (lk_got s)) (lk_sent s)) @ p @ lk_chan s = take (lk_out s) (concat (lk_sent s))"
      using assms(1,3) alive by (auto simp: rcv_inv_def)
    have "take (lk_out s) (concat (lk_sent s)) = take (lk_out s) (concat (lk_sent t))" using assms(2,6) by simp
    moreover have "lk_out s \<le> length (concat (lk_sent t))" using assms(2,6) by simp
    ultimately have "(concat (take (length (lk_got s)) (lk_sent s)) @ p @ lk_chan s) @ out = take (lk_out s + length out) (concat (lk_sent t))"
      using take_grow [OF _ _ assms(7,8)] p(2) by metis
    then show ?thesis using p(1) assms(1-5,9) by (auto simp: rcv_inv_def)
  qed
  ultimately show ?thesis by (simp add: rcv_inv_def)
qed

lemma begin_inv:
  assumes inv: "snd_inv s" "rcv_inv s" and busy: "\<not> send_busy (lk_snd s)" and b: "pdu_ok b" and wr: "wr_ok (length b) wr"
    and beg: "send_begin (map Some b) (int (length b)) rnd wr (lk_snd s) = Inr (st, c, out, calls)" and st: "st \<noteq> Send_Failed"
    and t: "t = s\<lparr>lk_snd := c, lk_pc := Some st, lk_chan := lk_chan s @ map the out, lk_sent := lk_sent s @ [frame b], lk_out := lk_out s + length out\<rparr>"
  shows "snd_inv t \<and> rcv_inv t"
proof -
  let ?c = "(lk_snd s)\<lparr>cx_waiters := cx_waiters (lk_snd s) - 1, cx_wpdu := \<lparr>cb_buf = Some (map Some b), cb_sz = int (length b), cb_solong = 0\<rparr>\<rparr>"
  have alive: "\<not> cx_dead (lk_snd s)" using beg st by (auto simp: send_begin_def Let_def split: if_splits)
  have "lk_pc s = None" using busy inv(1) alive by (auto simp: send_busy_def snd_inv_def sending_def split: option.splits)
  then have out: "lk_out s = length (concat (lk_sent s))" using inv(1) alive by (simp add: snd_inv_def)
  have b4: "4 \<le> length b" using b by (simp add: pdu_ok_def)
  then have "sending (cx_wpdu ?c) (frame b)" by (simp add: sending_def frame_def drop_map)
  from writepdu_effect [OF this frame_ok_frame [OF b], of wr] wr b4 obtain ok c' n where w: "writepdu wr ?c = Inr (ok, c', map Some (take n (frame b)))"
      "\<not> cx_dead c'" "n \<le> length b" "ok \<longrightarrow> sending (cx_wpdu c') (frame b) \<and> cb_solong (cx_wpdu c') = int n"
    using alive by auto
  have c: "out = map Some (take n (frame b))" "(\<not> cx_dead c \<longrightarrow> c = c' \<and> ok)"
    using beg w(1,2) alive by (auto simp: send_begin_def Let_def split: if_splits)
  have n: "length out = n" using c(1) w(3) b4 by simp
  have "snd_inv t"
    using inv(1) out frame_ok_frame [OF b] c w(3,4) b4 n by (auto simp: snd_inv_def t)
  moreover have "rcv_inv t"
    by (rule snd_rcv_frame [OF inv(2), where new = "[frame b]" and k = n and out = "map the out"]) (use out c(1) w(3) b4 n in \<open>auto simp: t comp_def\<close>)
  ultimately show ?thesis by simp
qed

lemma write_inv:
  assumes inv: "snd_inv s" "rcv_inv s" and wr: "wr_ok (nat (cb_sz (cx_wpdu (lk_snd s)) - cb_solong (cx_wpdu (lk_snd s)))) wr"
    and cb: "write_cb (cx_fd (lk_snd s)) wr (lk_snd s) = Inr (c, out, signalled, calls)"
    and t: "t = s\<lparr>lk_snd := c, lk_chan := lk_chan s @ map the out, lk_out := lk_out s + length out\<rparr>"
  shows "snd_inv t \<and> rcv_inv t"
proof -
  have alive: "\<not> cx_dead (lk_snd s)" using cb by (auto simp: write_cb_def split: if_splits)
  show ?thesis
  proof (cases "lk_pc s")
    case None
    then have "cb_sz (cx_wpdu (lk_snd s)) = 0" using inv(1) alive by (simp add: snd_inv_def charbuf_new_def)
    then have "c = lk_snd s" "out = []" using cb alive by (auto simp: write_cb_def)
    then show ?thesis using inv by (simp add: t)
  next
    case (Some st)
    then obtain sent f where f: "lk_sent s = sent @ [f]" "sending (cx_wpdu (lk_snd s)) f"
        "lk_out s = length (concat sent) + nat (cb_solong (cx_wpdu (lk_snd s)))" using inv(1) alive by (auto simp: snd_inv_def)
    have ok: "frame_ok f" using inv(1) f(1) by (simp add: snd_inv_def)
    let ?k = "nat (cb_solong (cx_wpdu (lk_snd s)))"
    from writepdu_effect [OF f(2) ok wr] alive obtain k c' n where w: "writepdu wr (lk_snd s) = Inr (k, c', map Some (take n (drop ?k f)))"
      "\<not> cx_dead c'" "?k + n \<le> length f" "k \<longrightarrow> sending (cx_wpdu c') f \<and> cb_solong (cx_wpdu c') = cb_solong (cx_wpdu (lk_snd s)) + int n" by auto
    have sz: "cb_sz (cx_wpdu (lk_snd s)) \<noteq> 0" "0 \<le> cb_solong (cx_wpdu (lk_snd s))"
      using f(2) ok by (auto simp: sending_def frame_ok_def pdu_ok_def)
    have c: "out = map Some (take n (drop ?k f))" "(\<not> cx_dead c \<longrightarrow> c = c' \<and> k)"
      using cb w(1,2) sz alive by (auto simp: write_cb_def Let_def split: if_splits)
    have n: "length out = n" using c(1) w(3) by simp
    have "snd_inv t" using inv(1) f(1,3) c w(3,4) n sz(2) Some by (auto simp: snd_inv_def t nat_add_distrib)
    moreover have "rcv_inv t"
      by (rule snd_rcv_frame [OF inv(2), where new = "[]" and k = n and out = "map the out"]) (use f(1,3) c(1) w(3) n in \<open>auto simp: t comp_def\<close>)
    ultimately show ?thesis by simp
  qed
qed

lemma end_inv:
  assumes inv: "snd_inv s" and pc: "lk_pc s = Some st" "st = Send_Waits \<longrightarrow> \<not> send_waiting (lk_snd s)"
    and fin: "\<not> cx_dead (lk_snd s) \<Longrightarrow> st \<noteq> Send_Waits \<Longrightarrow> cb_solong (cx_wpdu (lk_snd s)) = cb_sz (cx_wpdu (lk_snd s))"
    and e: "send_end (lk_snd s) = (ret, wake, c)"
  shows "snd_inv (s\<lparr>lk_snd := c, lk_pc := None\<rparr>)"
proof -
  have c: "cx_dead c = cx_dead (lk_snd s)" "cx_wpdu c = charbuf_new" using e by (auto simp: send_end_def charbuf_new_def)
  have "lk_out s = length (concat (lk_sent s))" if alive: "\<not> cx_dead (lk_snd s)"
  proof -
    obtain sent f where f: "lk_sent s = sent @ [f]" "sending (cx_wpdu (lk_snd s)) f"
        "lk_out s = length (concat sent) + nat (cb_solong (cx_wpdu (lk_snd s)))" using inv pc(1) alive by (auto simp: snd_inv_def)
    then have "cb_solong (cx_wpdu (lk_snd s)) = int (length f)"
      using fin [OF alive] pc(2) alive by (cases "st = Send_Waits") (auto simp: send_waiting_def sending_def)
    with f show ?thesis by simp
  qed
  with inv c show ?thesis by (simp add: snd_inv_def)
qed

text \<open>Steps of the receiver.\<close>

lemma read_size_effect:
  assumes "cx_rpdu c = charbuf_new" and "length bs = 4" and "4 \<le> sint (ntohl_bytes bs)" "sint (ntohl_bytes bs) \<le> MAX_PDU"
  shows "\<exists>c'. read_size (Data bs) c = Inr (True, c') \<and> receiving (cx_rpdu c') bs \<and> cx_dead c' = cx_dead c"
  using assms by (auto simp: read_size_def receiving_def charbuf_new_def Let_def nat_add_distrib)

lemma read_body_effect:
  assumes r: "receiving (cx_rpdu c) p" "p \<noteq> []" and fits: "int (length (data_of rd2)) \<le> cb_sz (cx_rpdu c) - cb_solong (cx_rpdu c)"
  shows "\<exists>ok c'. read_body stale rd2 c = Inr (ok, c') \<and> cx_dead c' = cx_dead c \<and>
    (if ok then receiving (cx_rpdu c') (p @ data_of rd2) else cx_rpdu c' = charbuf_new)"
proof -
  obtain b where b: "cb_buf (cx_rpdu c) = Some b" "4 \<le> length p" "cb_solong (cx_rpdu c) = int (length p)"
      "cb_sz (cx_rpdu c) = sint (ntohl_bytes (take 4 p))" "int (length p) \<le> cb_sz (cx_rpdu c)"
      "take (length p) b = map Some p" "length b = nat (cb_sz (cx_rpdu c)) + 4" using r by (auto simp: receiving_def)
  show ?thesis
  proof (cases rd2)
    case (Data bs)
    show ?thesis
    proof (cases bs)
      case Nil
      with Data r show ?thesis by (cases stale) (auto simp: read_body_def)
    next
      case (Cons x xs)
      have len: "length p + length bs \<le> length b" using fits Data b by simp
      then have "read_body stale (Data bs) c = Inr (True, c\<lparr>cx_rpdu := (cx_rpdu c)\<lparr>cb_buf := Some (map Some (p @ bs) @ drop (length p + length bs) b),
          cb_solong := int (length p) + int (length bs)\<rparr>\<rparr>)" using Cons b by (simp add: read_body_def Let_def)
      moreover have "length (drop (length p + length bs) b) = length b - (length p + length bs)" by simp
      ultimately show ?thesis using Data b len fits by (auto simp: receiving_def)
    qed
  next
    case (Read_Error e)
    with r show ?thesis by (cases e) (auto simp: read_body_def)
  qed
qed

text \<open>
  While the receiver is alive its reads do not fault, it has then read the bytes of the PDU that the
  stream holds next, and it hands over that PDU when it is complete.
\<close>

lemma readpdu_effect:
  assumes r: "receiving (cx_rpdu c) p" and alive: "\<not> cx_dead c" and any: "reads_any c" and rd: "rd_ok rd1 rd2 c"
    and size: "\<And>q rest. 4 \<le> length q \<Longrightarrow> q @ rest = p @ bytes_read rd1 rd2 c @ chan \<Longrightarrow>
      4 \<le> sint (ntohl_bytes (take 4 q)) \<and> sint (ntohl_bytes (take 4 q)) \<le> MAX_PDU"
  shows "\<exists>ok c'. readpdu stale rd1 rd2 c = Inr (ok, c') \<and> cx_dead c' = cx_dead c \<and>
    (if ok then receiving (cx_rpdu c') (p @ bytes_read rd1 rd2 c) else cx_rpdu c' = charbuf_new)"
proof (cases "p = []")
  case False
  then have "cb_sz (cx_rpdu c) \<noteq> 0" using r by (auto simp: receiving_def)
  then have e: "bytes_read rd1 rd2 c = data_of rd2" "readpdu stale rd1 rd2 c = read_body stale rd2 c"
      "second_count rd1 c = cb_sz (cx_rpdu c) - cb_solong (cx_rpdu c)"
    using any by (simp_all add: bytes_read_def reads_size_def readpdu_def second_count_def)
  have "cb_solong (cx_rpdu c) \<le> cb_sz (cx_rpdu c)" using r False by (auto simp: receiving_def)
  with rd have "int (length (data_of rd2)) \<le> cb_sz (cx_rpdu c) - cb_solong (cx_rpdu c)" by (simp add: rd_ok_def e(3))
  from read_body_effect [OF r False this, of stale] show ?thesis by (simp only: e)
next
  case True
  then have new: "cx_rpdu c = charbuf_new" using r by (auto simp: receiving_def)
  then have rs: "reads_size c" by (simp add: reads_size_def charbuf_new_def)
  show ?thesis
  proof (cases "\<exists>bs. rd1 = Data bs \<and> length bs = 4")
    case False
    then have "read_size rd1 c = Inr (False, c)" using rd by (cases rd1) (auto simp: read_size_def rd_ok_def)
    then show ?thesis using new rs by (intro exI [of _ False] exI [of _ c]) (simp add: readpdu_def reads_size_def)
  next
    case True
    then obtain bs where bs: "rd1 = Data bs" "length bs = 4" by blast
    have "\<exists>r. bs @ r = p @ bytes_read rd1 rd2 c @ chan" using any rs bs \<open>p = []\<close> by (auto simp: bytes_read_def)
    then obtain r where "bs @ r = p @ bytes_read rd1 rd2 c @ chan" ..
    then have sz: "4 \<le> sint (ntohl_bytes bs)" "sint (ntohl_bytes bs) \<le> MAX_PDU" using size [of bs r] bs(2) by simp_all
    obtain c' where c': "read_size (Data bs) c = Inr (True, c')" "receiving (cx_rpdu c') bs" "cx_dead c' = cx_dead c"
      using read_size_effect [OF new bs(2) sz] by blast
    have "bs \<noteq> []" using bs(2) by auto
    have "cb_sz (cx_rpdu c') - cb_solong (cx_rpdu c') = second_count rd1 c" "0 \<le> second_count rd1 c"
      using bs sz(1) c'(2) rs \<open>bs \<noteq> []\<close> by (auto simp: second_count_def receiving_def)
    with rd have fits: "int (length (data_of rd2)) \<le> cb_sz (cx_rpdu c') - cb_solong (cx_rpdu c')" by (simp add: rd_ok_def)
    have e: "bytes_read rd1 rd2 c = bs @ data_of rd2" "readpdu stale rd1 rd2 c = read_body stale rd2 c'"
      using c'(1) bs(1) rs any by (simp_all add: bytes_read_def size_read_def readpdu_def reads_size_def)
    from read_body_effect [OF c'(2) \<open>bs \<noteq> []\<close> fits, of stale] show ?thesis by (simp only: e c'(3) \<open>p = []\<close> append_Nil)
  qed
qed

lemma stream_size:
  assumes "\<forall>f \<in> set (lk_sent s). frame_ok f" and "length (lk_got s) \<le> length (lk_sent s)" and "4 \<le> length q" and "q @ rest = p @ lk_chan s"
    and "concat (take (length (lk_got s)) (lk_sent s)) @ p @ lk_chan s = take (lk_out s) (concat (lk_sent s))"
  shows "4 \<le> sint (ntohl_bytes (take 4 q)) \<and> sint (ntohl_bytes (take 4 q)) \<le> MAX_PDU"
proof -
  have "concat (take (length (lk_got s)) (lk_sent s)) @ q @ rest = take (lk_out s) (concat (lk_sent s))" using assms(4,5) by simp
  note q = frames_delimited [OF assms(1) this assms(3,2)]
  have "frame_ok (lk_sent s ! length (lk_got s))" using assms(1) q(1) by simp
  with q(2) show ?thesis by (simp add: frame_ok_def pdu_ok_def)
qed

definition read_some :: "bool \<Rightarrow> readres \<Rightarrow> readres \<Rightarrow> connection \<Rightarrow> (bool \<times> connection) res" where
  "read_some stale rd1 rd2 c =
     (if cb_buf (cx_rpdu c) = None \<or> cb_solong (cx_rpdu c) < cb_sz (cx_rpdu c) then readpdu stale rd1 rd2 c else Inr (True, c))"

lemma read_some_effect:
  assumes frames: "\<forall>f \<in> set (lk_sent s). frame_ok f" and got: "length (lk_got s) \<le> length (lk_sent s)" and alive: "\<not> cx_dead (lk_rcv s)"
    and rd: "rd_ok rd1 rd2 (lk_rcv s)" and chan: "lk_chan s = bytes_read rd1 rd2 (lk_rcv s) @ rest" and p: "receiving (cx_rpdu (lk_rcv s)) p"
    and eq: "concat (take (length (lk_got s)) (lk_sent s)) @ p @ lk_chan s = take (lk_out s) (concat (lk_sent s))"
  shows "\<exists>ok c. read_some stale rd1 rd2 (lk_rcv s) = Inr (ok, c) \<and> cx_dead c = cx_dead (lk_rcv s) \<and>
    (if ok then receiving (cx_rpdu c) (p @ bytes_read rd1 rd2 (lk_rcv s)) else cx_rpdu c = charbuf_new)"
proof (cases "reads_any (lk_rcv s)")
  case True
  have sz: "4 \<le> sint (ntohl_bytes (take 4 q)) \<and> sint (ntohl_bytes (take 4 q)) \<le> MAX_PDU"
    if "4 \<le> length q" "q @ r = p @ bytes_read rd1 rd2 (lk_rcv s) @ rest" for q r
    using stream_size [OF frames got that(1) _ eq, of r] that(2) by (simp add: chan)
  have "read_some stale rd1 rd2 (lk_rcv s) = readpdu stale rd1 rd2 (lk_rcv s)" using True by (simp add: read_some_def reads_any_def)
  then show ?thesis using readpdu_effect [OF p alive True rd, where chan = rest and stale = stale, OF sz] by (simp only:)
next
  case False
  then have "read_some stale rd1 rd2 (lk_rcv s) = Inr (True, lk_rcv s)" "bytes_read rd1 rd2 (lk_rcv s) = []"
    using alive by (auto simp: reads_any_def read_some_def bytes_read_def)
  with p show ?thesis by (intro exI [of _ True] exI [of _ "lk_rcv s"]) simp
qed

text \<open>What \<^verbatim>\<open>read_cb\<close> does once it has read.\<close>

lemma read_cb_unfold:
  assumes "\<not> cx_dead c" and "read_some stale rd1 rd2 c = Inr (ok, c')" and "\<not> cx_dead c'"
  shows "read_cb (cx_fd c) stale rd1 rd2 consumed c =
    Inr (if ok then (case cb_buf (cx_rpdu c') of None \<Rightarrow> (c', None, [])
           | Some b \<Rightarrow> if cb_sz (cx_rpdu c') = cb_solong (cx_rpdu c')
               then (if consumed then c'\<lparr>cx_rpdu := charbuf_new\<rparr> else c', Some (take (nat (cb_sz (cx_rpdu c'))) b), []) else (c', None, []))
         else (case cb_buf (cx_rpdu c') of None \<Rightarrow> (c'\<lparr>cx_dead := True\<rparr>, None, [Del_Callback CB_RDWR])
           | Some b \<Rightarrow> if cb_sz (cx_rpdu c') = cb_solong (cx_rpdu c')
               then (if consumed then c'\<lparr>cx_rpdu := charbuf_new, cx_dead := True\<rparr> else c'\<lparr>cx_dead := True\<rparr>, Some (take (nat (cb_sz (cx_rpdu c'))) b), [Del_Callback CB_RDWR])
               else (c'\<lparr>cx_dead := True\<rparr>, None, [Del_Callback CB_RDWR])))"
  using assms unfolding read_cb_def read_some_def [symmetric]
  by (cases "cb_buf (cx_rpdu c')") simp_all

lemma rcv_inv_cong: "lk_rcv t = lk_rcv s \<Longrightarrow> lk_chan t = lk_chan s \<Longrightarrow> lk_sent t = lk_sent s \<Longrightarrow> lk_out t = lk_out s \<Longrightarrow> lk_got t = lk_got s \<Longrightarrow> rcv_inv t = rcv_inv s"
  unfolding rcv_inv_def by (simp only:)

lemma read_alive:
  assumes inv: "snd_inv s" "rcv_inv s" and alive: "\<not> cx_dead (lk_rcv s)" and rd: "rd_ok rd1 rd2 (lk_rcv s)" and chan: "lk_chan s = bytes_read rd1 rd2 (lk_rcv s) @ rest"
  shows "\<exists>c pdu calls. read_cb (cx_fd (lk_rcv s)) stale rd1 rd2 consumed (lk_rcv s) = Inr (c, pdu, calls) \<and>
    rcv_inv (s\<lparr>lk_rcv := c, lk_chan := rest, lk_got := lk_got s @ (case pdu of None \<Rightarrow> [] | Some x \<Rightarrow> if consumed then [x] else [])\<rparr>)"
proof -
  let ?c = "lk_rcv s" and ?g = "length (lk_got s)"
  have frames: "\<forall>f \<in> set (lk_sent s). frame_ok f" using inv(1) by (simp add: snd_inv_def)
  obtain p where p: "receiving (cx_rpdu ?c) p" and eq: "concat (take ?g (lk_sent s)) @ p @ lk_chan s = take (lk_out s) (concat (lk_sent s))"
    using inv(2) alive by (auto simp: rcv_inv_def)
  have got: "?g \<le> length (lk_sent s)" "lk_got s = map (map Some) (take ?g (lk_sent s))" using inv(2) by (simp_all add: rcv_inv_def)
  define q where "q = p @ bytes_read rd1 rd2 ?c"
  obtain ok c where c: "read_some stale rd1 rd2 ?c = Inr (ok, c)" "\<not> cx_dead c" "if ok then receiving (cx_rpdu c) q else cx_rpdu c = charbuf_new"
    using read_some_effect [OF frames got(1) alive rd chan p eq, of stale] alive by (auto simp: q_def)
  note cb = read_cb_unfold [OF alive c(1,2), of consumed]
  have eq': "concat (take ?g (lk_sent s)) @ q @ rest = take (lk_out s) (concat (lk_sent s))" using eq by (simp add: q_def chan)
  have keep: ?thesis if "ok" and cb: "read_cb (cx_fd ?c) stale rd1 rd2 consumed ?c = Inr (c, pdu, calls)" and "pdu = None \<or> \<not> consumed" for pdu calls
  proof -
    let ?t = "s\<lparr>lk_rcv := c, lk_chan := rest, lk_got := lk_got s @ (case pdu of None \<Rightarrow> [] | Some x \<Rightarrow> if consumed then [x] else [])\<rparr>"
    have "lk_got ?t = lk_got s" using that(3) by (cases pdu) auto
    moreover have "receiving (cx_rpdu (lk_rcv ?t)) q" using that(1) c(3) by simp
    ultimately have "rcv_inv ?t" unfolding rcv_inv_def using got eq' by (intro conjI impI exI [of _ q]) simp_all
    with cb show ?thesis by blast
  qed
  consider (lost) "\<not> ok" | (none) ok "q = []" | (some) ok "q \<noteq> []" by blast
  then show ?thesis
  proof cases
    case lost
    moreover from lost have "rcv_inv (s\<lparr>lk_rcv := c\<lparr>cx_dead := True\<rparr>, lk_chan := rest\<rparr>)" using inv(2) by (simp add: rcv_inv_def)
    ultimately show ?thesis using c(3) by (simp add: cb charbuf_new_def)
  next
    case none
    then have "cx_rpdu c = charbuf_new" using c(3) by (auto simp: receiving_def)
    then show ?thesis using none by (intro keep [of None "[]"]) (simp_all add: cb charbuf_new_def)
  next
    case some
    then obtain b where b: "cb_buf (cx_rpdu c) = Some b" "4 \<le> length q" "cb_solong (cx_rpdu c) = int (length q)" "cb_sz (cx_rpdu c) = sint (ntohl_bytes (take 4 q))"
        "take (length q) b = map Some q" using c(3) by (auto simp: receiving_def)
    note del = frames_delimited [OF frames eq' b(2) got(1)]
    show ?thesis
    proof (cases "consumed \<and> cb_sz (cx_rpdu c) = cb_solong (cx_rpdu c)")
      case True
      then have "int (length q) = int (length (lk_sent s ! ?g))" using del(2) b(3,4) by (simp only:)
      then have q: "q = lk_sent s ! ?g" using del(3) by (simp only: of_nat_eq_iff)
      then have "take (nat (cb_sz (cx_rpdu c))) b = map Some (lk_sent s ! ?g)" using b(3,5) True by simp
      moreover have "concat (take (Suc ?g) (lk_sent s)) @ rest = take (lk_out s) (concat (lk_sent s))"
        using eq' q del(1) by (simp add: take_Suc_conv_app_nth)
      moreover have "lk_got s @ [map Some (lk_sent s ! ?g)] = map (map Some) (take (Suc ?g) (lk_sent s))"
        by (subst got(2)) (simp add: take_Suc_conv_app_nth [OF del(1)])
      ultimately have "rcv_inv (s\<lparr>lk_rcv := c\<lparr>cx_rpdu := charbuf_new\<rparr>, lk_chan := rest, lk_got := lk_got s @ [take (nat (cb_sz (cx_rpdu c))) b]\<rparr>)"
        unfolding rcv_inv_def using del(1) by (intro conjI impI exI [of _ "[]"]) (simp_all add: receiving_def)
      moreover have "read_cb (cx_fd ?c) stale rd1 rd2 consumed ?c = Inr (c\<lparr>cx_rpdu := charbuf_new\<rparr>, Some (take (nat (cb_sz (cx_rpdu c))) b), [])"
        using True some(1) b(1) cb by simp
      ultimately show ?thesis using True
        by (intro exI [of _ "c\<lparr>cx_rpdu := charbuf_new\<rparr>"] exI [of _ "Some (take (nat (cb_sz (cx_rpdu c))) b)"] exI [of _ "[]"]) simp
    next
      case False
      then obtain pdu where "read_cb (cx_fd ?c) stale rd1 rd2 consumed ?c = Inr (c, pdu, [])" "pdu = None \<or> \<not> consumed"
        using some(1) b(1) cb by (cases "cb_sz (cx_rpdu c) = cb_solong (cx_rpdu c)") auto
      with some(1) show ?thesis by (rule keep)
    qed
  qed
qed

text \<open>What a send that does not wait has done.\<close>

definition pc_inv :: "link \<Rightarrow> bool" where
  "pc_inv s \<longleftrightarrow> (\<forall>st. lk_pc s = Some st \<and> st \<noteq> Send_Waits \<and> \<not> cx_dead (lk_snd s) \<longrightarrow> cb_solong (cx_wpdu (lk_snd s)) = cb_sz (cx_wpdu (lk_snd s)))"

definition link_inv :: "link \<Rightarrow> bool" where
  "link_inv s \<longleftrightarrow> snd_inv s \<and> rcv_inv s \<and> pc_inv s"

lemma snd_inv_cong: "lk_snd t = lk_snd s \<Longrightarrow> lk_pc t = lk_pc s \<Longrightarrow> lk_sent t = lk_sent s \<Longrightarrow> lk_out t = lk_out s \<Longrightarrow> snd_inv t = snd_inv s"
  by (simp add: snd_inv_def cong: option.case_cong)

lemma pc_inv_cong: "lk_snd t = lk_snd s \<Longrightarrow> lk_pc t = lk_pc s \<Longrightarrow> pc_inv t = pc_inv s"
  by (simp add: pc_inv_def)

lemma frame_inv:
  assumes "link_inv s" and "cx_wpdu c = cx_wpdu (lk_snd s)" and "cx_dead (lk_snd s) \<longrightarrow> cx_dead c"
  shows "link_inv (s\<lparr>lk_snd := c\<rparr>)"
proof -
  have "snd_inv s" "rcv_inv s" "pc_inv s" using assms(1) by (simp_all add: link_inv_def)
  then have "snd_inv (s\<lparr>lk_snd := c\<rparr>)" "pc_inv (s\<lparr>lk_snd := c\<rparr>)"
    using assms(2,3) by (cases "lk_pc s"; auto simp: snd_inv_def pc_inv_def)+
  moreover have "rcv_inv (s\<lparr>lk_snd := c\<rparr>)" using \<open>rcv_inv s\<close> by (subst rcv_inv_cong [of _ s]) simp_all
  ultimately show ?thesis by (simp add: link_inv_def)
qed

lemma begin_pc_inv:
  assumes "send_begin b sz rnd wr c = Inr (st, c', out, calls)" and "st \<noteq> Send_Waits" and "st \<noteq> Send_Failed" and "\<not> cx_dead c'"
  shows "cb_solong (cx_wpdu c') = cb_sz (cx_wpdu c')"
  using assms by (auto simp: send_begin_def Let_def res_bind_eq_Inr_iff split: if_splits)

lemma write_pc_inv:
  assumes "write_cb fd wr c = Inr (c', out, signalled, calls)" and "cb_solong (cx_wpdu c) = cb_sz (cx_wpdu c)" and "\<not> cx_dead c'"
  shows "cb_solong (cx_wpdu c') = cb_sz (cx_wpdu c')"
  using assms by (auto simp: write_cb_def writepdu_def Let_def split: if_splits)

lemma link_inv_step:
  assumes "link_step s t" and inv: "link_inv s"
  shows "link_inv t"
  using assms(1)
proof cases
  case l_enter
  show ?thesis unfolding l_enter by (rule frame_inv [OF inv]) (simp_all add: send_enter_def)
next
  case (l_refused b sz rnd wr c out calls)
  then have "cx_wpdu c = cx_wpdu (lk_snd s)" "cx_dead c = cx_dead (lk_snd s)"
    by (auto simp: send_begin_def Let_def res_bind_eq_Inr_iff split: if_splits)
  then show ?thesis unfolding l_refused by (intro frame_inv [OF inv]) simp_all
next
  case (l_begin b wr rnd st c out calls)
  have "snd_inv t \<and> rcv_inv t" using inv unfolding link_inv_def by (intro begin_inv [OF _ _ l_begin(2-6) l_begin(1)]) simp_all
  then show ?thesis using begin_pc_inv [OF l_begin(5)] l_begin(6) by (auto simp: link_inv_def pc_inv_def l_begin(1))
next
  case (l_write wr c out signalled calls)
  have alive: "\<not> cx_dead (lk_snd s)" using l_write(3) by (auto simp: write_cb_def split: if_splits)
  have "snd_inv t \<and> rcv_inv t" using inv unfolding link_inv_def by (intro write_inv [OF _ _ l_write(2,3,1)]) simp_all
  then show ?thesis using write_pc_inv [OF l_write(3)] inv alive by (auto simp: link_inv_def pc_inv_def l_write(1))
next
  case (l_end st ret wake c)
  have "snd_inv t" unfolding l_end(1)
    by (rule end_inv [OF _ l_end(2,3) _ l_end(4)]) (use inv l_end(2) in \<open>auto simp: link_inv_def pc_inv_def\<close>)
  moreover have "rcv_inv t = rcv_inv s" by (rule rcv_inv_cong) (simp_all add: l_end(1))
  moreover have "pc_inv t" by (simp add: pc_inv_def l_end(1))
  ultimately show ?thesis using inv by (simp add: link_inv_def)
next
  case l_close_snd
  show ?thesis unfolding l_close_snd by (rule frame_inv [OF inv]) (simp_all add: closeconn_def)
next
  case l_close_rcv
  have "snd_inv t = snd_inv s" "pc_inv t = pc_inv s" by (rule snd_inv_cong pc_inv_cong; simp add: l_close_rcv)+
  moreover have "rcv_inv t" using inv by (auto simp: link_inv_def rcv_inv_def l_close_rcv closeconn_def)
  ultimately show ?thesis using inv by (simp add: link_inv_def)
next
  case (l_read rd1 rd2 rest stale consumed c pdu calls)
  have "rcv_inv t"
  proof (cases "cx_dead (lk_rcv s)")
    case True
    then have "c = lk_rcv s" "pdu = None" using l_read(4) by (auto simp: read_cb_def)
    then show ?thesis using inv True by (simp add: link_inv_def rcv_inv_def l_read(1))
  next
    case False
    from read_alive [OF _ _ False l_read(2,3), of stale consumed] inv l_read(4) show ?thesis by (simp add: link_inv_def l_read(1))
  qed
  moreover have "snd_inv t = snd_inv s" "pc_inv t = pc_inv s" by (rule snd_inv_cong pc_inv_cong; simp add: l_read(1))+
  ultimately show ?thesis using inv by (simp add: link_inv_def)
qed

lemma link_inv_init: "link_init s \<Longrightarrow> link_inv s"
  by (auto simp: link_init_def link_inv_def snd_inv_def rcv_inv_def pc_inv_def receiving_def connection_new_def charbuf_new_def)

interpretation link: invariant_system link_init link_step link_inv
  by unfold_locales (simp_all add: link_inv_init link_inv_step)

section \<open>Properties\<close>

lemma concat_full:
  assumes "\<forall>f \<in> set fs. f \<noteq> []" and "concat (take g fs) = concat fs" and "g \<le> length fs"
  shows "g = length fs"
proof (rule ccontr)
  assume "g \<noteq> length fs"
  then have g: "g < length fs" using assms(3) by simp
  have "concat fs = concat (take g fs) @ fs ! g @ concat (drop (Suc g) fs)"
    using g by (metis append_take_drop_id concat_append Cons_nth_drop_Suc concat.simps(2))
  with assms(2) have "fs ! g = []" by simp
  with assms(1) g show False by simp
qed

text \<open>
  C5: PDUs arrive whole and in order.  However \<^verbatim>\<open>write\<close> splits the bytes that \<^verbatim>\<open>send\<close> and \<^verbatim>\<open>write_cb\<close> give it and
  \<^verbatim>\<open>read\<close> splits the bytes that arrive, whatever fails and whoever closes: what the receiver's channel
  manager has consumed is a prefix of the frames sent, each with its size in front; once both ends
  are alive and idle and nothing is under way it is all of them; and no read faults.
\<close>

theorem pdus_arrive_in_order:
  assumes "reach link_init link_step s"
  shows "(\<exists>k. lk_got s = map (map Some) (take k (lk_sent s))) \<and>
    (\<not> cx_dead (lk_snd s) \<and> lk_pc s = None \<and> \<not> cx_dead (lk_rcv s) \<and> cb_buf (cx_rpdu (lk_rcv s)) = None \<and> lk_chan s = [] \<longrightarrow>
       lk_got s = map (map Some) (lk_sent s)) \<and>
    (rd_ok rd1 rd2 (lk_rcv s) \<and> lk_chan s = bytes_read rd1 rd2 (lk_rcv s) @ rest \<longrightarrow>
       (\<exists>r. read_cb (cx_fd (lk_rcv s)) stale rd1 rd2 consumed (lk_rcv s) = Inr r))"
proof (intro conjI impI)
  note inv = link.reach_inv [OF assms, unfolded link_inv_def]
  have got: "lk_got s = map (map Some) (take (length (lk_got s)) (lk_sent s))" using inv by (simp add: rcv_inv_def)
  then show "\<exists>k. lk_got s = map (map Some) (take k (lk_sent s))" by blast
  assume idle: "\<not> cx_dead (lk_snd s) \<and> lk_pc s = None \<and> \<not> cx_dead (lk_rcv s) \<and> cb_buf (cx_rpdu (lk_rcv s)) = None \<and> lk_chan s = []"
  then obtain p where "receiving (cx_rpdu (lk_rcv s)) p" "concat (take (length (lk_got s)) (lk_sent s)) @ p = take (lk_out s) (concat (lk_sent s))"
    using inv by (auto simp: rcv_inv_def)
  moreover from this(1) idle have "p = []" by (auto simp: receiving_def)
  moreover have "lk_out s = length (concat (lk_sent s))" using inv idle by (simp add: snd_inv_def)
  ultimately have "concat (take (length (lk_got s)) (lk_sent s)) = concat (lk_sent s)" by simp
  moreover have "\<forall>f \<in> set (lk_sent s). f \<noteq> []" using inv by (auto simp: snd_inv_def frame_ok_def pdu_ok_def)
  moreover have "length (lk_got s) \<le> length (lk_sent s)" using inv by (simp add: rcv_inv_def)
  ultimately have "length (lk_got s) = length (lk_sent s)" by (intro concat_full)
  with got show "lk_got s = map (map Some) (lk_sent s)" by simp
next
  note inv = link.reach_inv [OF assms, unfolded link_inv_def]
  assume rd: "rd_ok rd1 rd2 (lk_rcv s) \<and> lk_chan s = bytes_read rd1 rd2 (lk_rcv s) @ rest"
  show "\<exists>r. read_cb (cx_fd (lk_rcv s)) stale rd1 rd2 consumed (lk_rcv s) = Inr r"
  proof (cases "cx_dead (lk_rcv s)")
    case True
    then show ?thesis by (simp add: read_cb_def)
  next
    case False
    with read_alive [of s rd1 rd2 rest stale consumed] inv rd show ?thesis by blast
  qed
qed

text \<open>A PDU of five bytes is written at once and read in two steps.\<close>

definition link0 :: link where
  "link0 = \<lparr>lk_snd = fst (connection_new 5 0), lk_rcv = fst (connection_new 6 0), lk_pc = None, lk_chan = [], lk_sent = [], lk_out = 0, lk_got = []\<rparr>"

definition link1 :: link where
  "link1 = (case send_begin (map Some [0, 0, 0, 0, 7]) 5 0 (Wrote 5) (lk_snd link0) of
     Inl e \<Rightarrow> link0
   | Inr (st, c, out, calls) \<Rightarrow> link0\<lparr>lk_snd := c, lk_pc := Some st, lk_chan := lk_chan link0 @ map the out,
       lk_sent := lk_sent link0 @ [frame [0, 0, 0, 0, 7]], lk_out := lk_out link0 + length out\<rparr>)"

lemma link_run: "reach link_init link_step link1"
proof -
  have "link_init link0" by (auto simp: link_init_def link0_def)
  moreover obtain c where c: "send_begin (map Some [0, 0, 0, 0, 7]) 5 0 (Wrote 5) (lk_snd link0) = Inr (Send_Wrote, c, map Some [0, 0, 0, 5, 7], [])"
    by (simp add: link0_def connection_new_def send_begin_def writepdu_def htonl_bytes_def Let_def)
  moreover have "link_step link0 link1"
  proof -
    have "link_step link0 (link0\<lparr>lk_snd := c, lk_pc := Some Send_Wrote, lk_chan := lk_chan link0 @ map the (map Some [0, 0, 0, 5, 7]),
        lk_sent := lk_sent link0 @ [frame [0, 0, 0, 0, 7]], lk_out := lk_out link0 + length (map Some [0, 0, 0, 5, 7 :: u8])\<rparr>)"
      by (rule l_begin [where wr = "Wrote 5" and rnd = 0 and calls = "[]"])
         (use c in \<open>simp_all add: link0_def connection_new_def send_busy_def charbuf_new_def pdu_ok_def MAX_PDU_def\<close>)
    then show ?thesis unfolding link1_def c by simp
  qed
  ultimately show ?thesis by (blast intro: reach_init reach_step)
qed

theorem pdus_arrive_in_order_witness:
  "\<exists>r. read_cb 6 False (Data [0, 0, 0, 5]) (Data [7]) True (lk_rcv link1) = Inr r"
proof -
  have fd: "cx_fd (lk_rcv link1) = 6" and "rd_ok (Data [0, 0, 0, 5]) (Data [7]) (lk_rcv link1)"
    and "lk_chan link1 = bytes_read (Data [0, 0, 0, 5]) (Data [7]) (lk_rcv link1) @ []"
    by code_simp+
  then show ?thesis
    using pdus_arrive_in_order [OF link_run, of "Data [0, 0, 0, 5]" "Data [7]" "[]" False True] by simp
qed



end
