(* ===== verification/Job_Queue.thy ===== *)
theory Job_Queue
  imports Prelude
begin

text \<open>
  The bounded queue of \<^verbatim>\<open>rpc/fifo.h\<close> and the thread pool of \<^verbatim>\<open>rpc/thr_pool.cc\<close> and
  \<^verbatim>\<open>rpc/thr_pool.h\<close> that runs the jobs of the RPC server.  A pass through the loop of \<^verbatim>\<open>enq\<close> or
  \<^verbatim>\<open>deq\<close> holds the mutex from the entry or the last wakeup to the return or the next wait, so a
  pass is one atomic step.  \<^verbatim>\<open>pthread_cond_signal\<close> wakes at least one of the threads that wait, if
  there is one, and a wait may also end without a signal.
\<close>

section \<open>The queue\<close>

type_synonym tid = nat

text \<open>
  Where a thread is: outside, in the loop of \<^verbatim>\<open>enq(e, blocking)\<close> or \<^verbatim>\<open>deq\<close> and about to look at the
  queue, or waiting on \<^verbatim>\<open>has_space_c_\<close> or \<^verbatim>\<open>non_empty_c_\<close>.  Only a blocking \<^verbatim>\<open>enq\<close> waits.
\<close>

datatype 'a fifo_pc = Out | In_Enq 'a bool | In_Deq | Wait_Space 'a | Wait_Item

text \<open>\<open>ff_in\<close> and \<open>ff_out\<close> record what was ever put into and taken out of the queue.\<close>

record 'a fifo =
  ff_q :: "'a list"
  ff_max :: u32
  ff_th :: "tid \<Rightarrow> 'a fifo_pc"
  ff_in :: "'a list"
  ff_out :: "'a list"

definition fifo_new :: "i32 \<Rightarrow> 'a fifo" where
  "fifo_new limit = \<lparr>ff_q = [], ff_max = limit, ff_th = (\<lambda>_. Out), ff_in = [], ff_out = []\<rparr>"

definition fifo_size :: "'a fifo \<Rightarrow> bool" where
  "fifo_size f \<longleftrightarrow> length (ff_q f) \<noteq> 0"

definition has_room :: "'a fifo \<Rightarrow> bool" where
  "has_room f \<longleftrightarrow> ff_max f = 0 \<or> length (ff_q f) < unat (ff_max f)"

definition move :: "tid \<Rightarrow> 'a fifo_pc \<Rightarrow> 'a fifo \<Rightarrow> 'a fifo" where
  "move t p f = f\<lparr>ff_th := (ff_th f)(t := p)\<rparr>"

fun wake :: "'a fifo_pc \<Rightarrow> 'a fifo_pc" where
  "wake (Wait_Space e) = In_Enq e True"
| "wake Wait_Item = In_Deq"
| "wake p = p"

definition wake_all :: "tid set \<Rightarrow> 'a fifo \<Rightarrow> 'a fifo" where
  "wake_all W f = f\<lparr>ff_th := (\<lambda>t. if t \<in> W then wake (ff_th f t) else ff_th f t)\<rparr>"

text \<open>
  One pass of \<^verbatim>\<open>enq\<close> by thread \<open>t\<close>; \<open>W\<close> are the threads its signal wakes.  The result is the return
  value, or nothing when the thread waits.
\<close>

definition enq_pass :: "tid \<Rightarrow> 'a \<Rightarrow> bool \<Rightarrow> tid set \<Rightarrow> 'a fifo \<Rightarrow> bool option \<times> 'a fifo" where
  "enq_pass t e blocking W f =
     (if has_room f
      then (Some True, wake_all W (move t Out (f\<lparr>ff_q := ff_q f @ [e], ff_in := ff_in f @ [e]\<rparr>)))
      else if blocking then (None, move t (Wait_Space e) f)
      else (Some False, move t Out f))"

definition deq_pass :: "tid \<Rightarrow> tid set \<Rightarrow> 'a fifo \<Rightarrow> 'a option \<times> 'a fifo" where
  "deq_pass t W f =
     (case ff_q f of
        [] \<Rightarrow> (None, move t Wait_Item f)
      | e # q \<Rightarrow>
          let f = move t Out (f\<lparr>ff_q := q, ff_out := ff_out f @ [e]\<rparr>)
          in (Some e, if ff_max f \<noteq> 0 \<and> length (ff_q f) < unat (ff_max f) then wake_all W f else f))"

text \<open>The threads that wait for an element, wait for room, or are awake in either loop.\<close>

definition item_waiters :: "'a fifo \<Rightarrow> tid set" where
  "item_waiters f = {t. ff_th f t = Wait_Item}"

definition space_waiters :: "'a fifo \<Rightarrow> tid set" where
  "space_waiters f = {t. \<exists>e. ff_th f t = Wait_Space e}"

definition takers :: "'a fifo \<Rightarrow> tid set" where
  "takers f = {t. ff_th f t = In_Deq}"

definition putters :: "'a fifo \<Rightarrow> tid set" where
  "putters f = {t. \<exists>e b. ff_th f t = In_Enq e b}"

definition signalled :: "tid set \<Rightarrow> tid set \<Rightarrow> bool" where
  "signalled W C \<longleftrightarrow> W \<subseteq> C \<and> (C \<noteq> {} \<longrightarrow> W \<noteq> {})"

inductive fifo_step :: "'a fifo \<Rightarrow> 'a fifo \<Rightarrow> bool" where
  call_enq: "ff_th f t = Out \<Longrightarrow> fifo_step f (move t (In_Enq e b) f)"
| call_deq: "ff_th f t = Out \<Longrightarrow> fifo_step f (move t In_Deq f)"
| run_enq: "ff_th f t = In_Enq e b \<Longrightarrow> signalled W (item_waiters f) \<Longrightarrow> fifo_step f (snd (enq_pass t e b W f))"
| run_deq: "ff_th f t = In_Deq \<Longrightarrow> signalled W (space_waiters f) \<Longrightarrow> fifo_step f (snd (deq_pass t W f))"
| spurious: "fifo_step f (wake_all {t} f)"

section \<open>Order, capacity and wakeups\<close>

definition fifo_inv :: "'a fifo \<Rightarrow> bool" where
  "fifo_inv f \<longleftrightarrow>
     ff_in f = ff_out f @ ff_q f \<and>
     (ff_max f \<noteq> 0 \<longrightarrow> length (ff_q f) \<le> unat (ff_max f)) \<and>
     finite {t. ff_th f t \<noteq> Out} \<and>
     (item_waiters f \<noteq> {} \<longrightarrow> length (ff_q f) \<le> card (takers f)) \<and>
     (space_waiters f \<noteq> {} \<longrightarrow> ff_max f \<noteq> 0 \<and> unat (ff_max f) \<le> length (ff_q f) + card (putters f))"

lemma fifo_frame [simp]:
  "ff_q (move t p f) = ff_q f" "ff_max (move t p f) = ff_max f" "ff_in (move t p f) = ff_in f" "ff_out (move t p f) = ff_out f"
  "ff_th (move t p f) = (ff_th f)(t := p)"
  "ff_q (wake_all W f) = ff_q f" "ff_max (wake_all W f) = ff_max f" "ff_in (wake_all W f) = ff_in f" "ff_out (wake_all W f) = ff_out f"
  by (simp_all add: move_def wake_all_def)

lemmas thread_sets = item_waiters_def space_waiters_def takers_def putters_def

lemma sets_queue [simp]:
  "item_waiters (f\<lparr>ff_q := q, ff_in := i\<rparr>) = item_waiters f" "space_waiters (f\<lparr>ff_q := q, ff_in := i\<rparr>) = space_waiters f"
  "takers (f\<lparr>ff_q := q, ff_in := i\<rparr>) = takers f" "putters (f\<lparr>ff_q := q, ff_in := i\<rparr>) = putters f"
  "item_waiters (f\<lparr>ff_q := q, ff_out := i\<rparr>) = item_waiters f" "space_waiters (f\<lparr>ff_q := q, ff_out := i\<rparr>) = space_waiters f"
  "takers (f\<lparr>ff_q := q, ff_out := i\<rparr>) = takers f" "putters (f\<lparr>ff_q := q, ff_out := i\<rparr>) = putters f"
  by (simp_all add: thread_sets)

lemma sets_move [simp]:
  "item_waiters (move t p f) = (if p = Wait_Item then insert t (item_waiters f) else item_waiters f - {t})"
  "space_waiters (move t p f) = (if \<exists>e. p = Wait_Space e then insert t (space_waiters f) else space_waiters f - {t})"
  "takers (move t p f) = (if p = In_Deq then insert t (takers f) else takers f - {t})"
  "putters (move t p f) = (if \<exists>e b. p = In_Enq e b then insert t (putters f) else putters f - {t})"
  by (auto simp: thread_sets)

lemma wake_eq_iff [simp]:
  "wake p = Out \<longleftrightarrow> p = Out" "wake p \<noteq> Wait_Item" "wake p \<noteq> Wait_Space e"
  "wake p = In_Deq \<longleftrightarrow> p = In_Deq \<or> p = Wait_Item"
  "wake p = In_Enq e b \<longleftrightarrow> p = In_Enq e b \<or> p = Wait_Space e \<and> b"
  by (cases p; simp)+

lemma sets_wake:
  "item_waiters (wake_all W f) = item_waiters f - W" "space_waiters (wake_all W f) = space_waiters f - W"
  "takers (wake_all W f) = takers f \<union> (item_waiters f \<inter> W)" "putters (wake_all W f) = putters f \<union> (space_waiters f \<inter> W)"
  by (auto simp: thread_sets wake_all_def)

lemma sets_disjoint:
  "item_waiters f \<inter> space_waiters f = {}" "takers f \<inter> item_waiters f = {}" "putters f \<inter> space_waiters f = {}"
  by (auto simp: thread_sets)

lemma busy_wake [simp]: "{t. ff_th (wake_all W f) t \<noteq> Out} = {t. ff_th f t \<noteq> Out}"
  by (auto simp: wake_all_def)

lemma finite_sets:
  assumes "finite {t. ff_th f t \<noteq> Out}"
  shows "finite (takers f)" "finite (putters f)" "finite (item_waiters f)" "finite (space_waiters f)"
  using assms by (auto intro: finite_subset [OF _ assms] simp: thread_sets)

lemma finite_busy_move: "finite {t. ff_th f t \<noteq> Out} \<Longrightarrow> finite {t'. ((ff_th f)(t := p)) t' \<noteq> Out}"
  by (rule finite_subset [of _ "insert t {t. ff_th f t \<noteq> Out}"]) auto

text \<open>A signal to waiting threads makes at least one of them awake.\<close>

lemma signal_takers:
  assumes "signalled W (item_waiters f)" "finite {t. ff_th f t \<noteq> Out}" "item_waiters f \<noteq> {}"
  shows "card (takers f) < card (takers f \<union> (item_waiters f \<inter> W))"
  using assms sets_disjoint(2) [of f] by (intro psubset_card_mono) (auto simp: signalled_def finite_sets)

lemma signal_putters:
  assumes "signalled W (space_waiters f)" "finite {t. ff_th f t \<noteq> Out}" "space_waiters f \<noteq> {}"
  shows "card (putters f) < card (putters f \<union> (space_waiters f \<inter> W))"
  using assms sets_disjoint(3) [of f] by (intro psubset_card_mono) (auto simp: signalled_def finite_sets)

lemma fifo_inv_call:
  assumes "fifo_inv f" "ff_th f t = Out" "p = In_Deq \<or> (\<exists>e b. p = In_Enq e b)"
  shows "fifo_inv (move t p f)"
proof -
  have "t \<notin> takers f" "t \<notin> putters f" "t \<notin> item_waiters f" "t \<notin> space_waiters f" using assms(2) by (simp_all add: thread_sets)
  then show ?thesis using assms finite_busy_move [of f t p] finite_sets [of f] by (auto simp: fifo_inv_def)
qed

lemma fifo_inv_spurious:
  assumes "fifo_inv f" shows "fifo_inv (wake_all W f)"
proof -
  have fin: "finite {t. ff_th f t \<noteq> Out}" using assms by (simp add: fifo_inv_def)
  have "card (takers f) \<le> card (takers f \<union> (item_waiters f \<inter> W))" "card (putters f) \<le> card (putters f \<union> (space_waiters f \<inter> W))"
    using finite_sets [OF fin] by (auto intro: card_mono)
  then show ?thesis using assms by (auto simp: fifo_inv_def sets_wake)
qed

lemma fifo_inv_enq:
  assumes "fifo_inv f" "ff_th f t = In_Enq e b" "signalled W (item_waiters f)"
  shows "fifo_inv (snd (enq_pass t e b W f))"
proof -
  note inv = assms(1) [unfolded fifo_inv_def]
  have fin: "finite {t. ff_th f t \<noteq> Out}" using inv by simp
  have t: "t \<in> putters f" "t \<notin> takers f" "t \<notin> item_waiters f" "t \<notin> space_waiters f" using assms(2) by (simp_all add: thread_sets)
  have c: "Suc (card (putters f - {t})) = card (putters f)" using t(1) finite_sets(2) [OF fin] by (rule card_Suc_Diff1 [rotated])
  have W: "W \<inter> space_waiters f = {}" using assms(3) sets_disjoint(1) [of f] by (auto simp: signalled_def)
  show ?thesis
  proof (cases "has_room f")
    case True
    have T: "takers f - {t} = takers f" "item_waiters f - {t} = item_waiters f" "space_waiters f - {t} = space_waiters f"
      "space_waiters f - W = space_waiters f" "space_waiters f \<inter> W = {}" using t W by auto
    have "item_waiters f - W \<noteq> {} \<longrightarrow> Suc (length (ff_q f)) \<le> card (takers f \<union> (item_waiters f \<inter> W))"
      using inv signal_takers [OF assms(3) fin] by fastforce
    then show ?thesis
      using inv c True finite_busy_move [OF fin, of t Out]
      by (auto simp: fifo_inv_def enq_pass_def has_room_def sets_wake T)
  next
    case False
    then show ?thesis
      using inv t finite_busy_move [of f t] by (auto simp: fifo_inv_def enq_pass_def has_room_def)
  qed
qed

lemma fifo_inv_deq:
  assumes "fifo_inv f" "ff_th f t = In_Deq" "signalled W (space_waiters f)"
  shows "fifo_inv (snd (deq_pass t W f))"
proof (cases "ff_q f")
  case Nil
  have "t \<notin> putters f" "t \<notin> space_waiters f" using assms(2) by (simp_all add: thread_sets)
  with Nil show ?thesis
    using assms(1) finite_busy_move [of f t Wait_Item] by (auto simp: fifo_inv_def deq_pass_def)
next
  case (Cons e q)
  note inv = assms(1) [unfolded fifo_inv_def]
  have fin: "finite {t. ff_th f t \<noteq> Out}" using inv by simp
  have t: "t \<in> takers f" "t \<notin> putters f" "t \<notin> item_waiters f" "t \<notin> space_waiters f" using assms(2) by (simp_all add: thread_sets)
  have c: "Suc (card (takers f - {t})) = card (takers f)" using t(1) finite_sets(1) [OF fin] by (rule card_Suc_Diff1 [rotated])
  have T: "putters f - {t} = putters f" "item_waiters f - {t} = item_waiters f" "space_waiters f - {t} = space_waiters f"
    "item_waiters f - W = item_waiters f" "item_waiters f \<inter> W = {}"
    using t assms(3) sets_disjoint(1) [of f] by (auto simp: signalled_def)
  have "space_waiters f - W \<noteq> {} \<longrightarrow> unat (ff_max f) \<le> length q + card (putters f \<union> (space_waiters f \<inter> W))"
    using inv Cons signal_putters [OF assms(3) fin] by fastforce
  moreover have "ff_max f \<noteq> 0 \<longrightarrow> length q < unat (ff_max f)" using inv Cons by auto
  ultimately show ?thesis
    using inv c Cons finite_busy_move [OF fin, of t Out]
    by (cases "ff_max f = 0") (auto simp: fifo_inv_def deq_pass_def Let_def sets_wake T)
qed

lemma fifo_inv_new: "fifo_inv (fifo_new limit)"
  by (simp add: fifo_inv_def fifo_new_def thread_sets)

lemma fifo_inv_step: "fifo_inv f \<Longrightarrow> fifo_step f g \<Longrightarrow> fifo_inv g"
  by (erule fifo_step.cases) (auto intro: fifo_inv_call fifo_inv_enq fifo_inv_deq fifo_inv_spurious)

definition fifo_fresh :: "'a fifo \<Rightarrow> bool" where
  "fifo_fresh f \<longleftrightarrow> (\<exists>limit. f = fifo_new limit)"

interpretation queue_sys: invariant_system fifo_fresh fifo_step fifo_inv
  by unfold_locales (auto simp: fifo_fresh_def intro: fifo_inv_new fifo_inv_step)

text \<open>
  C21: the bounded queue.  However calls of \<^verbatim>\<open>enq\<close> and \<^verbatim>\<open>deq\<close> by any threads interleave and
  whatever threads the condition variables wake, elements leave in the order in which they
  entered, none is lost or duplicated, and a queue with a limit never exceeds it.  No wakeup is
  lost: while a thread waits for an element there are at least as many awake threads in \<^verbatim>\<open>deq\<close> as
  elements in the queue, and while a thread waits for room there are at least as many awake
  threads in \<^verbatim>\<open>enq\<close> as free places.
\<close>

theorem queue_fifo_without_lost_wakeups:
  assumes "reach fifo_fresh fifo_step f"
  shows "ff_in f = ff_out f @ ff_q f \<and>
    (ff_max f \<noteq> 0 \<longrightarrow> length (ff_q f) \<le> unat (ff_max f)) \<and>
    (item_waiters f \<noteq> {} \<longrightarrow> length (ff_q f) \<le> card (takers f)) \<and>
    (space_waiters f \<noteq> {} \<longrightarrow> unat (ff_max f) - length (ff_q f) \<le> card (putters f))"
  using queue_sys.reach_inv [OF assms] by (auto simp: fifo_inv_def)

text \<open>A queue for one element: thread 1 puts an element, thread 2 waits for room and thread 3 takes the element.\<close>

definition full1 :: "nat fifo" where
  "full1 = snd (enq_pass 2 8 True {} (move 2 (In_Enq 8 True) (snd (enq_pass 1 7 True {} (move 1 (In_Enq 7 True) (fifo_new 1))))))"

lemma full1_reach: "reach fifo_fresh fifo_step full1"
proof -
  have "reach fifo_fresh fifo_step (fifo_new 1 :: nat fifo)" by (rule reach_init) (auto simp: fifo_fresh_def)
  then have "reach fifo_fresh fifo_step (move 1 (In_Enq (7 :: nat) True) (fifo_new 1))"
    by (rule reach_step) (rule call_enq, simp add: fifo_new_def)
  then have "reach fifo_fresh fifo_step (snd (enq_pass 1 7 True {} (move 1 (In_Enq (7 :: nat) True) (fifo_new 1))))"
    by (rule reach_step) (rule run_enq, simp_all add: signalled_def item_waiters_def fifo_new_def)
  then have "reach fifo_fresh fifo_step (move 2 (In_Enq 8 True) (snd (enq_pass 1 7 True {} (move 1 (In_Enq (7 :: nat) True) (fifo_new 1)))))"
    by (rule reach_step) (rule call_enq, simp add: fifo_new_def enq_pass_def has_room_def move_def wake_all_def)
  then show ?thesis unfolding full1_def
    by (rule reach_step) (rule run_enq, simp_all add: signalled_def item_waiters_def fifo_new_def enq_pass_def has_room_def move_def wake_all_def)
qed

theorem queue_fifo_without_lost_wakeups_witness:
  "\<exists>f :: nat fifo. 2 \<in> space_waiters f \<and> 3 \<in> takers f \<and> ff_in f = ff_out f @ [7] \<and> length (ff_q f) = unat (ff_max f)"
proof -
  have r: "reach fifo_fresh fifo_step (move 3 In_Deq full1)"
    by (rule reach_step [OF full1_reach]) (rule call_deq, simp add: full1_def enq_pass_def has_room_def fifo_new_def move_def wake_all_def)
  have s: "2 \<in> space_waiters (move 3 In_Deq full1)" "3 \<in> takers (move 3 In_Deq full1)"
    "ff_q (move 3 In_Deq full1) = [7]" "ff_max (move 3 In_Deq full1) = 1"
    by (simp_all add: space_waiters_def takers_def full1_def enq_pass_def has_room_def fifo_new_def move_def wake_all_def)
  show ?thesis using queue_fifo_without_lost_wakeups [OF r] s by (intro exI [of _ "move 3 In_Deq full1"]) simp
qed

section \<open>The thread pool\<close>

text \<open>
  \<^verbatim>\<open>job_t\<close>: a function with its argument, or the poison pill whose function is \<^verbatim>\<open>NULL\<close>.  A job
  \<open>Some j\<close> stands for the call \<^verbatim>\<open>(o->*m)(a)\<close> that \<^verbatim>\<open>addObjJob\<close> packs up.
\<close>

type_synonym 'j job_t = "'j option"

datatype 'j worker = Taking | Running 'j | Gone

text \<open>The destructor: not called, having put \<open>k\<close> pills into the queue, having joined \<open>k\<close> threads.\<close>

datatype closing = Open | Pilling nat | Joining nat

text \<open>
  Threads below \<open>nthreads\<close> are the workers; all others are the threads that use the pool, of
  which the one called \<open>nthreads\<close> also destroys it.  \<open>tp_accepted\<close> and \<open>tp_started\<close> record the jobs
  for which \<^verbatim>\<open>addJob\<close> returned true and those that a worker began to run.
\<close>

record 'j thr_pool =
  tp_nthreads :: nat
  tp_blockadd :: bool
  tp_jobq :: "'j job_t fifo"
  tp_worker :: "tid \<Rightarrow> 'j worker"
  tp_closing :: closing
  tp_accepted :: "'j list"
  tp_started :: "'j list"

definition ThrPool_new :: "i32 \<Rightarrow> bool \<Rightarrow> 'j thr_pool" where
  "ThrPool_new sz blocking =
     (let n = nat (sint sz)
      in \<lparr>tp_nthreads = n, tp_blockadd = blocking,
          tp_jobq = (fifo_new (100 * sz))\<lparr>ff_th := \<lambda>t. if t < n then In_Deq else Out\<rparr>,
          tp_worker = (\<lambda>t. if t < n then Taking else Gone), tp_closing = Open, tp_accepted = [], tp_started = []\<rparr>)"

definition addJob_begin :: "tid \<Rightarrow> 'j \<Rightarrow> 'j thr_pool \<Rightarrow> 'j thr_pool" where
  "addJob_begin t j p = p\<lparr>tp_jobq := move t (In_Enq (Some j) (tp_blockadd p)) (tp_jobq p)\<rparr>"

definition addJob_pass :: "tid \<Rightarrow> 'j \<Rightarrow> bool \<Rightarrow> tid set \<Rightarrow> 'j thr_pool \<Rightarrow> bool option \<times> 'j thr_pool" where
  "addJob_pass t j b W p =
     (let (r, q) = enq_pass t (Some j) b W (tp_jobq p)
      in (r, p\<lparr>tp_jobq := q, tp_accepted := tp_accepted p @ (if r = Some True then [j] else [])\<rparr>))"

definition takeJob_pass :: "tid \<Rightarrow> tid set \<Rightarrow> 'j thr_pool \<Rightarrow> 'j job_t option \<times> 'j thr_pool" where
  "takeJob_pass t W p = (let (r, q) = deq_pass t W (tp_jobq p) in (r, p\<lparr>tp_jobq := q\<rparr>))"

text \<open>One pass of \<^verbatim>\<open>takeJob\<close> in \<^verbatim>\<open>do_worker\<close>: the worker leaves its loop when the job is a pill.\<close>

definition do_worker_take :: "tid \<Rightarrow> tid set \<Rightarrow> 'j thr_pool \<Rightarrow> 'j thr_pool" where
  "do_worker_take t W p =
     (case takeJob_pass t W p of
        (None, p) \<Rightarrow> p
      | (Some None, p) \<Rightarrow> p\<lparr>tp_worker := (tp_worker p)(t := Gone)\<rparr>
      | (Some (Some j), p) \<Rightarrow> p\<lparr>tp_worker := (tp_worker p)(t := Running j), tp_started := tp_started p @ [j]\<rparr>)"

definition do_worker_done :: "tid \<Rightarrow> 'j thr_pool \<Rightarrow> 'j thr_pool" where
  "do_worker_done t p = p\<lparr>tp_worker := (tp_worker p)(t := Taking), tp_jobq := move t In_Deq (tp_jobq p)\<rparr>"

text \<open>The two loops of the destructor.\<close>

definition close_pill :: "'j thr_pool \<Rightarrow> 'j thr_pool" where
  "close_pill p = p\<lparr>tp_jobq := move (tp_nthreads p) (In_Enq None True) (tp_jobq p)\<rparr>"

definition close_pass :: "tid set \<Rightarrow> nat \<Rightarrow> 'j thr_pool \<Rightarrow> 'j thr_pool" where
  "close_pass W k p =
     (let (r, q) = enq_pass (tp_nthreads p) None True W (tp_jobq p)
      in p\<lparr>tp_jobq := q, tp_closing := Pilling (if r = Some True then Suc k else k)\<rparr>)"

inductive pool_act :: "'j thr_pool \<Rightarrow> 'j thr_pool \<Rightarrow> bool" where
  user_add: "tp_nthreads p \<le> t \<Longrightarrow> ff_th (tp_jobq p) t = Out \<Longrightarrow> tp_closing p = Open \<Longrightarrow> pool_act p (addJob_begin t j p)"
| user_run: "tp_nthreads p \<le> t \<Longrightarrow> ff_th (tp_jobq p) t = In_Enq (Some j) b \<Longrightarrow>
    signalled W (item_waiters (tp_jobq p)) \<Longrightarrow> pool_act p (snd (addJob_pass t j b W p))"
| take: "t < tp_nthreads p \<Longrightarrow> ff_th (tp_jobq p) t = In_Deq \<Longrightarrow> signalled W (space_waiters (tp_jobq p)) \<Longrightarrow>
    pool_act p (do_worker_take t W p)"
| job_done: "t < tp_nthreads p \<Longrightarrow> tp_worker p t = Running j \<Longrightarrow> pool_act p (do_worker_done t p)"
| close_begin: "tp_closing p = Open \<Longrightarrow> \<forall>t \<ge> tp_nthreads p. ff_th (tp_jobq p) t = Out \<Longrightarrow>
    pool_act p (p\<lparr>tp_closing := Pilling 0\<rparr>)"
| close_next: "tp_closing p = Pilling k \<Longrightarrow> k < tp_nthreads p \<Longrightarrow> ff_th (tp_jobq p) (tp_nthreads p) = Out \<Longrightarrow>
    pool_act p (close_pill p)"
| close_run: "tp_closing p = Pilling k \<Longrightarrow> ff_th (tp_jobq p) (tp_nthreads p) = In_Enq None True \<Longrightarrow>
    signalled W (item_waiters (tp_jobq p)) \<Longrightarrow> pool_act p (close_pass W k p)"
| close_join: "tp_closing p = Pilling (tp_nthreads p) \<Longrightarrow> pool_act p (p\<lparr>tp_closing := Joining 0\<rparr>)"
| close_joined: "tp_closing p = Joining k \<Longrightarrow> k < tp_nthreads p \<Longrightarrow> tp_worker p k = Gone \<Longrightarrow>
    pool_act p (p\<lparr>tp_closing := Joining (Suc k)\<rparr>)"

text \<open>A step of the pool is one of these actions or a wakeup without a signal.\<close>

inductive pool_step :: "'j thr_pool \<Rightarrow> 'j thr_pool \<Rightarrow> bool" where
  act: "pool_act p p' \<Longrightarrow> pool_step p p'"
| spurious_wake: "pool_step p (p\<lparr>tp_jobq := wake_all {t} (tp_jobq p)\<rparr>)"

definition pool_fresh :: "'j thr_pool \<Rightarrow> bool" where
  "pool_fresh p \<longleftrightarrow> (\<exists>sz blocking. p = ThrPool_new sz blocking)"

text \<open>What the workers, the destructor and the histories say about the queue.\<close>

definition pills :: "'j thr_pool \<Rightarrow> nat" where
  "pills p = (case tp_closing p of Open \<Rightarrow> 0 | Pilling k \<Rightarrow> k | Joining k \<Rightarrow> tp_nthreads p)"

definition left :: "'j thr_pool \<Rightarrow> tid set" where
  "left p = {t. t < tp_nthreads p \<and> tp_worker p t = Gone}"

definition pool_inv :: "'j thr_pool \<Rightarrow> bool" where
  "pool_inv p \<longleftrightarrow>
     fifo_inv (tp_jobq p) \<and>
     ff_in (tp_jobq p) = map Some (tp_accepted p) @ replicate (pills p) None \<and>
     [j. Some j \<leftarrow> ff_out (tp_jobq p)] = tp_started p \<and>
     count_list (ff_out (tp_jobq p)) None = card (left p) \<and>
     pills p \<le> tp_nthreads p \<and>
     (\<forall>k. tp_closing p = Joining k \<longrightarrow> k \<le> tp_nthreads p \<and> {..<k} \<subseteq> left p)"

definition thread_ok :: "tid \<Rightarrow> 'j thr_pool \<Rightarrow> bool" where
  "thread_ok t p \<longleftrightarrow>
     (if t < tp_nthreads p
      then (case tp_worker p t of Taking \<Rightarrow> ff_th (tp_jobq p) t \<in> {In_Deq, Wait_Item} | _ \<Rightarrow> ff_th (tp_jobq p) t = Out)
      else (case tp_closing p of
              Open \<Rightarrow> ff_th (tp_jobq p) t = Out \<or> (\<exists>j b. ff_th (tp_jobq p) t = In_Enq (Some j) b) \<or>
                (\<exists>j. ff_th (tp_jobq p) t = Wait_Space (Some j))
            | Pilling k \<Rightarrow> ff_th (tp_jobq p) t = Out \<or>
                t = tp_nthreads p \<and> k < tp_nthreads p \<and> ff_th (tp_jobq p) t \<in> {In_Enq None True, Wait_Space None}
            | Joining k \<Rightarrow> ff_th (tp_jobq p) t = Out))"

lemma count_list_replicate: "count_list (replicate n x) x = n"
  by (induction n) simp_all

lemma all_Not [simp]: "All Not \<longleftrightarrow> False"
  by auto

definition pool_ok :: "'j thr_pool \<Rightarrow> bool" where
  "pool_ok p \<longleftrightarrow> pool_inv p \<and> (\<forall>t. thread_ok t p)"

lemma pool_frame [simp]:
  "pills (p\<lparr>tp_jobq := q\<rparr>) = pills p" "pills (p\<lparr>tp_accepted := a\<rparr>) = pills p" "pills (p\<lparr>tp_worker := w\<rparr>) = pills p"
  "pills (p\<lparr>tp_started := a\<rparr>) = pills p"
  "left (p\<lparr>tp_jobq := q\<rparr>) = left p" "left (p\<lparr>tp_accepted := a\<rparr>) = left p" "left (p\<lparr>tp_closing := c\<rparr>) = left p"
  "left (p\<lparr>tp_started := a\<rparr>) = left p"
  by (simp_all add: pills_def left_def split: closing.split)

lemma wake_all_th: "ff_th (wake_all W f) t = (if t \<in> W then wake (ff_th f t) else ff_th f t)"
  by (simp add: wake_all_def)

lemma thread_ok_wake:
  "thread_ok t p \<Longrightarrow> ff_th q t = (if b then wake (ff_th (tp_jobq p) t) else ff_th (tp_jobq p) t) \<Longrightarrow> thread_ok t (p\<lparr>tp_jobq := q\<rparr>)"
  by (auto simp: thread_ok_def split: worker.splits closing.splits if_splits)

lemma pool_ok_spurious: "pool_ok p \<Longrightarrow> pool_ok (p\<lparr>tp_jobq := wake_all W (tp_jobq p)\<rparr>)"
  using thread_ok_wake [of _ p "wake_all W (tp_jobq p)"]
  by (fastforce simp: pool_ok_def pool_inv_def wake_all_th intro: fifo_inv_spurious)

lemma pool_ok_add:
  assumes "pool_ok p" "tp_nthreads p \<le> t" "ff_th (tp_jobq p) t = Out" "tp_closing p = Open"
  shows "pool_ok (addJob_begin t j p)"
proof -
  have "fifo_inv (move t (In_Enq (Some j) (tp_blockadd p)) (tp_jobq p))"
    using assms(1,3) by (auto simp: pool_ok_def pool_inv_def intro: fifo_inv_call)
  moreover have "thread_ok t' (addJob_begin t j p)" for t'
    using assms(1) [unfolded pool_ok_def, THEN conjunct2, THEN spec, of t'] assms(2-4)
    by (auto simp: addJob_begin_def thread_ok_def split: worker.splits if_splits)
  ultimately show ?thesis using assms(1) by (auto simp: pool_ok_def pool_inv_def addJob_begin_def)
qed

lemma enq_pass_th:
  "ff_th (snd (enq_pass t e b W f)) t' =
     (if has_room f then if t' \<in> W then wake (((ff_th f)(t := Out)) t') else ((ff_th f)(t := Out)) t'
      else if b then ((ff_th f)(t := Wait_Space e)) t' else ((ff_th f)(t := Out)) t')"
  by (simp add: enq_pass_def wake_all_th)

lemma enq_pass_out [simp]:
  "ff_out (snd (enq_pass t e b W f)) = ff_out f" "ff_max (snd (enq_pass t e b W f)) = ff_max f"
  "ff_in (snd (enq_pass t e b W f)) = ff_in f @ (if has_room f then [e] else [])"
  "fst (enq_pass t e b W f) = Some True \<longleftrightarrow> has_room f"
  by (simp_all add: enq_pass_def)

lemma pool_ok_user:
  assumes "pool_ok p" "tp_nthreads p \<le> t" "ff_th (tp_jobq p) t = In_Enq (Some j) b" "signalled W (item_waiters (tp_jobq p))"
  shows "pool_ok (snd (addJob_pass t j b W p))"
proof -
  let ?q = "snd (enq_pass t (Some j) b W (tp_jobq p))"
  have inv: "fifo_inv ?q" using assms by (auto simp: pool_ok_def pool_inv_def intro: fifo_inv_enq)
  have ok: "thread_ok t' p" for t' using assms(1) by (simp add: pool_ok_def)
  have open_: "tp_closing p = Open" using ok [of t] assms(2,3) by (auto simp: thread_ok_def split: closing.splits)
  have "thread_ok t' (snd (addJob_pass t j b W p))" for t'
    using ok [of t'] assms(2) open_
    by (cases "t' = t") (auto simp: addJob_pass_def split_beta thread_ok_def enq_pass_th split: worker.splits if_splits)
  then show ?thesis
    using assms(1) inv open_ by (auto simp: pool_ok_def pool_inv_def addJob_pass_def split_beta pills_def)
qed

lemma deq_pass_th:
  "ff_th (snd (deq_pass t W f)) t' =
     (if ff_q f = [] then ((ff_th f)(t := Wait_Item)) t'
      else if t' \<in> W \<and> ff_max f \<noteq> 0 \<and> length (tl (ff_q f)) < unat (ff_max f)
      then wake (((ff_th f)(t := Out)) t') else ((ff_th f)(t := Out)) t')"
  by (auto simp: deq_pass_def wake_all_th Let_def split: list.splits)

lemma deq_pass_in [simp]:
  "ff_in (snd (deq_pass t W f)) = ff_in f"
  "ff_out (snd (deq_pass t W f)) = ff_out f @ (if ff_q f = [] then [] else [hd (ff_q f)])"
  "fst (deq_pass t W f) = (if ff_q f = [] then None else Some (hd (ff_q f)))"
  by (auto simp: deq_pass_def Let_def split: list.splits)

lemma finite_left [simp]: "finite (left p)"
  by (simp add: left_def)

lemma left_Gone: "t < tp_nthreads p \<Longrightarrow> left (p\<lparr>tp_jobq := q, tp_worker := (tp_worker p)(t := Gone)\<rparr>) = insert t (left p)"
  by (auto simp: left_def)

lemma left_busy: "w \<noteq> Gone \<Longrightarrow> tp_worker p t \<noteq> Gone \<Longrightarrow> left (p\<lparr>tp_jobq := q, tp_worker := (tp_worker p)(t := w)\<rparr>) = left p"
  by (auto simp: left_def)

lemma pool_ok_take:
  assumes "pool_ok p" "t < tp_nthreads p" "ff_th (tp_jobq p) t = In_Deq" "signalled W (space_waiters (tp_jobq p))"
  shows "pool_ok (do_worker_take t W p)"
proof -
  let ?q = "snd (deq_pass t W (tp_jobq p))"
  have inv: "fifo_inv ?q" using assms by (auto simp: pool_ok_def pool_inv_def intro: fifo_inv_deq)
  have ok: "thread_ok t' p" for t' using assms(1) by (simp add: pool_ok_def)
  have w: "tp_worker p t = Taking" using ok [of t] assms(2,3) by (auto simp: thread_ok_def split: worker.splits if_splits)
  then have notin: "t \<notin> left p" by (simp add: left_def)
  show ?thesis
  proof (cases "ff_q (tp_jobq p)")
    case Nil
    have "thread_ok t' (do_worker_take t W p)" for t'
      using ok [of t'] assms(2) w Nil
      by (cases "t' = t") (auto simp: do_worker_take_def takeJob_pass_def split_beta thread_ok_def deq_pass_th split: worker.splits closing.splits)
    then show ?thesis using assms(1) inv Nil
      by (auto simp: pool_ok_def pool_inv_def do_worker_take_def takeJob_pass_def split_beta)
  next
    case (Cons e q)
    have "thread_ok t' (do_worker_take t W p)" for t'
      using ok [of t'] assms(2) w Cons
      by (cases "t' = t"; cases e) (auto simp: do_worker_take_def takeJob_pass_def split_beta thread_ok_def deq_pass_th split: worker.splits closing.splits)
    moreover have "pool_inv (do_worker_take t W p)"
    proof (cases e)
      case None
      then show ?thesis using assms(1) inv Cons notin left_Gone [OF assms(2)]
        by (auto simp: pool_ok_def pool_inv_def do_worker_take_def takeJob_pass_def split_beta)
    next
      case (Some j)
      then show ?thesis using assms(1) inv Cons w left_busy [of "Running j" p t]
        by (auto simp: pool_ok_def pool_inv_def do_worker_take_def takeJob_pass_def split_beta)
    qed
    ultimately show ?thesis by (simp add: pool_ok_def)
  qed
qed

lemma pool_ok_done:
  assumes "pool_ok p" "t < tp_nthreads p" "tp_worker p t = Running j"
  shows "pool_ok (do_worker_done t p)"
proof -
  have ok: "thread_ok t' p" for t' using assms(1) by (simp add: pool_ok_def)
  have "ff_th (tp_jobq p) t = Out" using ok [of t] assms(2,3) by (simp add: thread_ok_def)
  then have "fifo_inv (move t In_Deq (tp_jobq p))"
    using assms(1) by (auto simp: pool_ok_def pool_inv_def intro: fifo_inv_call)
  moreover have "thread_ok t' (do_worker_done t p)" for t'
    using ok [of t'] assms(2) by (cases "t' = t") (auto simp: do_worker_done_def thread_ok_def split: worker.splits closing.splits)
  moreover have "left (do_worker_done t p) = left p"
    using assms(3) by (auto simp: do_worker_done_def left_def)
  ultimately show ?thesis using assms(1) by (auto simp: pool_ok_def pool_inv_def do_worker_done_def)
qed

lemma pool_ok_pill:
  assumes "pool_ok p" "tp_closing p = Pilling k" "k < tp_nthreads p" "ff_th (tp_jobq p) (tp_nthreads p) = Out"
  shows "pool_ok (close_pill p)"
proof -
  have ok: "thread_ok t p" for t using assms(1) by (simp add: pool_ok_def)
  have "fifo_inv (move (tp_nthreads p) (In_Enq None True) (tp_jobq p))"
    using assms(1,4) by (auto simp: pool_ok_def pool_inv_def intro: fifo_inv_call)
  moreover have "thread_ok t (close_pill p)" for t
    using ok [of t] assms(2,3) by (auto simp: close_pill_def thread_ok_def split: worker.splits if_splits)
  ultimately show ?thesis using assms(1) by (auto simp: pool_ok_def pool_inv_def close_pill_def)
qed

lemma pool_ok_close_pass:
  assumes "pool_ok p" "tp_closing p = Pilling k" "ff_th (tp_jobq p) (tp_nthreads p) = In_Enq None True"
    and "signalled W (item_waiters (tp_jobq p))"
  shows "pool_ok (close_pass W k p)"
proof -
  have ok: "thread_ok t p" for t using assms(1) by (simp add: pool_ok_def)
  have k: "k < tp_nthreads p" using ok [of "tp_nthreads p"] assms(2,3) by (simp add: thread_ok_def)
  have "fifo_inv (snd (enq_pass (tp_nthreads p) None True W (tp_jobq p)))"
    using assms by (auto simp: pool_ok_def pool_inv_def intro: fifo_inv_enq)
  moreover have "thread_ok t (close_pass W k p)" for t
    using ok [of t] assms(2,3) k by (auto simp: close_pass_def split_beta thread_ok_def enq_pass_th split: worker.splits if_splits)
  moreover have "replicate k None @ [None] = replicate (Suc k) None" by (simp add: replicate_append_same)
  ultimately show ?thesis
    using assms(1,2) k by (auto simp: pool_ok_def pool_inv_def close_pass_def split_beta pills_def replicate_append_same)
qed

lemma pool_ok_closing:
  assumes "pool_ok p" shows
    "tp_closing p = Open \<Longrightarrow> \<forall>t \<ge> tp_nthreads p. ff_th (tp_jobq p) t = Out \<Longrightarrow> pool_ok (p\<lparr>tp_closing := Pilling 0\<rparr>)"
    "tp_closing p = Pilling (tp_nthreads p) \<Longrightarrow> pool_ok (p\<lparr>tp_closing := Joining 0\<rparr>)"
    "tp_closing p = Joining k \<Longrightarrow> k < tp_nthreads p \<Longrightarrow> tp_worker p k = Gone \<Longrightarrow> pool_ok (p\<lparr>tp_closing := Joining (Suc k)\<rparr>)"
proof -
  have ok: "thread_ok t p" for t using assms by (simp add: pool_ok_def)
  show "pool_ok (p\<lparr>tp_closing := Pilling 0\<rparr>)" if "tp_closing p = Open" "\<forall>t \<ge> tp_nthreads p. ff_th (tp_jobq p) t = Out"
  proof -
    have "thread_ok t (p\<lparr>tp_closing := Pilling 0\<rparr>)" for t
      using ok [of t] that by (auto simp: thread_ok_def split: worker.splits if_splits)
    then show ?thesis using assms that(1) by (auto simp: pool_ok_def pool_inv_def pills_def)
  qed
  show "pool_ok (p\<lparr>tp_closing := Joining 0\<rparr>)" if "tp_closing p = Pilling (tp_nthreads p)"
  proof -
    have "thread_ok t (p\<lparr>tp_closing := Joining 0\<rparr>)" for t
      using ok [of t] that by (auto simp: thread_ok_def split: worker.splits if_splits)
    then show ?thesis using assms that by (auto simp: pool_ok_def pool_inv_def pills_def)
  qed
  show "pool_ok (p\<lparr>tp_closing := Joining (Suc k)\<rparr>)" if "tp_closing p = Joining k" "k < tp_nthreads p" "tp_worker p k = Gone"
  proof -
    have "thread_ok t (p\<lparr>tp_closing := Joining (Suc k)\<rparr>)" for t
      using ok [of t] that by (auto simp: thread_ok_def split: worker.splits if_splits)
    moreover have "k \<in> left p" using that by (simp add: left_def)
    then have "{..<Suc k} \<subseteq> left p" using assms that(1) by (auto simp: pool_ok_def pool_inv_def lessThan_Suc)
    ultimately show ?thesis using assms that by (auto simp: pool_ok_def pool_inv_def pills_def)
  qed
qed

lemma pool_ok_new: "pool_ok (ThrPool_new sz blocking)"
proof -
  have "{t. t < nat (sint sz)} = {..<nat (sint sz)}" by auto
  then show ?thesis
    by (auto simp: pool_ok_def pool_inv_def ThrPool_new_def Let_def fifo_inv_def fifo_new_def thread_sets pills_def left_def thread_ok_def)
qed

lemma pool_ok_act: "pool_ok p \<Longrightarrow> pool_act p p' \<Longrightarrow> pool_ok p'"
  by (erule pool_act.cases)
    (auto intro: pool_ok_add pool_ok_user pool_ok_take pool_ok_done pool_ok_closing pool_ok_pill pool_ok_close_pass)

lemma pool_ok_step: "pool_ok p \<Longrightarrow> pool_step p p' \<Longrightarrow> pool_ok p'"
  by (erule pool_step.cases) (auto intro: pool_ok_act pool_ok_spurious)

lemma pool_queue:
  assumes "pool_ok p"
  shows "ff_out (tp_jobq p) @ ff_q (tp_jobq p) = map Some (tp_accepted p) @ replicate (pills p) None"
proof -
  have "ff_in (tp_jobq p) = ff_out (tp_jobq p) @ ff_q (tp_jobq p)"
    "ff_in (tp_jobq p) = map Some (tp_accepted p) @ replicate (pills p) None"
    using assms unfolding pool_ok_def pool_inv_def fifo_inv_def by blast+
  then show ?thesis by (simp only:)
qed

lemma pool_counts: "pool_ok p \<Longrightarrow> count_list (ff_out (tp_jobq p)) None = card (left p)"
  unfolding pool_ok_def pool_inv_def by blast

interpretation pool_sys: invariant_system pool_fresh pool_step pool_ok
  by unfold_locales (auto simp: pool_fresh_def intro: pool_ok_new pool_ok_step)


text \<open>Progress of the destructor.\<close>

lemma waiting_item:
  assumes "fifo_inv f" "t \<in> item_waiters f" "ff_q f \<noteq> []"
  shows "takers f \<noteq> {}"
  using assms by (auto simp: fifo_inv_def)

lemma waiting_space:
  assumes "fifo_inv f" "t \<in> space_waiters f" "putters f = {}"
  shows "ff_q f \<noteq> []"
  using assms by (auto simp: fifo_inv_def unat_eq_0)

lemma pool_thread_worker:
  assumes "pool_ok p" "tp_closing p \<noteq> Open"
  shows "t \<in> takers (tp_jobq p) \<Longrightarrow> t < tp_nthreads p" "t \<in> putters (tp_jobq p) \<Longrightarrow> t = tp_nthreads p"
  using assms(1) [unfolded pool_ok_def, THEN conjunct2, THEN spec, of t] assms(2)
  by (auto simp: thread_ok_def thread_sets split: if_splits worker.splits closing.splits)

lemma some_taker_acts:
  assumes "pool_ok p" "tp_closing p \<noteq> Open" "takers (tp_jobq p) \<noteq> {}"
  shows "\<exists>p'. pool_act p p'"
proof -
  obtain t where t: "t \<in> takers (tp_jobq p)" using assms(3) by blast
  have "signalled (space_waiters (tp_jobq p)) (space_waiters (tp_jobq p))" by (simp add: signalled_def)
  then show ?thesis using pool_act.take [of t p] pool_thread_worker(1) [OF assms(1,2) t] t by (auto simp: takers_def)
qed

text \<open>A worker that is not gone can act while the queue is not empty, or another one can.\<close>

lemma some_worker_acts:
  assumes "pool_ok p" "tp_closing p \<noteq> Open" "t < tp_nthreads p" "tp_worker p t \<noteq> Gone" "ff_q (tp_jobq p) \<noteq> []"
  shows "\<exists>p'. pool_act p p'"
proof (cases "tp_worker p t")
  case Taking
  then have "t \<in> takers (tp_jobq p) \<or> t \<in> item_waiters (tp_jobq p)"
    using assms(1) [unfolded pool_ok_def, THEN conjunct2, THEN spec, of t] assms(3) by (auto simp: thread_ok_def thread_sets)
  then have "takers (tp_jobq p) \<noteq> {}" using waiting_item assms(1,5) by (auto simp: pool_ok_def pool_inv_def)
  then show ?thesis by (rule some_taker_acts [OF assms(1,2)])
next
  case (Running j)
  then show ?thesis using job_done [OF assms(3)] by blast
qed (use assms(4) in simp)

lemma pill_waiting:
  assumes "pool_ok p" "t < tp_nthreads p" "tp_worker p t \<noteq> Gone" "pills p = tp_nthreads p"
  shows "ff_q (tp_jobq p) \<noteq> []"
proof
  assume "ff_q (tp_jobq p) = []"
  then have "ff_out (tp_jobq p) = map Some (tp_accepted p) @ replicate (pills p) None"
    using pool_queue [OF assms(1)] by simp
  then have "count_list (ff_out (tp_jobq p)) None = tp_nthreads p"
    using assms(4) by (simp add: count_list_0_iff count_list_replicate)
  moreover have "card (left p) < card {..<tp_nthreads p}"
    using assms(2,3) by (intro psubset_card_mono) (auto simp: left_def)
  ultimately show False using assms(1) by (simp add: pool_ok_def pool_inv_def)
qed

lemma some_worker_left:
  assumes "pool_ok p" "pills p < tp_nthreads p"
  obtains t where "t < tp_nthreads p" "tp_worker p t \<noteq> Gone"
proof -
  have "count_list (ff_out (tp_jobq p)) None \<le> count_list (ff_out (tp_jobq p) @ ff_q (tp_jobq p)) None" by simp
  also have "\<dots> = pills p" unfolding pool_queue [OF assms(1)] by (simp add: count_list_0_iff count_list_replicate)
  finally have "card (left p) < tp_nthreads p" using pool_counts [OF assms(1)] assms(2) by simp
  then have "\<not> {..<tp_nthreads p} \<subseteq> left p" using card_mono [OF finite_left, of "{..<tp_nthreads p}" p] by auto
  then obtain t where "t < tp_nthreads p" "t \<notin> left p" by blast
  then show ?thesis using that by (simp add: left_def)
qed

lemma closing_acts:
  assumes "pool_ok p" "tp_closing p \<noteq> Open" "tp_closing p \<noteq> Joining (tp_nthreads p)"
  shows "\<exists>p'. pool_act p p'"
proof (cases "tp_closing p")
  case (Pilling k)
  let ?n = "tp_nthreads p" and ?q = "tp_jobq p"
  have k: "k \<le> ?n" "pills p = k" using assms(1) Pilling by (auto simp: pool_ok_def pool_inv_def pills_def)
  have th: "ff_th ?q ?n \<in> {Out, In_Enq None True, Wait_Space None}"
    using assms(1) [unfolded pool_ok_def, THEN conjunct2, THEN spec, of ?n] Pilling by (auto simp: thread_ok_def)
  have sig: "signalled (item_waiters ?q) (item_waiters ?q)" by (simp add: signalled_def)
  show ?thesis
  proof (cases "k = ?n")
    case True
    then show ?thesis using close_join [of p] Pilling by auto
  next
    case False
    then have less: "k < ?n" using k by simp
    consider "ff_th ?q ?n = Out" | "ff_th ?q ?n = In_Enq None True" | "ff_th ?q ?n = Wait_Space None" using th by blast
    then show ?thesis
    proof cases
      case 1 then show ?thesis using close_next [OF Pilling less] by blast
    next
      case 2 then show ?thesis using close_run [OF Pilling _ sig] by blast
    next
      case 3
      have "x \<notin> putters ?q" for x
      proof
        assume x: "x \<in> putters ?q"
        then have "x = ?n" by (rule pool_thread_worker(2) [OF assms(1,2)])
        with x 3 show False by (simp add: putters_def)
      qed
      then have "putters ?q = {}" by blast
      then have "ff_q ?q \<noteq> []" using waiting_space [of ?q ?n] assms(1) 3 by (auto simp: pool_ok_def pool_inv_def space_waiters_def)
      moreover obtain t where "t < ?n" "tp_worker p t \<noteq> Gone" using some_worker_left [OF assms(1)] k(2) less by blast
      ultimately show ?thesis using some_worker_acts [OF assms(1,2)] by blast
    qed
  qed
next
  case (Joining k)
  then have k: "k < tp_nthreads p" "pills p = tp_nthreads p"
    using assms(1,3) by (auto simp: pool_ok_def pool_inv_def pills_def nat_less_le)
  show ?thesis
  proof (cases "tp_worker p k = Gone")
    case True
    then show ?thesis using close_joined [OF Joining k(1)] by blast
  next
    case False
    then show ?thesis using some_worker_acts [OF assms(1,2) k(1)] pill_waiting [OF assms(1) k(1) _ k(2)] by blast
  qed
qed (use assms(2) in simp)

text \<open>
  A rank that every action lowers while the destructor runs: the elements and pills still to be
  taken, the pills still to be put, the threads still to be joined, how far the destructor is
  from waiting, and how far each worker is.
\<close>

fun closing_weight :: "nat \<Rightarrow> closing \<Rightarrow> nat" where
  "closing_weight n Open = n + 2"
| "closing_weight n (Pilling k) = n + 1"
| "closing_weight n (Joining k) = n - k"

fun pc_weight :: "'a fifo_pc \<Rightarrow> nat" where
  "pc_weight Out = 2"
| "pc_weight (In_Enq e b) = 1"
| "pc_weight p = 0"

definition worker_weight :: "'j thr_pool \<Rightarrow> tid \<Rightarrow> nat" where
  "worker_weight p t =
     (case tp_worker p t of Running j \<Rightarrow> 2 | Taking \<Rightarrow> if ff_th (tp_jobq p) t = In_Deq then 1 else 0 | Gone \<Rightarrow> 0)"

definition closing_rank :: "'j thr_pool \<Rightarrow> nat \<times> nat \<times> nat \<times> nat \<times> nat" where
  "closing_rank p =
     (tp_nthreads p - pills p + length (ff_q (tp_jobq p)), tp_nthreads p - pills p,
      closing_weight (tp_nthreads p) (tp_closing p), pc_weight (ff_th (tp_jobq p) (tp_nthreads p)),
      \<Sum>t < tp_nthreads p. worker_weight p t)"

abbreviation rank_less :: "((nat \<times> nat \<times> nat \<times> nat \<times> nat) \<times> (nat \<times> nat \<times> nat \<times> nat \<times> nat)) set" where
  "rank_less \<equiv> less_than <*lex*> less_than <*lex*> less_than <*lex*> less_than <*lex*> less_than"

lemma sum_one_less:
  fixes f g :: "nat \<Rightarrow> nat"
  assumes "t < n" "g t < f t" "\<And>s. s \<noteq> t \<Longrightarrow> g s = f s"
  shows "(\<Sum>s < n. g s) < (\<Sum>s < n. f s)"
proof (rule sum_strict_mono_ex1)
  show "\<forall>s \<in> {..<n}. g s \<le> f s" using assms(2,3) by (metis less_or_eq_imp_le)
  show "\<exists>s \<in> {..<n}. g s < f s" using assms(1,2) by blast
qed simp

lemma rank_done:
  assumes "pool_ok p" "t < tp_nthreads p" "tp_worker p t = Running j"
  shows "(closing_rank (do_worker_done t p), closing_rank p) \<in> rank_less"
proof -
  have "(\<Sum>s < tp_nthreads p. worker_weight (do_worker_done t p) s) < (\<Sum>s < tp_nthreads p. worker_weight p s)"
    using assms by (intro sum_one_less [of t]) (auto simp: worker_weight_def do_worker_done_def split: worker.splits)
  then show ?thesis using assms(2) by (simp add: closing_rank_def do_worker_done_def)
qed

lemma rank_take:
  assumes "pool_ok p" "t < tp_nthreads p" "ff_th (tp_jobq p) t = In_Deq"
  shows "(closing_rank (do_worker_take t W p), closing_rank p) \<in> rank_less"
proof (cases "ff_q (tp_jobq p)")
  case Nil
  have w: "tp_worker p t = Taking"
    using assms(1) [unfolded pool_ok_def, THEN conjunct2, THEN spec, of t] assms(2,3) by (auto simp: thread_ok_def split: worker.splits)
  have p': "do_worker_take t W p = p\<lparr>tp_jobq := move t Wait_Item (tp_jobq p)\<rparr>"
    using Nil by (simp add: do_worker_take_def takeJob_pass_def deq_pass_def)
  have "(\<Sum>s < tp_nthreads p. worker_weight (do_worker_take t W p) s) < (\<Sum>s < tp_nthreads p. worker_weight p s)"
    using assms w by (intro sum_one_less [of t]) (auto simp: worker_weight_def p' split: worker.splits)
  then show ?thesis using assms(2) Nil by (simp add: closing_rank_def p')
next
  case (Cons e q)
  then have "length (ff_q (snd (deq_pass t W (tp_jobq p)))) < length (ff_q (tp_jobq p))"
    by (simp add: deq_pass_def Let_def)
  then show ?thesis using Cons
    by (cases e) (auto simp: closing_rank_def do_worker_take_def takeJob_pass_def split_beta pills_def split: closing.splits)
qed

lemma rank_close:
  assumes "pool_ok p" shows
    "tp_closing p = Pilling k \<Longrightarrow> ff_th (tp_jobq p) (tp_nthreads p) = Out \<Longrightarrow> (closing_rank (close_pill p), closing_rank p) \<in> rank_less"
    "tp_closing p = Pilling k \<Longrightarrow> ff_th (tp_jobq p) (tp_nthreads p) = In_Enq None True \<Longrightarrow>
      (closing_rank (close_pass W k p), closing_rank p) \<in> rank_less"
    "tp_closing p = Pilling (tp_nthreads p) \<Longrightarrow> (closing_rank (p\<lparr>tp_closing := Joining 0\<rparr>), closing_rank p) \<in> rank_less"
    "tp_closing p = Joining k \<Longrightarrow> k < tp_nthreads p \<Longrightarrow> (closing_rank (p\<lparr>tp_closing := Joining (Suc k)\<rparr>), closing_rank p) \<in> rank_less"
proof -
  show "(closing_rank (close_pill p), closing_rank p) \<in> rank_less"
    if "tp_closing p = Pilling k" "ff_th (tp_jobq p) (tp_nthreads p) = Out"
    using that by (simp add: closing_rank_def close_pill_def)
  show "(closing_rank (close_pass W k p), closing_rank p) \<in> rank_less"
    if c: "tp_closing p = Pilling k" "ff_th (tp_jobq p) (tp_nthreads p) = In_Enq None True"
  proof -
    have "k < tp_nthreads p"
      using assms [unfolded pool_ok_def, THEN conjunct2, THEN spec, of "tp_nthreads p"] c by (simp add: thread_ok_def)
    then have "tp_nthreads p - Suc k < tp_nthreads p - k" by simp
    then show ?thesis using c by (auto simp: closing_rank_def close_pass_def enq_pass_def pills_def)
  qed
  show "(closing_rank (p\<lparr>tp_closing := Joining 0\<rparr>), closing_rank p) \<in> rank_less" if "tp_closing p = Pilling (tp_nthreads p)"
    using that by (simp add: closing_rank_def pills_def)
  show "(closing_rank (p\<lparr>tp_closing := Joining (Suc k)\<rparr>), closing_rank p) \<in> rank_less"
    if "tp_closing p = Joining k" "k < tp_nthreads p"
    using that diff_less_mono2 [of k "Suc k" "tp_nthreads p"] by (simp add: closing_rank_def pills_def)
qed

lemma closing_act:
  assumes "pool_ok p" "pool_act p p'" "tp_closing p \<noteq> Open"
  shows "tp_closing p' \<noteq> Open" "(closing_rank p', closing_rank p) \<in> rank_less"
proof -
  have no_user: "ff_th (tp_jobq p) t \<noteq> In_Enq (Some j) b" for t j b
    using assms(1) [unfolded pool_ok_def, THEN conjunct2, THEN spec, of t] assms(3)
    by (auto simp: thread_ok_def split: if_splits worker.splits closing.splits)
  show "tp_closing p' \<noteq> Open" using assms(2,3) no_user
    by cases (auto simp: do_worker_take_def takeJob_pass_def do_worker_done_def close_pill_def close_pass_def split_beta split: option.splits)
  show "(closing_rank p', closing_rank p) \<in> rank_less" using assms(2,3)
    by cases (auto simp: no_user intro: rank_take [OF assms(1)] rank_done [OF assms(1)] rank_close [OF assms(1)])
qed

text \<open>
  C20: destroying the pool ends.  Once the destructor has been called, with no user of the pool
  left, the pool cannot go on forever and it stops nowhere but where all threads have been
  joined, provided that jobs return and threads wake without a signal only finitely often.
\<close>

theorem shutdown_terminates:
  assumes "reach pool_fresh pool_step p" and "tp_closing p \<noteq> Open"
  shows "(\<nexists>run. run 0 = p \<and> (\<forall>i. pool_act (run i) (run (Suc i)))) \<and>
    ((\<nexists>p'. pool_act p p') \<longrightarrow> tp_closing p = Joining (tp_nthreads p))"
proof
  have ok: "pool_ok p" by (rule pool_sys.reach_inv [OF assms(1)])
  show "(\<nexists>p'. pool_act p p') \<longrightarrow> tp_closing p = Joining (tp_nthreads p)" using closing_acts [OF ok assms(2)] by blast
  show "\<nexists>run. run 0 = p \<and> (\<forall>i. pool_act (run i) (run (Suc i)))"
  proof
    assume "\<exists>run. run 0 = p \<and> (\<forall>i. pool_act (run i) (run (Suc i)))"
    then obtain run where run: "run 0 = p" "\<And>i. pool_act (run i) (run (Suc i))" by blast
    have "pool_ok (run i) \<and> tp_closing (run i) \<noteq> Open" for i
      by (induction i) (use run ok assms(2) pool_ok_act closing_act(1) in blast)+
    then have "(closing_rank (run (Suc i)), closing_rank (run i)) \<in> rank_less" for i using closing_act(2) run(2) by blast
    moreover have "wf rank_less" by auto
    ultimately show False
      using wf_no_infinite_down_chainE [of rank_less "\<lambda>i. closing_rank (run i)"] by blast
  qed
qed

text \<open>A pool of one thread that is given job 7 and destroyed.\<close>

definition demo1 :: "nat thr_pool" where
  "demo1 = snd (addJob_pass 1 7 False {} (addJob_begin 1 7 (ThrPool_new 1 False)))"

definition demo2 :: "nat thr_pool" where
  "demo2 = (do_worker_take 0 {} demo1)\<lparr>tp_closing := Pilling 0\<rparr>"


lemmas demo_defs = ThrPool_new_def addJob_begin_def addJob_pass_def do_worker_take_def
  takeJob_pass_def do_worker_done_def close_pill_def close_pass_def enq_pass_def deq_pass_def has_room_def fifo_new_def
  move_def wake_all_def signalled_def item_waiters_def space_waiters_def

lemma demo1_state:
  "demo1 = \<lparr>tp_nthreads = 1, tp_blockadd = False,
     tp_jobq = \<lparr>ff_q = [Some 7], ff_max = 100, ff_th = (\<lambda>t. if t = 0 then In_Deq else Out), ff_in = [Some 7], ff_out = []\<rparr>,
     tp_worker = (\<lambda>t. if t = 0 then Taking else Gone), tp_closing = Open, tp_accepted = [7], tp_started = []\<rparr>"
  by (auto simp: demo1_def demo_defs fun_eq_iff)

lemma demo2_state:
  "demo2 = \<lparr>tp_nthreads = 1, tp_blockadd = False,
     tp_jobq = \<lparr>ff_q = [], ff_max = 100, ff_th = (\<lambda>t. Out), ff_in = [Some 7], ff_out = [Some 7]\<rparr>,
     tp_worker = (\<lambda>t. if t = 0 then Running 7 else Gone), tp_closing = Pilling 0, tp_accepted = [7], tp_started = [7]\<rparr>"
  unfolding demo2_def demo1_state by (auto simp: demo_defs fun_eq_iff)


lemma demo1_reach: "reach pool_fresh pool_step demo1"
proof -
  let ?a = "addJob_begin 1 7 (ThrPool_new 1 False) :: nat thr_pool"
  have "reach pool_fresh pool_step (ThrPool_new 1 False :: nat thr_pool)" by (rule reach_init) (auto simp: pool_fresh_def)
  then have a: "reach pool_fresh pool_step ?a" by (rule reach_step) (rule act, rule user_add, simp_all add: demo_defs)
  have "ff_th (tp_jobq ?a) 1 = In_Enq (Some 7) False" "tp_nthreads ?a = 1" "item_waiters (tp_jobq ?a) = {}"
    by (simp_all add: demo_defs)
  then have "pool_act ?a demo1" unfolding demo1_def by (intro user_run) (simp_all add: signalled_def)
  with a show ?thesis by (blast intro: reach_step act)
qed

lemma demo2_reach: "reach pool_fresh pool_step demo2"
proof -
  have "reach pool_fresh pool_step (do_worker_take 0 {} demo1)"
    by (rule reach_step [OF demo1_reach]) (rule act, rule take, simp_all add: demo1_state signalled_def space_waiters_def)
  then show ?thesis unfolding demo2_def
    by (rule reach_step) (rule act, rule close_begin, simp_all add: demo1_state demo_defs)
qed



theorem shutdown_terminates_witness:
  "\<nexists>run :: nat \<Rightarrow> nat thr_pool. run 0 = demo2 \<and> (\<forall>i. pool_act (run i) (run (Suc i)))"
proof -
  have "tp_closing demo2 \<noteq> Open" by (simp add: demo2_state)
  from shutdown_terminates [OF demo2_reach this] show ?thesis by blast
qed

end
