(* ===== verification/Handle.thy ===== *)
theory Handle
  imports Prelude
begin

text \<open>
  The cache of RPC clients of \<^verbatim>\<open>handle.cc\<close> and \<^verbatim>\<open>handle.h\<close>.  \<^verbatim>\<open>handle_mgr\<close> maps a destination to a
  reference-counted \<^verbatim>\<open>hinfo\<close>; a \<^verbatim>\<open>handle\<close> object holds a reference from its construction to its
  destruction.  The operations of the manager run under \<^verbatim>\<open>handle_mutex\<close>; \<^verbatim>\<open>safebind\<close> runs under the
  \<^verbatim>\<open>cl_mutex\<close> of the \<^verbatim>\<open>hinfo\<close> only and calls \<^verbatim>\<open>bind\<close> in the middle, so it is split there.  Objects
  live in an explicit heap, and using one that was deleted is a fault.
\<close>

section \<open>State\<close>

type_synonym addr = nat
type_synonym rpcc_id = nat

text \<open>
  \<open>h_locked\<close> says that \<^verbatim>\<open>cl_mutex\<close> is held over a call of \<^verbatim>\<open>bind\<close>.  The reference count is an unbounded
  integer: it counts objects on the stacks of threads.
\<close>

record hinfo =
  h_cl :: "rpcc_id option"
  h_refcnt :: int
  h_del :: bool
  h_m :: string
  h_locked :: bool

text \<open>\<open>hm_heap\<close> are the allocated \<^verbatim>\<open>hinfo\<close> objects and \<open>hm_clients\<close> the allocated \<^verbatim>\<open>rpcc\<close> objects.\<close>

record handle_mgr =
  hm_hmap :: "(string, addr) smap"
  hm_heap :: "addr \<rightharpoonup> hinfo"
  hm_clients :: "rpcc_id set"

definition handle_mgr_new :: handle_mgr where
  "handle_mgr_new = \<lparr>hm_hmap = [], hm_heap = Map.empty, hm_clients = {}\<rparr>"

definition deref :: "addr \<Rightarrow> handle_mgr \<Rightarrow> hinfo res" where
  "deref a s = (case hm_heap s a of None \<Rightarrow> Inl Dangling | Some h \<Rightarrow> Inr h)"

definition hset :: "addr \<Rightarrow> hinfo \<Rightarrow> handle_mgr \<Rightarrow> handle_mgr" where
  "hset a h s = s\<lparr>hm_heap := (hm_heap s)(a \<mapsto> h)\<rparr>"

section \<open>Operations of the manager\<close>

text \<open>\<open>a\<close> is the address that \<^verbatim>\<open>new hinfo\<close> returns.\<close>

definition get_handle :: "addr \<Rightarrow> string \<Rightarrow> handle_mgr \<Rightarrow> (addr option \<times> handle_mgr) res" where
  "get_handle a m s =
     (case map_of (hm_hmap s) m of
        None \<Rightarrow> Inr (Some a, hset a \<lparr>h_cl = None, h_refcnt = 1, h_del = False, h_m = m, h_locked = False\<rparr>
                              (s\<lparr>hm_hmap := smap_set m a (hm_hmap s)\<rparr>))
      | Some p \<Rightarrow> res_bind (deref p s) (\<lambda>h.
          if \<not> h_del h then Inr (Some p, hset p (h\<lparr>h_refcnt := h_refcnt h + 1\<rparr>) s) else Inr (None, s)))"

definition delete_client :: "rpcc_id option \<Rightarrow> handle_mgr \<Rightarrow> handle_mgr res" where
  "delete_client c s =
     (case c of
        None \<Rightarrow> Inr s
      | Some c \<Rightarrow> if c \<in> hm_clients s then Inr (s\<lparr>hm_clients := hm_clients s - {c}\<rparr>) else Inl Dangling)"

definition delete_handle_wo :: "string \<Rightarrow> handle_mgr \<Rightarrow> handle_mgr res" where
  "delete_handle_wo m s =
     (case map_of (hm_hmap s) m of
        None \<Rightarrow> Inr s
      | Some p \<Rightarrow> res_bind (deref p s) (\<lambda>h.
          if h_refcnt h = 0
          then res_bind (delete_client (h_cl h) s) (\<lambda>s.
                 Inr (s\<lparr>hm_hmap := smap_del m (hm_hmap s), hm_heap := (hm_heap s)(p := None)\<rparr>))
          else Inr (hset p (h\<lparr>h_del := True\<rparr>) s)))"

definition delete_handle :: "string \<Rightarrow> handle_mgr \<Rightarrow> handle_mgr res" where
  "delete_handle m s = delete_handle_wo m s"

definition done_handle :: "addr \<Rightarrow> handle_mgr \<Rightarrow> handle_mgr res" where
  "done_handle p s =
     res_bind (deref p s) (\<lambda>h.
       let h = h\<lparr>h_refcnt := h_refcnt h - 1\<rparr>; s = hset p h s
       in if h_refcnt h = 0 \<and> h_del h then delete_handle_wo (h_m h) s else Inr s)"

section \<open>Operations of a handle\<close>

definition handle_new :: "addr \<Rightarrow> string \<Rightarrow> handle_mgr \<Rightarrow> (addr option \<times> handle_mgr) res" where
  "handle_new a m s = get_handle a m s"

definition handle_delete :: "addr option \<Rightarrow> handle_mgr \<Rightarrow> handle_mgr res" where
  "handle_delete h s = (case h of None \<Rightarrow> Inr s | Some p \<Rightarrow> done_handle p s)"

text \<open>
  \<^verbatim>\<open>safebind\<close> up to \<^verbatim>\<open>bind\<close>: it returns, or it calls \<^verbatim>\<open>bind\<close> on the new client \<open>c\<close>.
\<close>

datatype safebind = Return "rpcc_id option" | Bind rpcc_id

definition safebind_enter :: "rpcc_id \<Rightarrow> addr option \<Rightarrow> handle_mgr \<Rightarrow> (safebind \<times> handle_mgr) res" where
  "safebind_enter c h s =
     (case h of
        None \<Rightarrow> Inr (Return None, s)
      | Some p \<Rightarrow> res_bind (deref p s) (\<lambda>h.
          if h_del h then Inr (Return None, s)
          else case h_cl h of
                 Some cl \<Rightarrow> Inr (Return (Some cl), s)
               | None \<Rightarrow> Inr (Bind c, (hset p (h\<lparr>h_locked := True\<rparr>) s)\<lparr>hm_clients := insert c (hm_clients s)\<rparr>)))"

text \<open>\<open>ret\<close> is the result of \<^verbatim>\<open>bind\<close>.\<close>

definition safebind_leave :: "rpcc_id \<Rightarrow> i32 \<Rightarrow> addr \<Rightarrow> handle_mgr \<Rightarrow> (rpcc_id option \<times> handle_mgr) res" where
  "safebind_leave c ret p s =
     res_bind (deref p s) (\<lambda>h.
       if sint ret < 0
       then res_bind (delete_client (Some c) s) (\<lambda>s.
              Inr (h_cl h, hset p (h\<lparr>h_del := True, h_locked := False\<rparr>) s))
       else Inr (Some c, hset p (h\<lparr>h_cl := Some c, h_locked := False\<rparr>) s))"

section \<open>Threads that use the manager\<close>

text \<open>
  The live \<^verbatim>\<open>handle\<close> objects with their pointers, and those whose \<^verbatim>\<open>safebind\<close> is in \<^verbatim>\<open>bind\<close> on a
  client.  A thread destroys only handles that are not in \<^verbatim>\<open>safebind\<close>.
\<close>

record handle_sys =
  hs_mgr :: handle_mgr
  hs_handles :: "nat \<Rightarrow> addr option option"
  hs_binding :: "nat \<Rightarrow> rpcc_id option"

inductive handle_step :: "handle_sys \<Rightarrow> handle_sys \<Rightarrow> bool" where
  construct: "hs_handles s i = None \<Longrightarrow> hm_heap (hs_mgr s) a = None \<Longrightarrow> handle_new a m (hs_mgr s) = Inr (h, g) \<Longrightarrow>
    handle_step s (s\<lparr>hs_mgr := g, hs_handles := (hs_handles s)(i \<mapsto> h)\<rparr>)"
| destruct: "hs_handles s i = Some h \<Longrightarrow> hs_binding s i = None \<Longrightarrow> handle_delete h (hs_mgr s) = Inr g \<Longrightarrow>
    handle_step s (s\<lparr>hs_mgr := g, hs_handles := (hs_handles s)(i := None)\<rparr>)"
| bind_call: "hs_handles s i = Some (Some p) \<Longrightarrow> hs_binding s i = None \<Longrightarrow> hm_heap (hs_mgr s) p = Some h \<Longrightarrow> \<not> h_locked h \<Longrightarrow>
    c \<notin> hm_clients (hs_mgr s) \<Longrightarrow> safebind_enter c (Some p) (hs_mgr s) = Inr (Bind c, g) \<Longrightarrow>
    handle_step s (s\<lparr>hs_mgr := g, hs_binding := (hs_binding s)(i \<mapsto> c)\<rparr>)"
| bind_return: "hs_handles s i = Some (Some p) \<Longrightarrow> hs_binding s i = Some c \<Longrightarrow> safebind_leave c ret p (hs_mgr s) = Inr (r, g) \<Longrightarrow>
    handle_step s (s\<lparr>hs_mgr := g, hs_binding := (hs_binding s)(i := None)\<rparr>)"
| forget: "delete_handle m (hs_mgr s) = Inr g \<Longrightarrow> handle_step s (s\<lparr>hs_mgr := g\<rparr>)"

definition handle_init :: "handle_sys \<Rightarrow> bool" where
  "handle_init s \<longleftrightarrow> s = \<lparr>hs_mgr = handle_mgr_new, hs_handles = (\<lambda>_. None), hs_binding = (\<lambda>_. None)\<rparr>"

text \<open>The handles that refer to an \<^verbatim>\<open>hinfo\<close>, and the clients that somebody owns.\<close>

definition holders :: "addr \<Rightarrow> handle_sys \<Rightarrow> nat set" where
  "holders p s = {i. hs_handles s i = Some (Some p)}"

definition map_inv :: "handle_sys \<Rightarrow> bool" where
  "map_inv s \<longleftrightarrow>
     (\<forall>m p. map_of (hm_hmap (hs_mgr s)) m = Some p \<longleftrightarrow> (\<exists>h. hm_heap (hs_mgr s) p = Some h \<and> h_m h = m))"

definition ref_inv :: "handle_sys \<Rightarrow> bool" where
  "ref_inv s \<longleftrightarrow>
     (\<forall>p. hm_heap (hs_mgr s) p = None \<longrightarrow> holders p s = {}) \<and>
     (\<forall>p h. hm_heap (hs_mgr s) p = Some h \<longrightarrow>
        finite (holders p s) \<and> h_refcnt h = int (card (holders p s)) \<and> (h_del h \<longrightarrow> holders p s \<noteq> {}))"

text \<open>An allocated client is owned by exactly one \<^verbatim>\<open>hinfo\<close> or by one call of \<^verbatim>\<open>safebind\<close>.\<close>

definition owns :: "handle_sys \<Rightarrow> addr + nat \<Rightarrow> rpcc_id \<Rightarrow> bool" where
  "owns s x c \<longleftrightarrow>
     (case x of Inl p \<Rightarrow> \<exists>h. hm_heap (hs_mgr s) p = Some h \<and> h_cl h = Some c | Inr i \<Rightarrow> hs_binding s i = Some c)"

definition client_inv :: "handle_sys \<Rightarrow> bool" where
  "client_inv s \<longleftrightarrow>
     (\<forall>c. c \<in> hm_clients (hs_mgr s) \<longleftrightarrow> (\<exists>x. owns s x c)) \<and> (\<forall>x y c. owns s x c \<longrightarrow> owns s y c \<longrightarrow> x = y)"

definition bind_inv :: "handle_sys \<Rightarrow> bool" where
  "bind_inv s \<longleftrightarrow>
     (\<forall>i c. hs_binding s i = Some c \<longrightarrow>
        (\<exists>p h. hs_handles s i = Some (Some p) \<and> hm_heap (hs_mgr s) p = Some h \<and> h_locked h \<and> h_cl h = None)) \<and>
     (\<forall>i j p. i \<in> holders p s \<longrightarrow> j \<in> holders p s \<longrightarrow> hs_binding s i \<noteq> None \<longrightarrow> hs_binding s j \<noteq> None \<longrightarrow> i = j)"

section \<open>Invariants\<close>

lemma deref_eq [simp]: "deref p s = Inr h \<longleftrightarrow> hm_heap s p = Some h"
  by (simp add: deref_def split: option.splits)

lemma hset_frame [simp]:
  "hm_heap (hset p h s) = (hm_heap s)(p \<mapsto> h)" "hm_hmap (hset p h s) = hm_hmap s" "hm_clients (hset p h s) = hm_clients s"
  by (simp_all add: hset_def)

text \<open>The changes that the operations make, one equation per outcome.\<close>

lemma handle_new_cases:
  assumes "handle_new a m s = Inr (h, g)"
  obtains (fresh) "map_of (hm_hmap s) m = None" "h = Some a"
      "g = hset a \<lparr>h_cl = None, h_refcnt = 1, h_del = False, h_m = m, h_locked = False\<rparr> (s\<lparr>hm_hmap := smap_set m a (hm_hmap s)\<rparr>)"
    | (shared) p hi where "map_of (hm_hmap s) m = Some p" "hm_heap s p = Some hi" "\<not> h_del hi" "h = Some p"
      "g = hset p (hi\<lparr>h_refcnt := h_refcnt hi + 1\<rparr>) s"
    | (refused) "h = None" "g = s"
  using assms by (auto simp: handle_new_def get_handle_def res_bind_eq_Inr_iff split: option.splits if_splits)

lemma delete_handle_wo_cases:
  assumes "delete_handle_wo m s = Inr g"
  obtains (unknown) "map_of (hm_hmap s) m = None" "g = s"
    | (marked) p h where "map_of (hm_hmap s) m = Some p" "hm_heap s p = Some h" "h_refcnt h \<noteq> 0" "g = hset p (h\<lparr>h_del := True\<rparr>) s"
    | (erased) p h where "map_of (hm_hmap s) m = Some p" "hm_heap s p = Some h" "h_refcnt h = 0"
      "g = s\<lparr>hm_hmap := smap_del m (hm_hmap s), hm_heap := (hm_heap s)(p := None), hm_clients := hm_clients s - set_option (h_cl h)\<rparr>"
proof (cases "map_of (hm_hmap s) m")
  case None
  then have "g = s" using assms by (simp add: delete_handle_wo_def)
  then show thesis by (rule unknown [OF None])
next
  case (Some p)
  then obtain h where h: "hm_heap s p = Some h" using assms by (auto simp: delete_handle_wo_def res_bind_eq_Inr_iff)
  show thesis
  proof (cases "h_refcnt h = 0")
    case True
    have "delete_handle_wo m s = res_bind (delete_client (h_cl h) s) (\<lambda>s.
        Inr (s\<lparr>hm_hmap := smap_del m (hm_hmap s), hm_heap := (hm_heap s)(p := None)\<rparr>))"
      using True Some h by (simp add: delete_handle_wo_def deref_def)
    moreover have "delete_client (h_cl h) s = Inr t \<Longrightarrow> t = s\<lparr>hm_clients := hm_clients s - set_option (h_cl h)\<rparr>" for t
      by (cases "h_cl h") (auto simp: delete_client_def split: if_splits)
    ultimately have "g = s\<lparr>hm_hmap := smap_del m (hm_hmap s), hm_heap := (hm_heap s)(p := None), hm_clients := hm_clients s - set_option (h_cl h)\<rparr>"
      using assms by (cases "delete_client (h_cl h) s") auto
    then show thesis by (rule erased [OF Some h True])
  next
    case False
    have "delete_handle_wo m s = Inr (hset p (h\<lparr>h_del := True\<rparr>) s)"
      using False Some h by (simp add: delete_handle_wo_def deref_def)
    then have "g = hset p (h\<lparr>h_del := True\<rparr>) s" using assms by simp
    then show thesis by (rule marked [OF Some h False])
  qed
qed

lemma handle_delete_cases:
  assumes "handle_delete h s = Inr g"
  obtains (none) "h = None" "g = s"
    | (drop) p hi where "h = Some p" "hm_heap s p = Some hi" "\<not> (h_refcnt hi = 1 \<and> h_del hi)" "g = hset p (hi\<lparr>h_refcnt := h_refcnt hi - 1\<rparr>) s"
    | (last) p hi where "h = Some p" "hm_heap s p = Some hi" "h_refcnt hi = 1" "h_del hi"
      "delete_handle_wo (h_m hi) (hset p (hi\<lparr>h_refcnt := 0\<rparr>) s) = Inr g"
  using assms by (auto simp: handle_delete_def done_handle_def res_bind_eq_Inr_iff Let_def split: option.splits if_splits)

lemma safebind_enter_Bind:
  "safebind_enter c (Some p) s = Inr (Bind c', g) \<longleftrightarrow>
     c' = c \<and> (\<exists>h. hm_heap s p = Some h \<and> \<not> h_del h \<and> h_cl h = None \<and>
       g = (hset p (h\<lparr>h_locked := True\<rparr>) s)\<lparr>hm_clients := insert c (hm_clients s)\<rparr>)"
  by (auto simp: safebind_enter_def res_bind_eq_Inr_iff split: option.splits if_splits)

lemma safebind_leave_cases:
  assumes "safebind_leave c ret p s = Inr (r, g)"
  obtains (bound) h where "hm_heap s p = Some h" "0 \<le> sint ret" "r = Some c" "g = hset p (h\<lparr>h_cl := Some c, h_locked := False\<rparr>) s"
    | (failed) h where "hm_heap s p = Some h" "sint ret < 0" "c \<in> hm_clients s" "r = h_cl h"
      "g = hset p (h\<lparr>h_del := True, h_locked := False\<rparr>) (s\<lparr>hm_clients := hm_clients s - {c}\<rparr>)"
proof -
  obtain h where h: "hm_heap s p = Some h" using assms by (auto simp: safebind_leave_def res_bind_eq_Inr_iff)
  show thesis
  proof (cases "sint ret < 0")
    case True
    then show thesis using failed [OF h True] assms h
      by (auto simp: safebind_leave_def delete_client_def deref_def split: if_splits)
  next
    case False
    then show thesis using bound [OF h] assms h by (auto simp: safebind_leave_def deref_def)
  qed
qed

lemma map_inv_keep:
  assumes "map_inv s" "hm_heap (hs_mgr s) p = Some h" "h_m h' = h_m h"
    and "hm_heap (hs_mgr t) = (hm_heap (hs_mgr s))(p \<mapsto> h')" "hm_hmap (hs_mgr t) = hm_hmap (hs_mgr s)"
  shows "map_inv t"
  using assms by (auto simp: map_inv_def)

lemma map_inv_erase:
  assumes "map_inv s" "map_of (hm_hmap (hs_mgr s)) m = Some p"
    and "hm_heap (hs_mgr t) = (hm_heap (hs_mgr s))(p := None)" "hm_hmap (hs_mgr t) = smap_del m (hm_hmap (hs_mgr s))"
  shows "map_inv t"
  using assms by (auto simp: map_inv_def) (metis option.inject)+

lemma map_inv_unchanged:
  assumes "map_inv s" "hm_heap (hs_mgr t) = hm_heap (hs_mgr s)" "hm_hmap (hs_mgr t) = hm_hmap (hs_mgr s)"
  shows "map_inv t"
  using assms by (simp add: map_inv_def)

lemma map_inv_delete:
  assumes "map_inv s" "delete_handle_wo m (hs_mgr s) = Inr g" "hs_mgr t = g"
  shows "map_inv t"
  using assms(2)
proof (cases rule: delete_handle_wo_cases)
  case unknown
  then show ?thesis using assms by (auto intro: map_inv_unchanged)
next
  case (marked p h)
  show ?thesis by (rule map_inv_keep [OF assms(1) marked(2), of "h\<lparr>h_del := True\<rparr>"]) (simp_all add: assms(3) marked(4))
next
  case (erased p h)
  show ?thesis by (rule map_inv_erase [OF assms(1) erased(1)]) (simp_all add: assms(3) erased(4))
qed

lemma map_inv_step:
  assumes "map_inv s" "handle_step s t"
  shows "map_inv t"
  using assms(2)
proof cases
  case (construct i a m h g)
  from construct(4) show ?thesis
  proof (cases rule: handle_new_cases)
    case fresh
    have "h_m hi \<noteq> m" if "hm_heap (hs_mgr s) p = Some hi" for p hi
      using that fresh(1) assms(1) unfolding map_inv_def by (metis option.distinct(1))
    then show ?thesis using assms(1) construct(1,3) fresh by (auto simp: map_inv_def)
  next
    case (shared p hi)
    show ?thesis by (rule map_inv_keep [OF assms(1) shared(2), of "hi\<lparr>h_refcnt := h_refcnt hi + 1\<rparr>"]) (simp_all add: construct(1) shared(5))
  next
    case refused
    then show ?thesis using assms(1) construct(1) by (auto intro: map_inv_unchanged)
  qed
next
  case (destruct i h g)
  from destruct(4) show ?thesis
  proof (cases rule: handle_delete_cases)
    case none
    then show ?thesis using assms(1) destruct(1) by (auto intro: map_inv_unchanged)
  next
    case (drop p hi)
    show ?thesis by (rule map_inv_keep [OF assms(1) drop(2), of "hi\<lparr>h_refcnt := h_refcnt hi - 1\<rparr>"]) (simp_all add: destruct(1) drop(4))
  next
    case (last p hi)
    let ?s = "s\<lparr>hs_mgr := hset p (hi\<lparr>h_refcnt := 0\<rparr>) (hs_mgr s)\<rparr>"
    have "map_inv ?s" by (rule map_inv_keep [OF assms(1) last(2), of "hi\<lparr>h_refcnt := 0\<rparr>"]) simp_all
    then show ?thesis by (rule map_inv_delete [where m = "h_m hi" and g = g]) (simp_all add: last(5) destruct(1))
  qed
next
  case (bind_call i p h c g)
  then obtain hi where "hm_heap (hs_mgr s) p = Some hi" "hm_heap g = (hm_heap (hs_mgr s))(p \<mapsto> hi\<lparr>h_locked := True\<rparr>)" "hm_hmap g = hm_hmap (hs_mgr s)"
    by (auto simp: safebind_enter_Bind)
  then show ?thesis using map_inv_keep [OF assms(1), of p hi "hi\<lparr>h_locked := True\<rparr>"] bind_call(1) by simp
next
  case (bind_return i p c ret r g)
  from bind_return(4) show ?thesis
  proof (cases rule: safebind_leave_cases)
    case (bound h)
    show ?thesis by (rule map_inv_keep [OF assms(1) bound(1), of "h\<lparr>h_cl := Some c, h_locked := False\<rparr>"]) (simp_all add: bind_return(1) bound(4))
  next
    case (failed h)
    show ?thesis by (rule map_inv_keep [OF assms(1) failed(1), of "h\<lparr>h_del := True, h_locked := False\<rparr>"]) (simp_all add: bind_return(1) failed(5))
  qed
next
  case (forget m g)
  then show ?thesis using map_inv_delete [OF assms(1), of m g t] by (simp add: delete_handle_def)
qed

text \<open>The effect of a step on the heap, the clients, the handles and the calls of \<^verbatim>\<open>bind\<close>.\<close>

abbreviation heap_of :: "handle_sys \<Rightarrow> addr \<rightharpoonup> hinfo" where
  "heap_of s \<equiv> hm_heap (hs_mgr s)"

abbreviation clients_of :: "handle_sys \<Rightarrow> rpcc_id set" where
  "clients_of s \<equiv> hm_clients (hs_mgr s)"

definition hinfo_new :: "string \<Rightarrow> hinfo" where
  "hinfo_new m = \<lparr>h_cl = None, h_refcnt = 1, h_del = False, h_m = m, h_locked = False\<rparr>"

lemma delete_effect:
  assumes "map_inv s" "delete_handle_wo m (hs_mgr s) = Inr g"
  obtains (unknown) "g = hs_mgr s"
    | (marked) p h where "heap_of s p = Some h" "h_m h = m" "h_refcnt h \<noteq> 0" "hm_heap g = (heap_of s)(p \<mapsto> h\<lparr>h_del := True\<rparr>)"
      "hm_clients g = clients_of s"
    | (erased) p h where "heap_of s p = Some h" "h_m h = m" "h_refcnt h = 0" "hm_heap g = (heap_of s)(p := None)"
      "hm_clients g = clients_of s - set_option (h_cl h)"
proof -
  have m: "heap_of s p = Some h \<Longrightarrow> map_of (hm_hmap (hs_mgr s)) m = Some p \<Longrightarrow> h_m h = m" for p h
    using assms(1) unfolding map_inv_def by (metis option.inject)
  from assms(2) show thesis
    by (cases rule: delete_handle_wo_cases) (use unknown m in blast, use marked m in force, use erased m in force)
qed

lemma handle_step_effect:
  assumes "map_inv s" "handle_step s t"
  obtains (fresh) i a m where "hs_handles s i = None" "heap_of s a = None" "heap_of t = (heap_of s)(a \<mapsto> hinfo_new m)"
      "clients_of t = clients_of s" "hs_handles t = (hs_handles s)(i \<mapsto> Some a)" "hs_binding t = hs_binding s"
    | (shared) i p h where "hs_handles s i = None" "heap_of s p = Some h" "\<not> h_del h"
      "heap_of t = (heap_of s)(p \<mapsto> h\<lparr>h_refcnt := h_refcnt h + 1\<rparr>)"
      "clients_of t = clients_of s" "hs_handles t = (hs_handles s)(i \<mapsto> Some p)" "hs_binding t = hs_binding s"
    | (null) i where "hs_handles s i = None \<or> hs_handles s i = Some None \<and> hs_binding s i = None" "heap_of t = heap_of s" "clients_of t = clients_of s"
      "hs_handles t = (hs_handles s)(i := None) \<or> hs_handles t = (hs_handles s)(i := Some None)" "hs_binding t = hs_binding s"
    | (drop) i p h where "hs_handles s i = Some (Some p)" "hs_binding s i = None" "heap_of s p = Some h" "\<not> (h_refcnt h = 1 \<and> h_del h)"
      "heap_of t = (heap_of s)(p \<mapsto> h\<lparr>h_refcnt := h_refcnt h - 1\<rparr>)"
      "clients_of t = clients_of s" "hs_handles t = (hs_handles s)(i := None)" "hs_binding t = hs_binding s"
    | (last) i p h where "hs_handles s i = Some (Some p)" "hs_binding s i = None" "heap_of s p = Some h" "h_refcnt h = 1"
      "heap_of t = (heap_of s)(p := None)"
      "clients_of t = clients_of s - set_option (h_cl h)" "hs_handles t = (hs_handles s)(i := None)" "hs_binding t = hs_binding s"
    | (lock) i p h c where "hs_handles s i = Some (Some p)" "hs_binding s i = None" "heap_of s p = Some h" "\<not> h_locked h" "h_cl h = None"
      "c \<notin> clients_of s" "heap_of t = (heap_of s)(p \<mapsto> h\<lparr>h_locked := True\<rparr>)"
      "clients_of t = insert c (clients_of s)" "hs_handles t = hs_handles s" "hs_binding t = (hs_binding s)(i \<mapsto> c)"
    | (bound) i p h c where "hs_handles s i = Some (Some p)" "hs_binding s i = Some c" "heap_of s p = Some h"
      "heap_of t = (heap_of s)(p \<mapsto> h\<lparr>h_cl := Some c, h_locked := False\<rparr>)"
      "clients_of t = clients_of s" "hs_handles t = hs_handles s" "hs_binding t = (hs_binding s)(i := None)"
    | (failed) i p h c where "hs_handles s i = Some (Some p)" "hs_binding s i = Some c" "heap_of s p = Some h"
      "heap_of t = (heap_of s)(p \<mapsto> h\<lparr>h_del := True, h_locked := False\<rparr>)"
      "clients_of t = clients_of s - {c}" "hs_handles t = hs_handles s" "hs_binding t = (hs_binding s)(i := None)"
    | (marked) p h where "heap_of s p = Some h" "h_refcnt h \<noteq> 0" "heap_of t = (heap_of s)(p \<mapsto> h\<lparr>h_del := True\<rparr>)"
      "clients_of t = clients_of s" "hs_handles t = hs_handles s" "hs_binding t = hs_binding s"
    | (erased) p h where "heap_of s p = Some h" "h_refcnt h = 0" "heap_of t = (heap_of s)(p := None)"
      "clients_of t = clients_of s - set_option (h_cl h)" "hs_handles t = hs_handles s" "hs_binding t = hs_binding s"
    | (idle) "heap_of t = heap_of s" "clients_of t = clients_of s" "hs_handles t = hs_handles s" "hs_binding t = hs_binding s"
  using assms(2)
proof cases
  case (construct i a m h g)
  from construct(4) show thesis
  proof (cases rule: handle_new_cases)
    case fresh
    then show thesis using construct by (intro that(1) [of i a m]) (simp_all add: hinfo_new_def)
  next
    case (shared p hi)
    then show thesis using construct by (intro that(2) [of i p hi]) simp_all
  next
    case refused
    then show thesis using construct by (intro that(3) [of i]) simp_all
  qed
next
  case (destruct i h g)
  from destruct(4) show thesis
  proof (cases rule: handle_delete_cases)
    case none
    then show thesis using destruct by (intro that(3) [of i]) simp_all
  next
    case (drop p hi)
    then show thesis using destruct by (intro that(4) [of i p hi]) simp_all
  next
    case (last p hi)
    let ?s = "s\<lparr>hs_mgr := hset p (hi\<lparr>h_refcnt := 0\<rparr>) (hs_mgr s)\<rparr>"
    have inv: "map_inv ?s" by (rule map_inv_keep [OF assms(1) last(2), of "hi\<lparr>h_refcnt := 0\<rparr>"]) simp_all
    have "map_of (hm_hmap (hs_mgr s)) (h_m hi) = Some p" using assms(1) last(2) unfolding map_inv_def by blast
    with last(5) have "hm_heap g = (heap_of s)(p := None)" "hm_clients g = clients_of s - set_option (h_cl hi)"
      by (auto elim!: delete_handle_wo_cases)
    then show thesis using destruct last by (intro that(5) [of i p hi]) simp_all
  qed
next
  case (bind_call i p h c g)
  then show thesis by (intro that(6) [of i p h c]) (auto simp: safebind_enter_Bind)
next
  case (bind_return i p c ret r g)
  from bind_return(4) show thesis
  proof (cases rule: safebind_leave_cases)
    case (bound h)
    then show thesis using bind_return by (intro that(7) [of i p c h]) simp_all
  next
    case (failed h)
    then show thesis using bind_return by (intro that(8) [of i p c h]) simp_all
  qed
next
  case (forget m g)
  from assms(1) forget(2) [unfolded delete_handle_def] show thesis
  proof (cases rule: delete_effect)
    case unknown
    then show thesis using forget by (intro that(11)) simp_all
  next
    case (marked p h)
    then show thesis using forget by (intro that(9) [of p h]) simp_all
  next
    case (erased p h)
    then show thesis using forget by (intro that(10) [of p h]) simp_all
  qed
qed

lemma holders_update:
  "hs_handles t = (hs_handles s)(i := x) \<Longrightarrow> holders p t = (if x = Some (Some p) then insert i (holders p s) else holders p s - {i})"
  by (auto simp: holders_def)

lemma holders_same: "hs_handles t = hs_handles s \<Longrightarrow> holders p t = holders p s"
  by (simp add: holders_def)

definition ref_ok :: "hinfo \<Rightarrow> nat set \<Rightarrow> bool" where
  "ref_ok h H \<longleftrightarrow> finite H \<and> h_refcnt h = int (card H) \<and> (h_del h \<longrightarrow> H \<noteq> {})"

lemma ref_inv_change:
  assumes "ref_inv s" "\<And>q. q \<noteq> p \<Longrightarrow> heap_of t q = heap_of s q \<and> holders q t = holders q s"
    and "case heap_of t p of None \<Rightarrow> holders p t = {} | Some h \<Rightarrow> ref_ok h (holders p t)"
  shows "ref_inv t"
  unfolding ref_inv_def
proof (intro conjI allI impI)
  fix q assume q: "heap_of t q = None"
  show "holders q t = {}"
  proof (cases "q = p")
    case True
    then show ?thesis using assms(3) q by simp
  next
    case False
    then show ?thesis using assms(1) assms(2) [OF False] q unfolding ref_inv_def by metis
  qed
next
  fix q h assume q: "heap_of t q = Some h"
  have "ref_ok h (holders q t)"
  proof (cases "q = p")
    case True
    then show ?thesis using assms(3) q by simp
  next
    case False
    then show ?thesis using assms(1) assms(2) [OF False] q unfolding ref_inv_def ref_ok_def by metis
  qed
  then show "finite (holders q t)" "h_refcnt h = int (card (holders q t))" "h_del h \<Longrightarrow> holders q t \<noteq> {}" by (simp_all add: ref_ok_def)
qed

lemma ref_invD:
  assumes "ref_inv s"
  shows "heap_of s p = None \<Longrightarrow> holders p s = {}"
    and "heap_of s p = Some h \<Longrightarrow> finite (holders p s)"
    and "heap_of s p = Some h \<Longrightarrow> h_refcnt h = int (card (holders p s))"
    and "heap_of s p = Some h \<Longrightarrow> h_del h \<Longrightarrow> holders p s \<noteq> {}"
  using assms unfolding ref_inv_def by blast+

lemma ref_invD_ok: "ref_inv s \<Longrightarrow> heap_of s p = Some h \<Longrightarrow> ref_ok h (holders p s)"
  unfolding ref_inv_def ref_ok_def by blast

lemma ref_inv_step:
  assumes "map_inv s" "ref_inv s" "handle_step s t"
  shows "ref_inv t"
  using assms(1,3)
proof (cases rule: handle_step_effect)
  case (fresh i a m)
  have "i \<notin> holders p s" for p using fresh(1) by (simp add: holders_def)
  then show ?thesis using ref_invD(1) [OF assms(2) fresh(2)]
    by (intro ref_inv_change [OF assms(2), of a]) (simp_all add: fresh(3) holders_update [OF fresh(5)] hinfo_new_def ref_ok_def)
next
  case (shared i p h)
  have "i \<notin> holders q s" for q using shared(1) by (simp add: holders_def)
  then show ?thesis using ref_invD_ok [OF assms(2) shared(2)]
    by (intro ref_inv_change [OF assms(2), of p]) (simp_all add: shared(4) holders_update [OF shared(6)] ref_ok_def)
next
  case (null i)
  then have "holders p t = holders p s" for p by (auto simp: holders_def split: if_splits)
  then show ?thesis using assms(2) unfolding ref_inv_def null(2) by (simp only:)
next
  case (drop i p h)
  have i: "i \<in> holders q s \<longleftrightarrow> q = p" for q using drop(1) by (auto simp: holders_def)
  have h: "finite (holders p s)" "h_refcnt h = int (card (holders p s))" using ref_invD(2,3) [OF assms(2) drop(3)] by simp_all
  have pos: "0 < card (holders p s)" using h(1) i [of p] card_gt_0_iff by blast
  have ne: "holders p s - {i} \<noteq> {}" if "h_del h"
  proof
    assume "holders p s - {i} = {}"
    then have "holders p s = {i}" using i [of p] by blast
    then show False using drop(4) that h(2) by simp
  qed
  have "ref_ok (h\<lparr>h_refcnt := h_refcnt h - 1\<rparr>) (holders p s - {i})"
    using h pos ne i [of p] by (simp add: ref_ok_def)
  then show ?thesis using i
    by (intro ref_inv_change [OF assms(2), of p]) (simp_all add: drop(5) holders_update [OF drop(7)])
next
  case (last i p h)
  have i: "i \<in> holders q s \<longleftrightarrow> q = p" for q using last(1) by (auto simp: holders_def)
  have "card (holders p s) = 1" using ref_invD(3) [OF assms(2) last(3)] last(4) by simp
  then have "holders p s = {i}" using i [of p] by (auto simp: card_1_singleton_iff)
  then show ?thesis using i
    by (intro ref_inv_change [OF assms(2), of p]) (simp_all add: last(5) holders_update [OF last(7)])
next
  case (lock i p h c)
  then show ?thesis using ref_invD_ok [OF assms(2) lock(3)]
    by (intro ref_inv_change [OF assms(2), of p]) (simp_all add: holders_same [OF lock(9)] ref_ok_def)
next
  case (bound i p c h)
  then show ?thesis using ref_invD_ok [OF assms(2) bound(3)]
    by (intro ref_inv_change [OF assms(2), of p]) (simp_all add: holders_same [OF bound(6)] ref_ok_def)
next
  case (failed i p c h)
  have "holders p s \<noteq> {}" using failed(1) by (auto simp: holders_def)
  then show ?thesis using ref_invD_ok [OF assms(2) failed(3)]
    by (intro ref_inv_change [OF assms(2), of p]) (simp_all add: failed(4) holders_same [OF failed(6)] ref_ok_def)
next
  case (marked p h)
  have "holders p s \<noteq> {}" using ref_invD(3) [OF assms(2) marked(1)] marked(2) by auto
  then show ?thesis using ref_invD_ok [OF assms(2) marked(1)]
    by (intro ref_inv_change [OF assms(2), of p]) (simp_all add: marked(3) holders_same [OF marked(5)] ref_ok_def)
next
  case (erased p h)
  have "holders p s = {}" using ref_invD(2,3) [OF assms(2) erased(1)] erased(2) by auto
  then show ?thesis
    by (intro ref_inv_change [OF assms(2), of p]) (simp_all add: erased(3) holders_same [OF erased(5)])
next
  case idle
  show ?thesis using assms(2) unfolding ref_inv_def idle(1) holders_same [OF idle(3)] .
qed

end
