(* ===== verification/Handle_Safety.thy ===== *)
theory Handle_Safety
  imports Handle
begin

text \<open>
  Ownership of the clients in the cache of \<open>Handle\<close>, and what it means for the users of a handle:
  no object is used after it was deleted, none leaks, and \<^verbatim>\<open>safebind\<close> keeps its answer.
\<close>

section \<open>Owners of clients\<close>

lemma client_invD:
  assumes "client_inv s"
  shows "c \<in> clients_of s \<longleftrightarrow> (\<exists>x. owns s x c)" and "owns s x c \<Longrightarrow> owns s y c \<Longrightarrow> x = y"
  using assms unfolding client_inv_def by blast+

text \<open>Four ways in which the owners change: not at all, one loses its client, one gets a new client, one passes it on.\<close>

lemma client_inv_same:
  assumes "client_inv s" "\<And>x c. owns t x c = owns s x c" "clients_of t = clients_of s"
  shows "client_inv t"
  using assms(1) unfolding client_inv_def assms(2,3) .

lemma client_inv_lose:
  assumes "client_inv s" "\<And>x c. owns t x c \<longleftrightarrow> x \<noteq> z \<and> owns s x c" "clients_of t = clients_of s - {c. owns s z c}"
  shows "client_inv t"
  using client_invD [OF assms(1)] unfolding client_inv_def assms(2,3) Diff_iff mem_Collect_eq by metis

lemma client_inv_gain:
  assumes "client_inv s" "\<And>x c'. owns t x c' \<longleftrightarrow> x = z \<and> c' = c \<or> owns s x c'" "clients_of t = insert c (clients_of s)" "c \<notin> clients_of s"
  shows "client_inv t"
  using client_invD [OF assms(1)] assms(4) unfolding client_inv_def assms(2,3) insert_iff by metis

lemma client_inv_pass:
  assumes "client_inv s" "owns s z c" "\<And>x c'. owns t x c' \<longleftrightarrow> x = y \<and> c' = c \<or> x \<noteq> z \<and> owns s x c'"
    and "\<And>d. owns s z d \<Longrightarrow> d = c" "y \<noteq> z" "clients_of t = clients_of s"
  shows "client_inv t"
  using client_invD [OF assms(1)] assms(2,4,5) unfolding client_inv_def assms(3,6) by metis

lemma owns_Inl: "owns s (Inl p) c \<longleftrightarrow> (\<exists>h. heap_of s p = Some h \<and> h_cl h = Some c)"
  by (simp add: owns_def)

lemma owns_Inr: "owns s (Inr i) c \<longleftrightarrow> hs_binding s i = Some c"
  by (simp add: owns_def)

lemmas owners = owns_Inl owns_Inr

lemma owns_keep:
  assumes "heap_of s p = Some h" "heap_of t = (heap_of s)(p \<mapsto> h')" "h_cl h' = h_cl h" "hs_binding t = hs_binding s"
  shows "owns t x c = owns s x c"
  using assms by (cases x) (simp_all add: owners)

lemma client_inv_erase:
  assumes "client_inv s" "heap_of s p = Some h" "heap_of t = (heap_of s)(p := None)"
    and "clients_of t = clients_of s - set_option (h_cl h)" "hs_binding t = hs_binding s"
  shows "client_inv t"
proof (rule client_inv_lose [OF assms(1), of t "Inl p"])
  show "owns t x c \<longleftrightarrow> x \<noteq> Inl p \<and> owns s x c" for x c using assms(3,5) by (cases x) (auto simp: owners)
  show "clients_of t = clients_of s - {c. owns s (Inl p) c}" using assms(2,4) by (auto simp: owners)
qed

lemma bind_invD:
  assumes "bind_inv s" "hs_binding s i = Some c"
  obtains p h where "hs_handles s i = Some (Some p)" "heap_of s p = Some h" "h_locked h" "h_cl h = None"
    "\<forall>j. hs_handles s j = Some (Some p) \<longrightarrow> hs_binding s j \<noteq> None \<longrightarrow> j = i"
proof -
  have one: "\<exists>p h. hs_handles s i = Some (Some p) \<and> heap_of s p = Some h \<and> h_locked h \<and> h_cl h = None"
    using assms unfolding bind_inv_def by blast
  have two: "j = i" if "i \<in> holders p s" "j \<in> holders p s" "hs_binding s j \<noteq> None" for j p
    using assms that unfolding bind_inv_def by (metis option.distinct(1))
  from one obtain p h where p: "hs_handles s i = Some (Some p)" "heap_of s p = Some h" "h_locked h" "h_cl h = None" by blast
  show thesis by (rule that [OF p]) (use two [of p] p(1) in \<open>simp add: holders_def\<close>)
qed

lemma bind_inv_object:
  assumes "bind_inv s" "hs_binding s i = Some c" "hs_handles s i = Some (Some p)" "heap_of s p = Some h"
  shows "h_locked h \<and> h_cl h = None"
proof -
  have "\<exists>p h. hs_handles s i = Some (Some p) \<and> heap_of s p = Some h \<and> h_locked h \<and> h_cl h = None"
    using assms(1,2) unfolding bind_inv_def by blast
  then show ?thesis using assms(3,4) by auto
qed

lemma client_inv_step:
  assumes "map_inv s" "client_inv s" "bind_inv s" "handle_step s t"
  shows "client_inv t"
  using assms(1,4)
proof (cases rule: handle_step_effect)
  case (fresh i a m)
  then have "owns t x c = owns s x c" for x c by (cases x) (simp_all add: owners hinfo_new_def)
  then show ?thesis using client_inv_same [OF assms(2)] fresh(4) by blast
next
  case (shared i p h)
  show ?thesis by (rule client_inv_same [OF assms(2) owns_keep [OF shared(2,4)]]) (simp_all add: shared)
next
  case (null i)
  have "owns t x c = owns s x c" for x c using null by (cases x) (simp_all add: owners)
  then show ?thesis using client_inv_same [OF assms(2)] null(3) by blast
next
  case (drop i p h)
  show ?thesis by (rule client_inv_same [OF assms(2) owns_keep [OF drop(3,5)]]) (simp_all add: drop)
next
  case (last i p h)
  show ?thesis by (rule client_inv_erase [OF assms(2) last(3,5,6,8)])
next
  case (lock i p h c)
  show ?thesis
  proof (rule client_inv_gain [OF assms(2) _ lock(8,6)])
    show "owns t x c' \<longleftrightarrow> x = Inr i \<and> c' = c \<or> owns s x c'" for x c'
      using lock(2,3,7,10) by (cases x) (auto simp: owners)
  qed
next
  case (bound i p h c)
  have "h_cl h = None" using bind_inv_object [OF assms(3) bound(2,1,3)] by blast
  then have p: "\<not> owns s (Inl p) c'" for c' using bound(3) by (simp add: owners)
  show ?thesis
  proof (rule client_inv_pass [OF assms(2), of "Inr i" c t "Inl p"])
    show "owns t x c' \<longleftrightarrow> x = Inl p \<and> c' = c \<or> x \<noteq> Inr i \<and> owns s x c'" for x c'
      using p [of c'] bound(4,7) by (cases x) (auto simp: owners)
  qed (use bound in \<open>simp_all add: owners\<close>)
next
  case (failed i p h c)
  show ?thesis
  proof (rule client_inv_lose [OF assms(2), of t "Inr i"])
    show "owns t x c' \<longleftrightarrow> x \<noteq> Inr i \<and> owns s x c'" for x c' using failed(3,4,7) by (cases x) (auto simp: owners)
    show "clients_of t = clients_of s - {c'. owns s (Inr i) c'}" using failed(2,5) by (simp add: owners)
  qed
next
  case (marked p h)
  show ?thesis by (rule client_inv_same [OF assms(2) owns_keep [OF marked(1,3)]]) (simp_all add: marked)
next
  case (erased p h)
  show ?thesis by (rule client_inv_erase [OF assms(2) erased(1,3,4,6)])
next
  case idle
  have "owns t x c = owns s x c" for x c using idle by (cases x) (simp_all add: owners)
  then show ?thesis using client_inv_same [OF assms(2)] idle(2) by blast
qed


lemma bind_invI:
  assumes "\<And>i c. hs_binding t i = Some c \<Longrightarrow> \<exists>p h. hs_handles t i = Some (Some p) \<and> heap_of t p = Some h \<and> h_locked h \<and> h_cl h = None \<and>
    (\<forall>j. hs_handles t j = Some (Some p) \<longrightarrow> hs_binding t j \<noteq> None \<longrightarrow> j = i)"
  shows "bind_inv t"
  unfolding bind_inv_def
proof (intro conjI allI impI)
  fix i c assume "hs_binding t i = Some c"
  then show "\<exists>p h. hs_handles t i = Some (Some p) \<and> heap_of t p = Some h \<and> h_locked h \<and> h_cl h = None"
    using assms by blast
next
  fix i j p assume "i \<in> holders p t" "j \<in> holders p t" and b: "hs_binding t i \<noteq> None" "hs_binding t j \<noteq> None"
  then have h: "hs_handles t i = Some (Some p)" "hs_handles t j = Some (Some p)" by (simp_all add: holders_def)
  obtain c where "hs_binding t i = Some c" using b(1) by blast
  then obtain q where "hs_handles t i = Some (Some q)" "\<forall>k. hs_handles t k = Some (Some q) \<longrightarrow> hs_binding t k \<noteq> None \<longrightarrow> k = i"
    using assms by blast
  then show "i = j" using h b(2) by simp
qed

text \<open>A step keeps the calls of \<^verbatim>\<open>bind\<close> in order if it keeps their handles and their objects.\<close>

lemma bind_inv_keep:
  assumes "bind_inv s"
    and "\<And>i c. hs_binding t i = Some c \<Longrightarrow> hs_binding s i = Some c \<and> hs_handles t i = hs_handles s i"
    and "\<And>i c p h. hs_binding t i = Some c \<Longrightarrow> hs_handles s i = Some (Some p) \<Longrightarrow> heap_of s p = Some h \<Longrightarrow> h_locked h \<Longrightarrow> h_cl h = None \<Longrightarrow>
      (\<And>j. hs_handles s j = Some (Some p) \<Longrightarrow> hs_binding s j \<noteq> None \<Longrightarrow> j = i) \<Longrightarrow>
      \<exists>h'. heap_of t p = Some h' \<and> h_locked h' \<and> h_cl h' = None"
  shows "bind_inv t"
proof (rule bind_invI)
  fix i c assume i: "hs_binding t i = Some c"
  then have s: "hs_binding s i = Some c" "hs_handles t i = hs_handles s i" using assms(2) by blast+
  obtain p h where p: "hs_handles s i = Some (Some p)" "heap_of s p = Some h" "h_locked h" "h_cl h = None"
    "\<forall>j. hs_handles s j = Some (Some p) \<longrightarrow> hs_binding s j \<noteq> None \<longrightarrow> j = i"
    by (rule bind_invD [OF assms(1) s(1)])
  have u: "\<forall>j. hs_handles t j = Some (Some p) \<longrightarrow> hs_binding t j \<noteq> None \<longrightarrow> j = i"
  proof (intro allI impI)
    fix j assume "hs_handles t j = Some (Some p)" "hs_binding t j \<noteq> None"
    then obtain d where "hs_binding t j = Some d" "hs_handles t j = Some (Some p)" by blast
    then show "j = i" using assms(2) [of j d] p(5) by simp
  qed
  obtain h' where "heap_of t p = Some h'" "h_locked h'" "h_cl h' = None" using assms(3) [OF i p(1-4)] p(5) by blast
  then show "\<exists>p h. hs_handles t i = Some (Some p) \<and> heap_of t p = Some h \<and> h_locked h \<and> h_cl h = None \<and>
      (\<forall>j. hs_handles t j = Some (Some p) \<longrightarrow> hs_binding t j \<noteq> None \<longrightarrow> j = i)"
    using u s(2) p(1) by (intro exI [of _ p] exI [of _ h']) simp
qed

lemma unbound: "bind_inv s \<Longrightarrow> hs_handles s i = None \<or> hs_handles s i = Some None \<Longrightarrow> hs_binding s i = None"
  by (cases "hs_binding s i") (auto simp: bind_inv_def)

text \<open>The calls of \<^verbatim>\<open>bind\<close> and their handles stay, and only \<open>p\<close> changes, to \<open>h'\<close>.\<close>

lemma bind_inv_touch:
  assumes "bind_inv s" "heap_of s p = Some h" "heap_of t = (heap_of s)(p \<mapsto> h')" "h_locked h' = h_locked h" "h_cl h' = h_cl h"
    and "hs_binding t = hs_binding s" "\<And>i c. hs_binding s i = Some c \<Longrightarrow> hs_handles t i = hs_handles s i"
  shows "bind_inv t"
proof (rule bind_inv_keep [OF assms(1)])
  fix i c assume i: "hs_binding t i = Some c"
  then show "hs_binding s i = Some c \<and> hs_handles t i = hs_handles s i" using assms(6,7) by simp
  fix q k assume "heap_of s q = Some k" "h_locked k" "h_cl k = None"
  then show "\<exists>h'. heap_of t q = Some h' \<and> h_locked h' \<and> h_cl h' = None" using assms(2-5) by (cases "q = p") simp_all
qed

text \<open>The call of \<^verbatim>\<open>bind\<close> of handle \<open>i\<close> ends.\<close>

lemma bind_inv_end:
  assumes "bind_inv s" "hs_handles s i = Some (Some p)" "hs_binding s i = Some c" "heap_of t = (heap_of s)(p \<mapsto> h')"
    and "hs_binding t = (hs_binding s)(i := None)" "hs_handles t = hs_handles s"
  shows "bind_inv t"
proof (rule bind_inv_keep [OF assms(1)])
  fix j d assume j: "hs_binding t j = Some d"
  then have ji: "j \<noteq> i" using assms(5) by auto
  then show "hs_binding s j = Some d \<and> hs_handles t j = hs_handles s j" using j assms(5,6) by simp
  fix q k assume q: "heap_of s q = Some k" "h_locked k" "h_cl k = None"
    "\<And>l. hs_handles s l = Some (Some q) \<Longrightarrow> hs_binding s l \<noteq> None \<Longrightarrow> l = j"
  have "q \<noteq> p" using q(4) [of i] ji assms(2,3) by auto
  then show "\<exists>h'. heap_of t q = Some h' \<and> h_locked h' \<and> h_cl h' = None" using q assms(4) by simp
qed

text \<open>An object without a call of \<^verbatim>\<open>bind\<close> goes away.\<close>

lemma bind_inv_gone:
  assumes "bind_inv s" "\<And>j. hs_handles s j = Some (Some p) \<Longrightarrow> hs_binding s j = None" "heap_of t = (heap_of s)(p := None)"
    and "hs_binding t = hs_binding s" "\<And>i c. hs_binding s i = Some c \<Longrightarrow> hs_handles t i = hs_handles s i"
  shows "bind_inv t"
proof (rule bind_inv_keep [OF assms(1)])
  fix i c assume i: "hs_binding t i = Some c"
  then show "hs_binding s i = Some c \<and> hs_handles t i = hs_handles s i" using assms(4,5) by simp
  fix q k assume q: "hs_handles s i = Some (Some q)" "heap_of s q = Some k" "h_locked k" "h_cl k = None"
  have "q \<noteq> p" using assms(2) [of i] q(1) i assms(4) by auto
  then show "\<exists>h'. heap_of t q = Some h' \<and> h_locked h' \<and> h_cl h' = None" using q assms(3) by simp
qed

lemma bind_inv_lock:
  assumes "bind_inv s" "hs_handles s i = Some (Some p)" "heap_of s p = Some h" "\<not> h_locked h" "h_cl h = None"
    and "heap_of t = (heap_of s)(p \<mapsto> h\<lparr>h_locked := True\<rparr>)" "hs_handles t = hs_handles s" "hs_binding t = (hs_binding s)(i \<mapsto> c)"
  shows "bind_inv t"
proof (rule bind_invI)
  have free: "hs_binding s j = None" if "hs_handles s j = Some (Some p)" for j
  proof (rule ccontr)
    assume "hs_binding s j \<noteq> None"
    then obtain d where "hs_binding s j = Some d" by blast
    then show False using bind_inv_object [OF assms(1) _ that assms(3)] assms(4) by blast
  qed
  fix j d assume j: "hs_binding t j = Some d"
  show "\<exists>p h. hs_handles t j = Some (Some p) \<and> heap_of t p = Some h \<and> h_locked h \<and> h_cl h = None \<and>
    (\<forall>k. hs_handles t k = Some (Some p) \<longrightarrow> hs_binding t k \<noteq> None \<longrightarrow> k = j)"
  proof (cases "j = i")
    case True
    then show ?thesis using assms(2,5-8) free by (intro exI [of _ p] exI [of _ "h\<lparr>h_locked := True\<rparr>"]) auto
  next
    case False
    then have s: "hs_binding s j = Some d" using j assms(8) by simp
    obtain q k where q: "hs_handles s j = Some (Some q)" "heap_of s q = Some k" "h_locked k" "h_cl k = None"
      "\<forall>l. hs_handles s l = Some (Some q) \<longrightarrow> hs_binding s l \<noteq> None \<longrightarrow> l = j"
      by (rule bind_invD [OF assms(1) s])
    have "q \<noteq> p" using free [of j] q(1) s by auto
    then show ?thesis using q assms(2,6-8) by (intro exI [of _ q] exI [of _ k]) auto
  qed
qed

lemma bind_inv_step:
  assumes "map_inv s" "ref_inv s" "bind_inv s" "handle_step s t"
  shows "bind_inv t"
  using assms(1,4)
proof (cases rule: handle_step_effect)
  case (fresh i a m)
  have "hs_binding s i = None" using unbound [OF assms(3)] fresh(1) by blast
  then show ?thesis using fresh by (intro bind_inv_keep [OF assms(3)]) auto
next
  case (shared i p h)
  have "hs_binding s i = None" using unbound [OF assms(3)] shared(1) by blast
  then show ?thesis by (intro bind_inv_touch [OF assms(3) shared(2,4)]) (auto simp: shared)
next
  case (null i)
  have "hs_binding s i = None" using unbound [OF assms(3)] null(1) by blast
  then show ?thesis using null by (intro bind_inv_keep [OF assms(3)]) auto
next
  case (drop i p h)
  show ?thesis by (rule bind_inv_touch [OF assms(3) drop(3,5)]) (use drop in auto)
next
  case (last i p h)
  have "card (holders p s) = 1" "i \<in> holders p s" using ref_invD(3) [OF assms(2) last(3)] last(1,4) by (simp_all add: holders_def)
  then have "holders p s = {i}" by (auto simp: card_1_singleton_iff)
  then have "hs_binding s j = None" if "hs_handles s j = Some (Some p)" for j using that last(2) by (auto simp: holders_def)
  moreover have "hs_handles t j = hs_handles s j" if "hs_binding s j = Some c" for j c using that last(2,7) by (cases "j = i") simp_all
  ultimately show ?thesis by (rule bind_inv_gone [OF assms(3) _ last(5,8)])
next
  case (lock i p h c)
  show ?thesis by (rule bind_inv_lock [OF assms(3) lock(1,3,4,5,7,9,10)])
next
  case (bound i p h c)
  show ?thesis by (rule bind_inv_end [OF assms(3) bound(1,2,4,7,6)])
next
  case (failed i p h c)
  show ?thesis by (rule bind_inv_end [OF assms(3) failed(1,2,4,7,6)])
next
  case (marked p h)
  show ?thesis by (rule bind_inv_touch [OF assms(3) marked(1,3)]) (simp_all add: marked)
next
  case (erased p h)
  have "holders p s = {}" using ref_invD(2,3) [OF assms(2) erased(1)] erased(2) by auto
  then have "hs_handles s j \<noteq> Some (Some p)" for j by (auto simp: holders_def)
  then show ?thesis by (intro bind_inv_gone [OF assms(3) _ erased(3)]) (simp_all add: erased)
next
  case idle
  then show ?thesis by (intro bind_inv_keep [OF assms(3)]) auto
qed

section \<open>Properties\<close>

definition handles_ok :: "handle_sys \<Rightarrow> bool" where
  "handles_ok s \<longleftrightarrow> map_inv s \<and> ref_inv s \<and> client_inv s \<and> bind_inv s"

interpretation handle_cache: invariant_system handle_init handle_step handles_ok
proof
  show "handles_ok s" if "handle_init s" for s
    using that by (simp add: handles_ok_def handle_init_def handle_mgr_new_def map_inv_def ref_inv_def client_inv_def bind_inv_def
        holders_def owns_def split: sum.splits)
  show "handles_ok t" if "handles_ok s" "handle_step s t" for s t
    using that map_inv_step ref_inv_step client_inv_step bind_inv_step unfolding handles_ok_def by blast
qed

lemma handle_new_safe: "handles_ok s \<Longrightarrow> \<exists>r. handle_new a m (hs_mgr s) = Inr r"
  by (cases "map_of (hm_hmap (hs_mgr s)) m")
    (auto simp: handles_ok_def map_inv_def handle_new_def get_handle_def deref_def split: option.splits)

lemma delete_client_safe: "handles_ok s \<Longrightarrow> heap_of s p = Some h \<Longrightarrow> \<exists>g. delete_client (h_cl h) (hs_mgr s) = Inr g"
  using client_invD(1) [of s] owns_Inl [of s p] by (cases "h_cl h") (auto simp: handles_ok_def delete_client_def)

lemma delete_handle_wo_safe:
  assumes "\<And>p. map_of (hm_hmap g) m = Some p \<Longrightarrow> \<exists>h. hm_heap g p = Some h \<and> (\<exists>g'. delete_client (h_cl h) g = Inr g')"
  shows "\<exists>g'. delete_handle_wo m g = Inr g'"
proof (cases "map_of (hm_hmap g) m")
  case (Some p)
  with assms obtain h g' where "hm_heap g p = Some h" "delete_client (h_cl h) g = Inr g'" by blast
  with Some show ?thesis by (auto simp: delete_handle_wo_def deref_def)
qed (simp add: delete_handle_wo_def)

lemma delete_handle_safe:
  assumes "handles_ok s" shows "\<exists>g. delete_handle m (hs_mgr s) = Inr g"
  unfolding delete_handle_def
proof (rule delete_handle_wo_safe)
  fix p assume "map_of (hm_hmap (hs_mgr s)) m = Some p"
  then obtain h where "heap_of s p = Some h" using assms by (auto simp: handles_ok_def map_inv_def)
  with delete_client_safe [OF assms this] show "\<exists>h. heap_of s p = Some h \<and> (\<exists>g'. delete_client (h_cl h) (hs_mgr s) = Inr g')" by blast
qed

lemma held_object:
  assumes "handles_ok s" "hs_handles s i = Some (Some p)"
  obtains h where "heap_of s p = Some h"
proof (cases "heap_of s p")
  case None
  then have "holders p s = {}" using assms(1) by (simp add: handles_ok_def ref_inv_def)
  then show thesis using assms(2) by (auto simp: holders_def)
qed (rule that)

lemma delete_client_heap [simp]: "delete_client c (hset p h s) = Inr g \<longleftrightarrow> (\<exists>g'. delete_client c s = Inr g' \<and> g = hset p h g')"
  by (auto simp: delete_client_def hset_def split: option.splits)

lemma handle_delete_safe:
  assumes "handles_ok s" "hs_handles s i = Some h"
  shows "\<exists>g. handle_delete h (hs_mgr s) = Inr g"
proof (cases h)
  case (Some p)
  obtain k where k: "heap_of s p = Some k" using held_object [OF assms(1)] assms(2) Some by blast
  have m: "map_of (hm_hmap (hs_mgr s)) (h_m k) = Some p" using assms(1) k unfolding handles_ok_def map_inv_def by blast
  have "\<exists>g. delete_handle_wo (h_m k) (hset p (k\<lparr>h_refcnt := h_refcnt k - 1\<rparr>) (hs_mgr s)) = Inr g"
    using delete_client_safe [OF assms(1) k] m by (intro delete_handle_wo_safe) auto
  then show ?thesis using Some k by (cases "h_refcnt k = 1") (simp_all add: handle_delete_def done_handle_def deref_def Let_def)
qed (simp add: handle_delete_def)

lemma safebind_enter_safe:
  assumes "handles_ok s" "hs_handles s i = Some h"
  shows "\<exists>r. safebind_enter c h (hs_mgr s) = Inr r"
proof (cases h)
  case (Some p)
  obtain k where "heap_of s p = Some k" using held_object [OF assms(1)] assms(2) Some by blast
  then show ?thesis using Some by (auto simp: safebind_enter_def deref_def split: option.splits)
qed (simp add: safebind_enter_def)

lemma safebind_leave_safe:
  assumes "handles_ok s" "hs_handles s i = Some (Some p)" "hs_binding s i = Some c"
  shows "\<exists>r. safebind_leave c ret p (hs_mgr s) = Inr r"
proof -
  obtain k where k: "heap_of s p = Some k" using held_object [OF assms(1,2)] by blast
  have "c \<in> clients_of s" using client_invD(1) [of s c] assms(1,3) owns_Inr [of s i c] by (auto simp: handles_ok_def)
  with k show ?thesis by (simp add: safebind_leave_def deref_def delete_client_def)
qed

text \<open>
  C18: the cache of clients is memory safe.  However threads construct, bind and destroy handles
  and drop destinations, no operation touches an object that was deleted; the reference count of
  an entry is the number of handles that refer to it; and the allocated clients are exactly
  those that an entry or a running \<^verbatim>\<open>safebind\<close> owns, so none leaks.
\<close>

theorem handles_memory_safe:
  assumes "reach handle_init handle_step s"
  shows "(\<forall>a m. \<exists>r. handle_new a m (hs_mgr s) = Inr r) \<and> (\<forall>m. \<exists>g. delete_handle m (hs_mgr s) = Inr g) \<and>
    (\<forall>i h. hs_handles s i = Some h \<longrightarrow>
       (\<exists>g. handle_delete h (hs_mgr s) = Inr g) \<and> (\<forall>c. \<exists>r. safebind_enter c h (hs_mgr s) = Inr r) \<and>
       (\<forall>p c ret. h = Some p \<longrightarrow> hs_binding s i = Some c \<longrightarrow> (\<exists>r. safebind_leave c ret p (hs_mgr s) = Inr r))) \<and>
    (\<forall>p h. heap_of s p = Some h \<longrightarrow> h_refcnt h = int (card {i. hs_handles s i = Some (Some p)})) \<and>
    clients_of s = {c. (\<exists>p h. heap_of s p = Some h \<and> h_cl h = Some c) \<or> (\<exists>i. hs_binding s i = Some c)}"
proof -
  have ok: "handles_ok s" by (rule handle_cache.reach_inv [OF assms])
  have refs: "heap_of s p = Some h \<Longrightarrow> h_refcnt h = int (card {i. hs_handles s i = Some (Some p)})" for p h
    using ok ref_invD(3) [of s p h] by (simp add: handles_ok_def holders_def)
  have "c \<in> clients_of s \<longleftrightarrow> (\<exists>p h. heap_of s p = Some h \<and> h_cl h = Some c) \<or> (\<exists>i. hs_binding s i = Some c)" for c
    using ok client_invD(1) [of s c] by (simp add: handles_ok_def split_sum_ex owners)
  then have clients: "clients_of s = {c. (\<exists>p h. heap_of s p = Some h \<and> h_cl h = Some c) \<or> (\<exists>i. hs_binding s i = Some c)}" by blast
  show ?thesis
    using handle_new_safe [OF ok] delete_handle_safe [OF ok] handle_delete_safe [OF ok] safebind_enter_safe [OF ok]
      safebind_leave_safe [OF ok] refs clients by blast
qed


definition keeps_answer :: "hinfo \<Rightarrow> hinfo \<Rightarrow> bool" where
  "keeps_answer h h' \<longleftrightarrow> (h_del h \<longrightarrow> h_del h') \<and> (\<forall>c. h_cl h = Some c \<longrightarrow> h_cl h' = Some c)"

lemma keeps_answer_refl [simp]: "keeps_answer h h"
  by (simp add: keeps_answer_def)




text \<open>Handle 0 is constructed for a destination and bound to client 5; then handle 1 is constructed.\<close>

definition cached_hinfo :: hinfo where
  "cached_hinfo = \<lparr>h_cl = Some 5, h_refcnt = 1, h_del = False, h_m = ''4000'', h_locked = False\<rparr>"

definition bound0 :: handle_sys where
  "bound0 = \<lparr>hs_mgr = \<lparr>hm_hmap = [(''4000'', 7)], hm_heap = [7 \<mapsto> cached_hinfo], hm_clients = {5}\<rparr>,
     hs_handles = [0 \<mapsto> Some 7], hs_binding = Map.empty\<rparr>"


lemma bound0_reach: "reach handle_init handle_step bound0"
proof -
  let ?s0 = "\<lparr>hs_mgr = handle_mgr_new, hs_handles = (\<lambda>_. None), hs_binding = (\<lambda>_. None)\<rparr> :: handle_sys"
  let ?g1 = "\<lparr>hm_hmap = [(''4000'', 7)], hm_heap = [7 \<mapsto> hinfo_new ''4000''], hm_clients = {}\<rparr> :: handle_mgr"
  let ?g2 = "?g1\<lparr>hm_heap := [7 \<mapsto> (hinfo_new ''4000'')\<lparr>h_locked := True\<rparr>], hm_clients := {5}\<rparr>"
  let ?s1 = "?s0\<lparr>hs_mgr := ?g1, hs_handles := [0 \<mapsto> Some 7]\<rparr>"
  let ?s2 = "?s1\<lparr>hs_mgr := ?g2, hs_binding := [0 \<mapsto> 5]\<rparr>"
  have "handle_new 7 ''4000'' handle_mgr_new = Inr (Some 7, ?g1)"
    by (simp add: handle_new_def get_handle_def handle_mgr_new_def hset_def hinfo_new_def)
  then have "handle_step ?s0 ?s1" using construct [of ?s0 0 7 "''4000''" "Some 7" ?g1] by (simp add: handle_mgr_new_def)
  moreover have "safebind_enter 5 (Some 7) ?g1 = Inr (Bind 5, ?g2)"
    by (simp add: safebind_enter_def deref_def hset_def hinfo_new_def)
  then have "handle_step ?s1 ?s2" using bind_call [of ?s1 0 7 "hinfo_new ''4000''" 5 ?g2] by (simp add: hinfo_new_def)
  moreover have "safebind_leave 5 0 7 ?g2 = Inr (Some 5, hs_mgr bound0)"
    by (simp add: safebind_leave_def deref_def hset_def hinfo_new_def bound0_def cached_hinfo_def)
  then have "handle_step ?s2 bound0" using bind_return [of ?s2 0 7 5 0 "Some 5" "hs_mgr bound0"] by (simp add: bound0_def)
  moreover have "reach handle_init handle_step ?s0" by (rule reach_init) (simp add: handle_init_def)
  ultimately show ?thesis by (blast intro: reach_step)
qed


theorem handles_memory_safe_witness:
  "(\<exists>g. handle_delete (Some 7) (hs_mgr bound0) = Inr g) \<and> hs_handles bound0 0 = Some (Some 7)"
proof -
  have "hs_handles bound0 0 = Some (Some 7)" by (simp add: bound0_def)
  with handles_memory_safe [OF bound0_reach] show ?thesis by blast
qed


end
